(* ===== verification/Prelude.thy ===== *)
theory Prelude
  imports Main "HOL-Library.Word"
begin

text \<open>
  Shared vocabulary of the development: how a fault of the kernel (a failed \<open>ASSERT\<close>, a
  \<open>PANIC\<close>, an access outside an object) is a value, the sequencing of fallible code, the
  bounded \<open>for\<close> loop, and the 32-bit \<open>size_t\<close> arithmetic of \<open>src/lib/stdint.h\<close> and
  \<open>src/lib/round.h\<close> with its wrap-around written out.
\<close>

unbundle bit_operations_syntax

section \<open>Collections of facts\<close>

named_theorems c_simps \<open>unfolding rules for the fallible code of the model\<close>
named_theorems sz_simps \<open>size_t arithmetic without wrap-around\<close>

section \<open>Faults and fallible code\<close>

text \<open>
  \<open>ASSERT\<close> and \<open>PANIC\<close> (\<open>src/lib/debug.h\<close>) stop the kernel. Undefined behaviour of C that
  the model has to name (an access outside an array, a null dereference) is \<open>Mem_fault\<close>.
\<close>

datatype fault = Assert_fail | Panic | Not_reached | Mem_fault | Div_fault

type_synonym 'a result = "fault + 'a"

definition rbind :: "'a result \<Rightarrow> ('a \<Rightarrow> 'b result) \<Rightarrow> 'b result" where
  "rbind m f = (case m of Inl e \<Rightarrow> Inl e | Inr x \<Rightarrow> f x)"

definition rassert :: "bool \<Rightarrow> unit result" where
  "rassert p = (if p then Inr () else Inl Assert_fail)"

definition rget :: "'a list \<Rightarrow> nat \<Rightarrow> 'a result" where
  "rget xs i = (if i < length xs then Inr (xs ! i) else Inl Mem_fault)"

definition rput :: "'a list \<Rightarrow> nat \<Rightarrow> 'a \<Rightarrow> 'a list result" where
  "rput xs i v = (if i < length xs then Inr (xs[i := v]) else Inl Mem_fault)"

text \<open>A counted loop \<open>for (i = 0; i < n; i++)\<close> over a state, whose body may fault.\<close>

primrec rfor :: "('i \<Rightarrow> 's \<Rightarrow> 's result) \<Rightarrow> 'i list \<Rightarrow> 's \<Rightarrow> 's result" where
  "rfor f [] s = Inr s"
| "rfor f (i # is) s = rbind (f i s) (rfor f is)"

lemma rbind_Inl [simp, c_simps]: "rbind (Inl e) f = Inl e"
  by (simp add: rbind_def)

lemma rbind_Inr [simp, c_simps]: "rbind (Inr x) f = f x"
  by (simp add: rbind_def)

lemma rbind_eq_Inr: "rbind m f = Inr y \<longleftrightarrow> (\<exists>x. m = Inr x \<and> f x = Inr y)"
  by (cases m) auto

lemma rbind_eq_InrE [elim!]:
  assumes "rbind m f = Inr y"
  obtains x where "m = Inr x" and "f x = Inr y"
  using assms by (auto simp: rbind_eq_Inr)

lemma rbind_cong [fundef_cong]:
  "m = m' \<Longrightarrow> (\<And>x. m' = Inr x \<Longrightarrow> f x = g x) \<Longrightarrow> rbind m f = rbind m' g"
  by (cases m) auto

lemma rbind_assoc: "rbind (rbind m f) g = rbind m (\<lambda>x. rbind (f x) g)"
  by (cases m) auto

lemma rassert_True [simp]: "p \<Longrightarrow> rassert p = Inr ()"
  by (simp add: rassert_def)

lemma rassert_False [simp]: "\<not> p \<Longrightarrow> rassert p = Inl Assert_fail"
  by (simp add: rassert_def)

lemma rassert_eq_Inr [simp]: "rassert p = Inr u \<longleftrightarrow> p"
  by (simp add: rassert_def)

lemma rget_in [simp]: "i < length xs \<Longrightarrow> rget xs i = Inr (xs ! i)"
  by (simp add: rget_def)

lemma rget_eq_Inr [simp]: "rget xs i = Inr v \<longleftrightarrow> i < length xs \<and> v = xs ! i"
  by (auto simp: rget_def)

lemma rput_in [simp]: "i < length xs \<Longrightarrow> rput xs i v = Inr (xs[i := v])"
  by (simp add: rput_def)

lemma rput_eq_Inr [simp]: "rput xs i v = Inr ys \<longleftrightarrow> i < length xs \<and> ys = xs[i := v]"
  by (auto simp: rput_def)

lemma rfor_append: "rfor f (xs @ ys) s = rbind (rfor f xs s) (rfor f ys)"
  by (induction xs arbitrary: s) (auto simp: rbind_def split: sum.splits)

text \<open>
  The loop rule: a property of the state indexed by the number of iterations done, kept by
  the body, holds at the end, and the loop does not fault.
\<close>

lemma rfor_upt_rule:
  assumes "P 0 s"
    and "\<And>i t. i < n \<Longrightarrow> P i t \<Longrightarrow> \<exists>t'. f i t = Inr t' \<and> P (Suc i) t'"
  shows "\<exists>t. rfor f [0..<n] s = Inr t \<and> P n t"
  using assms
proof (induction n)
  case 0
  then show ?case by simp
next
  case (Suc n)
  then obtain t where "rfor f [0..<n] s = Inr t" and "P n t"
    by (metis less_SucI)
  with Suc.prems(2)[of n t] show ?case
    by (auto simp: rfor_append)
qed

lemma rfor_invariant:
  assumes "rfor f xs s = Inr t" and "P s"
    and "\<And>x a b. x \<in> set xs \<Longrightarrow> P a \<Longrightarrow> f x a = Inr b \<Longrightarrow> P b"
  shows "P t"
  using assms
proof (induction xs arbitrary: s)
  case Nil
  then show ?case by simp
next
  case (Cons x xs)
  from Cons.prems(1) obtain u where "f x s = Inr u" and "rfor f xs u = Inr t"
    by auto
  moreover have "P u"
    using Cons.prems(3)[of x s u] Cons.prems(2) calculation(1) by simp
  ultimately show ?case
    using Cons.IH Cons.prems(3) by (metis list.set_intros(2))
qed

text \<open>
  Code with a loop that may not end returns an option, \<open>None\<close> for a loop that does not end.
  \<open>obind\<close> sequences such code; it is admissible in the bodies of \<open>partial_function\<close>.
\<close>

definition obind :: "'a result option \<Rightarrow> ('a \<Rightarrow> 'b result option) \<Rightarrow> 'b result option" where
  "obind m f = Option.bind m (\<lambda>r. case r of Inl e \<Rightarrow> Some (Inl e) | Inr x \<Rightarrow> f x)"

definition oassert :: "bool \<Rightarrow> unit result option" where
  "oassert p = Some (rassert p)"

lemma obind_simps [simp]:
  "obind None f = None" "obind (Some (Inl e)) f = Some (Inl e)" "obind (Some (Inr x)) f = f x"
  by (simp_all add: obind_def)

lemma obind_eq_Inr: "obind m f = Some (Inr y) \<longleftrightarrow> (\<exists>x. m = Some (Inr x) \<and> f x = Some (Inr y))"
  by (cases m) (auto simp: obind_def split: sum.splits)

lemma obind_eq_InrE [elim!]:
  assumes "obind m f = Some (Inr y)"
  obtains x where "m = Some (Inr x)" and "f x = Some (Inr y)"
  using assms by (auto simp: obind_eq_Inr)

lemma oassert_simps [simp]:
  "p \<Longrightarrow> oassert p = Some (Inr ())" "\<not> p \<Longrightarrow> oassert p = Some (Inl Assert_fail)"
  by (simp_all add: oassert_def)

lemma oassert_eq_Inr [simp]: "oassert p = Some (Inr u) \<longleftrightarrow> p"
  by (simp add: oassert_def)

lemma obind_mono [partial_function_mono]:
  assumes "mono_option B" and "\<And>y. mono_option (\<lambda>f. C y f)"
  shows "mono_option (\<lambda>f. obind (B f) (\<lambda>y. C y f))"
proof -
  have "mono_option (\<lambda>f. case r of Inl e \<Rightarrow> Some (Inl e) | Inr x \<Rightarrow> C x f)" for r
    using assms(2) by (cases r) (auto intro: option.const_mono)
  then show ?thesis
    unfolding obind_def by (rule bind_mono[OF assms(1)])
qed

section \<open>32-bit unsigned sizes\<close>

text \<open>
  Pintos runs on the 80x86, where \<open>size_t\<close>, \<open>uintptr_t\<close> and \<open>unsigned\<close> have 32 bits. A
  size is a natural number below \<open>2 ^ 32\<close>; the operations reduce modulo \<open>2 ^ 32\<close>.
\<close>

definition SIZE_MAX :: nat where
  "SIZE_MAX = 2 ^ 32 - 1"

definition sz_add :: "nat \<Rightarrow> nat \<Rightarrow> nat" where
  "sz_add a b = (a + b) mod 2 ^ 32"

definition sz_sub :: "nat \<Rightarrow> nat \<Rightarrow> nat" where
  "sz_sub a b = (a + (2 ^ 32 - b mod 2 ^ 32)) mod 2 ^ 32"

definition sz_mul :: "nat \<Rightarrow> nat \<Rightarrow> nat" where
  "sz_mul a b = (a * b) mod 2 ^ 32"

definition ROUND_UP :: "nat \<Rightarrow> nat \<Rightarrow> nat" where
  "ROUND_UP x step = sz_mul (sz_sub (sz_add x step) 1 div step) step"

definition DIV_ROUND_UP :: "nat \<Rightarrow> nat \<Rightarrow> nat" where
  "DIV_ROUND_UP x step = sz_sub (sz_add x step) 1 div step"

definition ROUND_DOWN :: "nat \<Rightarrow> nat \<Rightarrow> nat" where
  "ROUND_DOWN x step = sz_mul (x div step) step"

lemma sz_add_exact [sz_simps]: "a + b < 2 ^ 32 \<Longrightarrow> sz_add a b = a + b"
  by (simp add: sz_add_def)

lemma sz_mul_exact [sz_simps]: "a * b < 2 ^ 32 \<Longrightarrow> sz_mul a b = a * b"
  by (simp add: sz_mul_def)

lemma sz_sub_exact [sz_simps]:
  assumes "b \<le> a" and "a < 2 ^ 32"
  shows "sz_sub a b = a - b"
proof -
  have "sz_sub a b = (a - b + 2 ^ 32) mod 2 ^ 32"
    using assms by (simp add: sz_sub_def)
  also have "\<dots> = (a - b) mod 2 ^ 32"
    by (rule mod_add_self2)
  finally show ?thesis using assms by simp
qed

lemma sz_add_bound [simp]: "sz_add a b < 2 ^ 32"
  by (simp add: sz_add_def)

lemma sz_sub_bound [simp]: "sz_sub a b < 2 ^ 32"
  by (simp add: sz_sub_def)

lemma sz_mul_bound [simp]: "sz_mul a b < 2 ^ 32"
  by (simp add: sz_mul_def)

text \<open>Rounding up is exact as long as the sum with the step does not wrap.\<close>

lemma DIV_ROUND_UP_exact:
  assumes "0 < s" and "x + s < 2 ^ 32"
  shows "DIV_ROUND_UP x s = (x + s - 1) div s"
  using assms by (simp add: DIV_ROUND_UP_def sz_add_exact sz_sub_exact)

lemma DIV_ROUND_UP_ge:
  assumes "0 < s" and "x + s < 2 ^ 32"
  shows "x \<le> DIV_ROUND_UP x s * s"
proof -
  have "(x + s - 1) mod s < s"
    using assms(1) by simp
  moreover have "(x + s - 1) div s * s + (x + s - 1) mod s = x + s - 1"
    by simp
  ultimately have "x \<le> (x + s - 1) div s * s"
    using assms(1) by linarith
  then show ?thesis
    using DIV_ROUND_UP_exact[OF assms] by simp
qed

lemma DIV_ROUND_UP_less:
  assumes "0 < s" and "x + s < 2 ^ 32"
  shows "DIV_ROUND_UP x s * s < x + s"
proof -
  have "(x + s - 1) div s * s \<le> x + s - 1"
    by simp
  then have "(x + s - 1) div s * s < x + s"
    using assms(1) by linarith
  then show ?thesis
    using DIV_ROUND_UP_exact[OF assms] by simp
qed

lemma unat_bound32: "unat (w :: 32 word) < 2 ^ 32"
  using unsigned_less[where ?'a = nat, of w] by simp

end
