(* ===== verification/Bitmap.thy ===== *)
theory Bitmap
  imports Prelude
begin

text \<open>
  The bitmap of \<open>src/lib/kernel/bitmap.c\<close>: an array of 32-bit elements that simulates an array
  of bits, with the operations that create it and set, test and count bits. A bitmap passed by
  reference is a record value, so the \<open>b != NULL\<close> assertions hold by construction. The lemmas
  show that every operation refines the corresponding operation on a list of booleans. The
  searches for a group of bits are in \<open>Bitmap_Scan\<close>.
\<close>

section \<open>Representation\<close>

type_synonym elem_type = "32 word"

definition ELEM_BITS :: nat where
  [simp]: "ELEM_BITS = 32"

definition BITMAP_ERROR :: nat where
  "BITMAP_ERROR = SIZE_MAX"

record bitmap =
  bit_cnt :: nat
  bits :: "elem_type list"

definition elem_idx :: "nat \<Rightarrow> nat" where
  "elem_idx bit_idx = bit_idx div ELEM_BITS"

definition bit_mask :: "nat \<Rightarrow> elem_type" where
  "bit_mask bit_idx = push_bit (bit_idx mod ELEM_BITS) 1"

definition elem_cnt :: "nat \<Rightarrow> nat" where
  "elem_cnt n = DIV_ROUND_UP n ELEM_BITS"

definition byte_cnt :: "nat \<Rightarrow> nat" where
  "byte_cnt n = sz_mul 4 (elem_cnt n)"

definition last_mask :: "bitmap \<Rightarrow> elem_type" where
  "last_mask b =
     (let last_bits = bit_cnt b mod ELEM_BITS
      in if last_bits \<noteq> 0 then push_bit last_bits 1 - 1 else - 1)"

section \<open>Single bits\<close>

definition bitmap_size :: "bitmap \<Rightarrow> nat" where
  "bitmap_size b = bit_cnt b"

definition bitmap_mark :: "bitmap \<Rightarrow> nat \<Rightarrow> bitmap result" where
  "bitmap_mark b bit_idx =
     (let idx = elem_idx bit_idx; mask = bit_mask bit_idx
      in rbind (rget (bits b) idx) (\<lambda>w.
         rbind (rput (bits b) idx (w OR mask)) (\<lambda>ws.
         Inr (b\<lparr>bits := ws\<rparr>))))"

definition bitmap_reset :: "bitmap \<Rightarrow> nat \<Rightarrow> bitmap result" where
  "bitmap_reset b bit_idx =
     (let idx = elem_idx bit_idx; mask = bit_mask bit_idx
      in rbind (rget (bits b) idx) (\<lambda>w.
         rbind (rput (bits b) idx (w AND NOT mask)) (\<lambda>ws.
         Inr (b\<lparr>bits := ws\<rparr>))))"

definition bitmap_flip :: "bitmap \<Rightarrow> nat \<Rightarrow> bitmap result" where
  "bitmap_flip b bit_idx =
     (let idx = elem_idx bit_idx; mask = bit_mask bit_idx
      in rbind (rget (bits b) idx) (\<lambda>w.
         rbind (rput (bits b) idx (w XOR mask)) (\<lambda>ws.
         Inr (b\<lparr>bits := ws\<rparr>))))"

definition bitmap_set :: "bitmap \<Rightarrow> nat \<Rightarrow> bool \<Rightarrow> bitmap result" where
  "bitmap_set b idx value =
     rbind (rassert (idx < bit_cnt b)) (\<lambda>_.
     if value then bitmap_mark b idx else bitmap_reset b idx)"

definition bitmap_test :: "bitmap \<Rightarrow> nat \<Rightarrow> bool result" where
  "bitmap_test b idx =
     rbind (rassert (idx < bit_cnt b)) (\<lambda>_.
     rbind (rget (bits b) (elem_idx idx)) (\<lambda>w.
     Inr (w AND bit_mask idx \<noteq> 0)))"

section \<open>Groups of bits\<close>

definition bitmap_set_multiple :: "bitmap \<Rightarrow> nat \<Rightarrow> nat \<Rightarrow> bool \<Rightarrow> bitmap result" where
  "bitmap_set_multiple b start cnt value =
     rbind (rassert (start \<le> bit_cnt b)) (\<lambda>_.
     rbind (rassert (sz_add start cnt \<le> bit_cnt b)) (\<lambda>_.
     rfor (\<lambda>i b. bitmap_set b (sz_add start i) value) [0..<cnt] b))"

definition bitmap_set_all :: "bitmap \<Rightarrow> bool \<Rightarrow> bitmap result" where
  "bitmap_set_all b value = bitmap_set_multiple b 0 (bitmap_size b) value"

definition bitmap_count :: "bitmap \<Rightarrow> nat \<Rightarrow> nat \<Rightarrow> bool \<Rightarrow> nat result" where
  "bitmap_count b start cnt value =
     rbind (rassert (start \<le> bit_cnt b)) (\<lambda>_.
     rbind (rassert (sz_add start cnt \<le> bit_cnt b)) (\<lambda>_.
     rfor (\<lambda>i value_cnt.
             rbind (bitmap_test b (sz_add start i)) (\<lambda>t.
             Inr (if t = value then Suc value_cnt else value_cnt))) [0..<cnt] 0))"

primrec contains_loop :: "bitmap \<Rightarrow> nat \<Rightarrow> bool \<Rightarrow> nat \<Rightarrow> nat \<Rightarrow> bool result" where
  "contains_loop b start value i 0 = Inr False"
| "contains_loop b start value i (Suc n) =
     rbind (bitmap_test b (sz_add start i)) (\<lambda>t.
     if t = value then Inr True else contains_loop b start value (Suc i) n)"

definition bitmap_contains :: "bitmap \<Rightarrow> nat \<Rightarrow> nat \<Rightarrow> bool \<Rightarrow> bool result" where
  "bitmap_contains b start cnt value =
     rbind (rassert (start \<le> bit_cnt b)) (\<lambda>_.
     rbind (rassert (sz_add start cnt \<le> bit_cnt b)) (\<lambda>_.
     contains_loop b start value 0 cnt))"

definition bitmap_any :: "bitmap \<Rightarrow> nat \<Rightarrow> nat \<Rightarrow> bool result" where
  "bitmap_any b start cnt = bitmap_contains b start cnt True"

definition bitmap_none :: "bitmap \<Rightarrow> nat \<Rightarrow> nat \<Rightarrow> bool result" where
  "bitmap_none b start cnt = rbind (bitmap_contains b start cnt True) (\<lambda>c. Inr (\<not> c))"

definition bitmap_all :: "bitmap \<Rightarrow> nat \<Rightarrow> nat \<Rightarrow> bool result" where
  "bitmap_all b start cnt = rbind (bitmap_contains b start cnt False) (\<lambda>c. Inr (\<not> c))"

section \<open>Creation\<close>

text \<open>
  \<open>malloc\<close> hands out storage with arbitrary contents: \<open>hdr\<close> says whether the call for the
  header succeeded, \<open>raw\<close> is what the call for the elements returned (\<open>None\<close> for a null
  pointer).
\<close>

definition bitmap_create :: "bool \<Rightarrow> elem_type list option \<Rightarrow> nat \<Rightarrow> bitmap option result" where
  "bitmap_create hdr raw n =
     (if hdr then
        (if raw \<noteq> None \<or> n = 0 then
           rbind (bitmap_set_all \<lparr>bit_cnt = n, bits = (case raw of None \<Rightarrow> [] | Some ws \<Rightarrow> ws)\<rparr> False)
             (\<lambda>b. Inr (Some b))
         else Inr None)
      else Inr None)"

definition bitmap_buf_size :: "nat \<Rightarrow> nat" where
  "bitmap_buf_size n = sz_add 8 (byte_cnt n)"

definition bitmap_create_in_buf :: "nat \<Rightarrow> elem_type list \<Rightarrow> nat \<Rightarrow> bitmap result" where
  "bitmap_create_in_buf n block block_size =
     rbind (rassert (bitmap_buf_size n \<le> block_size)) (\<lambda>_.
     bitmap_set_all \<lparr>bit_cnt = n, bits = block\<rparr> False)"

definition bitmap_file_size :: "bitmap \<Rightarrow> nat" where
  "bitmap_file_size b = byte_cnt (bit_cnt b)"

section \<open>Abstraction to a list of booleans\<close>

definition bitmap_wf :: "bitmap \<Rightarrow> bool" where
  "bitmap_wf b \<longleftrightarrow> bit_cnt b < 2 ^ 32 \<and> bit_cnt b \<le> 32 * length (bits b)"

definition bit_at :: "bitmap \<Rightarrow> nat \<Rightarrow> bool" where
  "bit_at b i = bit (bits b ! (i div 32)) (i mod 32)"

definition bits_of :: "bitmap \<Rightarrow> bool list" where
  "bits_of b = map (bit_at b) [0..<bit_cnt b]"

text \<open>\<open>represents b xs\<close>: the well-formed bitmap \<open>b\<close> holds the bits \<open>xs\<close>.\<close>

definition represents :: "bitmap \<Rightarrow> bool list \<Rightarrow> bool" where
  "represents b xs \<longleftrightarrow> bitmap_wf b \<and> bits_of b = xs"

lemma length_bits_of [simp]: "length (bits_of b) = bit_cnt b"
  by (simp add: bits_of_def)

lemma nth_bits_of: "i < bit_cnt b \<Longrightarrow> bits_of b ! i = bit_at b i"
  by (simp add: bits_of_def)

lemma represents_self: "bitmap_wf b \<Longrightarrow> represents b (bits_of b)"
  by (simp add: represents_def)

lemma represents_length: "represents b xs \<Longrightarrow> bit_cnt b = length xs"
  by (auto simp: represents_def)

lemma represents_bound: "represents b xs \<Longrightarrow> length xs < 2 ^ 32"
  by (auto simp: represents_def bitmap_wf_def)

lemma represents_unique: "represents b xs \<Longrightarrow> represents b ys \<Longrightarrow> xs = ys"
  by (simp add: represents_def)

section \<open>Masks\<close>

lemma and_bit_mask: "(w AND bit_mask i \<noteq> 0) = bit w (i mod 32)"
  for w :: elem_type
proof -
  have "w AND bit_mask i = (if bit w (i mod 32) then bit_mask i else 0)"
    by (rule bit_word_eqI) (auto simp: bit_mask_def bit_simps)
  moreover have "bit (bit_mask i) (i mod 32)"
    by (simp add: bit_mask_def bit_simps)
  ultimately show ?thesis by (metis bit_0_eq bot_apply bot_bool_def)
qed

lemma bit_masks:
  fixes w :: elem_type
  assumes "k < 32"
  shows "bit (w OR bit_mask i) k = (if k = i mod 32 then True else bit w k)"
    and "bit (w AND NOT (bit_mask i)) k = (if k = i mod 32 then False else bit w k)"
    and "bit (w XOR bit_mask i) k = (if k = i mod 32 then \<not> bit w k else bit w k)"
  using assms by (auto simp: bit_mask_def bit_simps)

lemma same_bit_iff: "i div 32 = k div 32 \<and> i mod 32 = k mod 32 \<longleftrightarrow> i = (k::nat)"
  by (metis div_mod_decomp)

text \<open>Writing one element through a mask changes one bit of the abstraction.\<close>

lemma represents_element_update:
  assumes rep: "represents b xs" and i: "i < length xs"
    and w: "\<And>k. k < 32 \<Longrightarrow> bit w k = (if k = i mod 32 then v else bit (bits b ! (i div 32)) k)"
  shows "i div 32 < length (bits b)"
    and "represents (b\<lparr>bits := (bits b)[i div 32 := w]\<rparr>) (xs[i := v])"
proof -
  have wf: "bitmap_wf b" and xs: "xs = bits_of b"
    using rep by (auto simp: represents_def)
  show len: "i div 32 < length (bits b)"
    using wf i xs by (auto simp: bitmap_wf_def)
  let ?b = "b\<lparr>bits := (bits b)[i div 32 := w]\<rparr>"
  have "bit_at ?b k = (if k = i then v else bit_at b k)" for k
    using len w same_bit_iff[of k i] by (cases "k div 32 = i div 32") (auto simp: bit_at_def)
  then have "bits_of ?b = (bits_of b)[i := v]"
    by (auto simp: list_eq_iff_nth_eq nth_list_update nth_bits_of)
  then show "represents ?b (xs[i := v])"
    using wf xs by (simp add: represents_def bitmap_wf_def)
qed

section \<open>Single bits\<close>

lemma bitmap_test_ok:
  assumes "represents b xs" and "i < length xs"
  shows "bitmap_test b i = Inr (xs ! i)"
proof -
  have "i div 32 < length (bits b)" and "i < bit_cnt b" and "xs = bits_of b"
    using assms by (auto simp: represents_def bitmap_wf_def)
  then show ?thesis
    by (simp add: bitmap_test_def elem_idx_def and_bit_mask nth_bits_of bit_at_def)
qed

lemma bitmap_test_out: "bit_cnt b \<le> i \<Longrightarrow> bitmap_test b i = Inl Assert_fail"
  by (simp add: bitmap_test_def)

lemma bitmap_mark_ok:
  assumes "represents b xs" and "i < length xs"
  shows "\<exists>b'. bitmap_mark b i = Inr b' \<and> represents b' (xs[i := True])"
proof -
  note upd = represents_element_update[OF assms, of "bits b ! (i div 32) OR bit_mask i" True]
  show ?thesis
    using upd by (simp add: bit_masks bitmap_mark_def elem_idx_def Let_def)
qed

lemma bitmap_reset_ok:
  assumes "represents b xs" and "i < length xs"
  shows "\<exists>b'. bitmap_reset b i = Inr b' \<and> represents b' (xs[i := False])"
proof -
  note upd = represents_element_update[OF assms, of "bits b ! (i div 32) AND NOT (bit_mask i)" False]
  show ?thesis
    using upd by (simp add: bit_masks bitmap_reset_def elem_idx_def Let_def)
qed

lemma bitmap_flip_ok:
  assumes "represents b xs" and "i < length xs"
  shows "\<exists>b'. bitmap_flip b i = Inr b' \<and> represents b' (xs[i := \<not> xs ! i])"
proof -
  have "xs ! i = bit (bits b ! (i div 32)) (i mod 32)"
    using assms by (auto simp: represents_def nth_bits_of bit_at_def)
  moreover note upd = represents_element_update[OF assms, of "bits b ! (i div 32) XOR bit_mask i" "\<not> xs ! i"]
  ultimately show ?thesis
    by (simp add: bit_masks bitmap_flip_def elem_idx_def Let_def)
qed

lemma bitmap_set_ok:
  assumes "represents b xs" and "i < length xs"
  shows "\<exists>b'. bitmap_set b i v = Inr b' \<and> represents b' (xs[i := v])"
  using bitmap_mark_ok[OF assms] bitmap_reset_ok[OF assms] represents_length[OF assms(1)] assms(2)
  by (cases v) (auto simp: bitmap_set_def)

section \<open>Groups of bits\<close>

text \<open>\<open>set_range xs s n v\<close>: the bits \<open>s\<close>, \dots, \<open>s + n - 1\<close> of \<open>xs\<close> become \<open>v\<close>.\<close>

definition set_range :: "bool list \<Rightarrow> nat \<Rightarrow> nat \<Rightarrow> bool \<Rightarrow> bool list" where
  "set_range xs s n v = map (\<lambda>i. if s \<le> i \<and> i < s + n then v else xs ! i) [0..<length xs]"

text \<open>\<open>group xs s n v\<close>: there are \<open>n\<close> consecutive bits at \<open>s\<close>, all equal to \<open>v\<close>.\<close>

definition group :: "bool list \<Rightarrow> nat \<Rightarrow> nat \<Rightarrow> bool \<Rightarrow> bool" where
  "group xs s n v \<longleftrightarrow> s + n \<le> length xs \<and> (\<forall>i<n. xs ! (s + i) = v)"

lemma length_set_range [simp]: "length (set_range xs s n v) = length xs"
  by (simp add: set_range_def)

lemma nth_set_range:
  "i < length xs \<Longrightarrow> set_range xs s n v ! i = (if s \<le> i \<and> i < s + n then v else xs ! i)"
  by (simp add: set_range_def)

lemma set_range_0 [simp]: "set_range xs s 0 v = xs"
  by (auto simp: list_eq_iff_nth_eq nth_set_range)

lemma set_range_Suc: "s + n < length xs \<Longrightarrow> set_range xs s (Suc n) v = (set_range xs s n v)[s + n := v]"
  by (auto simp: list_eq_iff_nth_eq nth_set_range nth_list_update)

lemma group_set_range: "s + n \<le> length xs \<Longrightarrow> group (set_range xs s n v) s n v"
  by (auto simp: group_def nth_set_range)

lemma group_disjoint_set_range:
  assumes "group (set_range xs s n (\<not> v)) t m v" and "s + n \<le> length xs"
  shows "group xs t m v" and "t + m \<le> s \<or> s + n \<le> t \<or> m = 0 \<or> n = 0"
proof -
  have len: "t + m \<le> length xs" and bits: "\<And>i. i < m \<Longrightarrow> set_range xs s n (\<not> v) ! (t + i) = v"
    using assms(1) by (auto simp: group_def)
  have out: "\<not> (s \<le> t + i \<and> t + i < s + n) \<and> xs ! (t + i) = v" if "i < m" for i
    using bits[OF that] len that by (auto simp: nth_set_range split: if_splits)
  then show "group xs t m v" using len by (simp add: group_def)
  show "t + m \<le> s \<or> s + n \<le> t \<or> m = 0 \<or> n = 0"
  proof (rule ccontr)
    assume "\<not> ?thesis"
    then have "t \<le> max s t" "max s t - t < m" "s \<le> max s t" "max s t < s + n" by auto
    with out[of "max s t - t"] show False by simp
  qed
qed

lemma set_range_undo:
  assumes "group xs s n v"
  shows "set_range (set_range xs s n (\<not> v)) s n v = xs"
proof (rule nth_equalityI)
  fix i assume "i < length (set_range (set_range xs s n (\<not> v)) s n v)"
  moreover have "xs ! i = v" if "s \<le> i" "i < s + n"
    using assms that by (metis add_diff_inverse_nat add_less_cancel_left group_def not_less)
  ultimately show "set_range (set_range xs s n (\<not> v)) s n v ! i = xs ! i"
    by (auto simp: nth_set_range)
qed simp

lemma bitmap_set_multiple_ok:
  assumes rep: "represents b xs" and len: "s + n \<le> length xs"
  shows "\<exists>b'. bitmap_set_multiple b s n v = Inr b' \<and> represents b' (set_range xs s n v)"
proof -
  have bound: "length xs < 2 ^ 32" by (rule represents_bound[OF rep])
  have "\<exists>b'. rfor (\<lambda>i b. bitmap_set b (sz_add s i) v) [0..<n] b = Inr b'
      \<and> represents b' (set_range xs s n v)"
  proof (rule rfor_upt_rule[where P = "\<lambda>i b. represents b (set_range xs s i v)"])
    show "represents b (set_range xs s 0 v)" using rep by simp
    fix i t assume i: "i < n" and t: "represents t (set_range xs s i v)"
    have "sz_add s i = s + i" using i len bound by (simp add: sz_add_exact)
    then show "\<exists>t'. bitmap_set t (sz_add s i) v = Inr t' \<and> represents t' (set_range xs s (Suc i) v)"
      using bitmap_set_ok[OF t, of "s + i" v] i len by (simp add: set_range_Suc)
  qed
  then show ?thesis
    using represents_length[OF rep] len bound by (simp add: bitmap_set_multiple_def sz_add_exact)
qed

lemma set_range_all: "set_range xs 0 (length xs) v = replicate (length xs) v"
  by (auto simp: list_eq_iff_nth_eq nth_set_range)

lemma bitmap_set_all_ok:
  assumes "bitmap_wf b"
  shows "\<exists>b'. bitmap_set_all b v = Inr b' \<and> represents b' (replicate (bit_cnt b) v)"
  using bitmap_set_multiple_ok[OF represents_self[OF assms], of 0 "bit_cnt b" v]
    set_range_all[of "bits_of b" v]
  by (simp add: bitmap_set_all_def bitmap_size_def)

lemma bitmap_count_ok:
  assumes rep: "represents b xs" and len: "s + n \<le> length xs"
  shows "bitmap_count b s n v = Inr (card {i. i < n \<and> xs ! (s + i) = v})"
proof -
  have bound: "length xs < 2 ^ 32" by (rule represents_bound[OF rep])
  let ?f = "\<lambda>i value_cnt. rbind (bitmap_test b (sz_add s i))
      (\<lambda>t. Inr (if t = v then Suc value_cnt else value_cnt))"
  have "\<exists>c. rfor ?f [0..<n] 0 = Inr c \<and> c = card {i. i < n \<and> xs ! (s + i) = v}"
  proof (rule rfor_upt_rule[where P = "\<lambda>k c. c = card {i. i < k \<and> xs ! (s + i) = v}"])
    fix k c assume k: "k < n" and c: "c = card {i. i < k \<and> xs ! (s + i) = v}"
    have "{i. i < Suc k \<and> xs ! (s + i) = v}
        = (if xs ! (s + k) = v then insert k {i. i < k \<and> xs ! (s + i) = v} else {i. i < k \<and> xs ! (s + i) = v})"
      by (auto simp: less_Suc_eq)
    then show "\<exists>t'. ?f k c = Inr t' \<and> t' = card {i. i < Suc k \<and> xs ! (s + i) = v}"
      using k c len bound by (simp add: sz_add_exact bitmap_test_ok[OF rep])
  qed simp
  then show ?thesis
    using represents_length[OF rep] len bound by (simp add: bitmap_count_def sz_add_exact)
qed

lemma contains_loop_ok:
  assumes "represents b xs" and "s + (k + n) \<le> length xs"
  shows "contains_loop b s v k n = Inr (\<exists>i. k \<le> i \<and> i < k + n \<and> xs ! (s + i) = v)"
  using assms(2)
proof (induction n arbitrary: k)
  case 0
  then show ?case by simp
next
  case (Suc n)
  have "sz_add s k = s + k"
    using Suc.prems represents_bound[OF assms(1)] by (simp add: sz_add_exact)
  moreover have "s + k < length xs" using Suc.prems by simp
  ultimately have "bitmap_test b (sz_add s k) = Inr (xs ! (s + k))"
    by (simp add: bitmap_test_ok[OF assms(1)])
  moreover have "(\<exists>i. k \<le> i \<and> i < k + Suc n \<and> xs ! (s + i) = v)
      = (xs ! (s + k) = v \<or> (\<exists>i. Suc k \<le> i \<and> i < Suc k + n \<and> xs ! (s + i) = v))"
    by (auto simp: Suc_le_eq order.order_iff_strict[of k])
  ultimately show ?case using Suc.IH[of "Suc k"] Suc.prems by simp
qed

lemma bitmap_contains_ok:
  assumes "represents b xs" and "s + n \<le> length xs"
  shows "bitmap_contains b s n v = Inr (\<not> group xs s n (\<not> v))"
  using contains_loop_ok[OF assms(1), of s 0 n v] represents_length[OF assms(1)]
    represents_bound[OF assms(1)] assms(2)
  by (auto simp: bitmap_contains_def sz_add_exact group_def)

lemma bitmap_contains_past_end:
  "s \<le> bit_cnt b \<Longrightarrow> bit_cnt b < s + n \<Longrightarrow> s + n < 2 ^ 32 \<Longrightarrow> bitmap_contains b s n v = Inl Assert_fail"
  by (simp add: bitmap_contains_def sz_add_exact)

lemma bitmap_all_ok:
  "represents b xs \<Longrightarrow> s + n \<le> length xs \<Longrightarrow> bitmap_all b s n = Inr (group xs s n True)"
  by (simp add: bitmap_all_def bitmap_contains_ok)

lemma bitmap_none_ok:
  "represents b xs \<Longrightarrow> s + n \<le> length xs \<Longrightarrow> bitmap_none b s n = Inr (group xs s n False)"
  by (simp add: bitmap_none_def bitmap_contains_ok)

lemma bitmap_any_ok:
  "represents b xs \<Longrightarrow> s + n \<le> length xs \<Longrightarrow> bitmap_any b s n = Inr (\<not> group xs s n False)"
  by (simp add: bitmap_any_def bitmap_contains_ok)

section \<open>Creation\<close>

lemma elem_cnt_enough: "n + 32 < 2 ^ 32 \<Longrightarrow> n \<le> 32 * elem_cnt n"
  using DIV_ROUND_UP_ge[of 32 n] by (simp add: elem_cnt_def)

lemma byte_cnt_exact: "n + 32 < 2 ^ 32 \<Longrightarrow> byte_cnt n = 4 * elem_cnt n"
  using DIV_ROUND_UP_less[of 32 n] by (simp add: byte_cnt_def elem_cnt_def sz_mul_exact)

lemma bitmap_create_ok:
  assumes "n < 2 ^ 32" and "n \<le> 32 * length ws"
  shows "\<exists>b. bitmap_create True (Some ws) n = Inr (Some b) \<and> represents b (replicate n False)"
  using bitmap_set_all_ok[of "\<lparr>bit_cnt = n, bits = ws\<rparr>" False] assms
  by (auto simp: bitmap_create_def bitmap_wf_def)

lemma bitmap_create_null: "0 < n \<Longrightarrow> bitmap_create hdr None n = Inr None"
  by (simp add: bitmap_create_def)

lemma bitmap_create_in_buf_ok:
  assumes "n < 2 ^ 32" and "n \<le> 32 * length ws" and "bitmap_buf_size n \<le> block_size"
  shows "\<exists>b. bitmap_create_in_buf n ws block_size = Inr b \<and> represents b (replicate n False)"
  using bitmap_set_all_ok[of "\<lparr>bit_cnt = n, bits = ws\<rparr>" False] assms
  by (auto simp: bitmap_create_in_buf_def bitmap_wf_def)

end
