(* ===== verification/Bitmap_Scan.thy ===== *)
theory Bitmap_Scan
  imports Bitmap
begin

text \<open>
  \<open>bitmap_scan\<close> and \<open>bitmap_scan_and_flip\<close> of \<open>src/lib/kernel/bitmap.c\<close>: the four placement
  policies (first fit, next fit, best fit, buddy system) with the static variables they keep
  between calls. Console output is left out.
\<close>

section \<open>Finding groups of bits\<close>

datatype selector = FIRST_FIT | NEXT_FIT | BEST_FIT | BUDDY_SYSTEM

text \<open>The global \<open>Select\<close> and the static variables of \<open>bitmap_scan\<close>.\<close>

record scan_state =
  Select :: selector
  lastestAlloc :: nat
  check_cnt :: nat
  check_size :: nat

definition scan_state_init :: "selector \<Rightarrow> scan_state" where
  "scan_state_init sel = \<lparr>Select = sel, lastestAlloc = 0, check_cnt = 0, check_size = 0\<rparr>"

text \<open>
  The loop \<open>for (i = start; i <= last; i++)\<close> of first fit and next fit. The index does not
  wrap: \<open>last\<close> is \<open>SIZE_MAX\<close> only if \<open>cnt\<close> is 0, and then the first iteration returns.
\<close>

function scan_loop :: "bitmap \<Rightarrow> nat \<Rightarrow> nat \<Rightarrow> bool \<Rightarrow> nat \<Rightarrow> nat option result" where
  "scan_loop b last_i cnt value i =
     (if i \<le> last_i then
        rbind (bitmap_contains b i cnt (\<not> value)) (\<lambda>c.
        if \<not> c then Inr (Some i) else scan_loop b last_i cnt value (Suc i))
      else Inr None)"
  by pat_completeness auto
termination
  by (relation "measure (\<lambda>(b, last_i, cnt, value, i). Suc last_i - i)") auto

declare scan_loop.simps [simp del]

subsection \<open>Best fit\<close>

text \<open>The inner loop: the end of the run of free bits, or \<open>last + 1\<close>.\<close>

function run_end :: "bitmap \<Rightarrow> nat \<Rightarrow> nat \<Rightarrow> nat result" where
  "run_end b last_i i =
     (let i = Suc i
      in if i > last_i then Inr i
         else rbind (bitmap_test b i) (\<lambda>t.
              if t then Inr i else run_end b last_i i))"
  by pat_completeness auto
termination
  by (relation "measure (\<lambda>(b, last_i, i). Suc last_i - i)") auto

declare run_end.simps [simp del]

lemma run_end_progress: "run_end b last_i i = Inr j \<Longrightarrow> i < j"
proof (induction b last_i i rule: run_end.induct)
  case (1 b last_i i)
  then show ?case
    by (subst (asm) run_end.simps)
       (fastforce simp: Let_def split: if_splits dest: Suc_lessD)
qed

function best_loop :: "bitmap \<Rightarrow> nat \<Rightarrow> nat \<Rightarrow> nat \<Rightarrow> nat \<Rightarrow> nat \<Rightarrow> nat result" where
  "best_loop b last_i cnt i bestPageIdx bestPageSize =
     (if i > last_i then
        (if bestPageIdx = SIZE_MAX then Inr BITMAP_ERROR else Inr bestPageIdx)
      else
        rbind (bitmap_test b i) (\<lambda>t.
        if \<not> t then
          (let temp_idx = i
           in rbind (run_end b last_i i) (\<lambda>i.
              rbind (bitmap_count b temp_idx (sz_sub i temp_idx) False) (\<lambda>temp_size.
              if cnt \<le> temp_size then
                (if bestPageSize = 0 then best_loop b last_i cnt i temp_idx temp_size
                 else if sz_sub bestPageSize cnt > sz_sub temp_size cnt
                 then best_loop b last_i cnt i temp_idx temp_size
                 else best_loop b last_i cnt i bestPageIdx bestPageSize)
              else best_loop b last_i cnt i bestPageIdx bestPageSize)))
        else best_loop b last_i cnt (Suc i) bestPageIdx bestPageSize))"
  by pat_completeness auto
termination
  by (relation "measure (\<lambda>(b, last_i, cnt, i, _, _). Suc last_i - i)")
     (auto dest!: run_end_progress)

declare best_loop.simps [simp del]

subsection \<open>Buddy system\<close>

text \<open>
  The loop that measures a run of allocated bits. \<open>Inr None\<close> is its early
  \<open>return BITMAP_ERROR\<close>.
\<close>

function buddy_span :: "bitmap \<Rightarrow> nat \<Rightarrow> nat \<Rightarrow> nat \<Rightarrow> nat option result" where
  "buddy_span b limit j offset =
     (if j \<ge> limit then Inr None
      else rbind (bitmap_test b j) (\<lambda>t.
           if t then buddy_span b limit (Suc j) (sz_add offset 1) else Inr (Some offset)))"
  by pat_completeness auto
termination
  by (relation "measure (\<lambda>(b, limit, j, offset). limit - j)") auto

declare buddy_span.simps [simp del]

text \<open>The ladder of comparisons below 256.\<close>

definition buddy_round :: "nat \<Rightarrow> nat" where
  "buddy_round offset =
     (if offset > 128 then 256 else if offset > 64 then 128 else if offset > 32 then 64
      else if offset > 16 then 32 else if offset > 8 then 16 else if offset > 4 then 8
      else if offset > 2 then 4 else if offset > 1 then 2 else if offset > 0 then 1
      else offset)"

text \<open>
  The search for a block of \<open>bound * 2\<close> bits, with \<open>limit\<close> the value of
  \<open>max + check_size\<close>. \<open>None\<close> means that the loop does not end. A run of more than 256
  allocated bits makes the C code \<open>return NULL\<close>, that is 0.
\<close>

partial_function (option) buddy_inner ::
    "bitmap \<Rightarrow> nat \<Rightarrow> nat \<Rightarrow> bool \<Rightarrow> nat \<Rightarrow> nat \<Rightarrow> nat result option" where
  "buddy_inner b bound limit value i offset =
     (if i \<ge> limit then Some (Inr BITMAP_ERROR)
      else case bitmap_test b i of
        Inl e \<Rightarrow> Some (Inl e)
      | Inr t \<Rightarrow>
         (if t then
            (case buddy_span b limit i offset of
               Inl e \<Rightarrow> Some (Inl e)
             | Inr None \<Rightarrow> Some (Inr BITMAP_ERROR)
             | Inr (Some offset) \<Rightarrow>
                (if offset > 256 then Some (Inr 0)
                 else if buddy_round offset > sz_mul bound 2
                 then buddy_inner b bound limit value (sz_add i (buddy_round offset)) (buddy_round offset)
                 else buddy_inner b bound limit value (sz_add i (sz_mul bound 2)) (buddy_round offset)))
          else if bound \<noteq> 0 then
            (case bitmap_contains b i (sz_mul bound 2) (\<not> value) of
               Inl e \<Rightarrow> Some (Inl e)
             | Inr c \<Rightarrow>
                (if \<not> c then Some (Inr i)
                 else buddy_inner b bound limit value (sz_add i (sz_mul bound 2)) offset))
          else
            (case bitmap_test b i of
               Inl e \<Rightarrow> Some (Inl e)
             | Inr t \<Rightarrow>
                (if \<not> t then Some (Inr i)
                 else buddy_inner b bound limit value (sz_add i 1) offset))))"

partial_function (option) buddy_outer ::
    "bitmap \<Rightarrow> nat \<Rightarrow> nat \<Rightarrow> bool \<Rightarrow> nat \<Rightarrow> nat result option" where
  "buddy_outer b cnt limit value bound =
     (if cnt > bound div 2 then buddy_inner b (bound div 2) limit value 0 0
      else buddy_outer b cnt limit value (bound div 2))"

definition buddy_scan :: "bitmap \<Rightarrow> nat \<Rightarrow> nat \<Rightarrow> bool \<Rightarrow> nat result option" where
  "buddy_scan b chk cnt value =
     (if cnt > 512 then Some (Inr BITMAP_ERROR)
      else buddy_outer b cnt (sz_add 512 chk) value 512)"

subsection \<open>The scan\<close>

definition enter_scan :: "nat \<Rightarrow> scan_state \<Rightarrow> scan_state" where
  "enter_scan cnt st =
     (if check_cnt st < 3 then st\<lparr>check_size := sz_add (check_size st) cnt\<rparr> else st)"

definition next_fit :: "scan_state \<Rightarrow> bitmap \<Rightarrow> nat \<Rightarrow> nat \<Rightarrow> bool \<Rightarrow> (nat \<times> scan_state) result" where
  "next_fit st b start cnt value =
     rbind (scan_loop b (sz_sub (bit_cnt b) cnt) cnt value (lastestAlloc st)) (\<lambda>r.
     case r of
       Some i \<Rightarrow> Inr (i, st\<lparr>lastestAlloc := i\<rparr>)
     | None \<Rightarrow>
        rbind (scan_loop b (lastestAlloc st) cnt value start) (\<lambda>r.
        case r of
          Some i \<Rightarrow> Inr (i, st\<lparr>lastestAlloc := i\<rparr>)
        | None \<Rightarrow> Inr (BITMAP_ERROR, st)))"

definition bitmap_scan ::
    "scan_state \<Rightarrow> bitmap \<Rightarrow> nat \<Rightarrow> nat \<Rightarrow> bool \<Rightarrow> (nat \<times> scan_state) result option" where
  "bitmap_scan st0 b start cnt value =
     (if \<not> start \<le> bit_cnt b then Some (Inl Assert_fail)
      else
        let st = enter_scan cnt st0
        in if cnt \<le> bit_cnt b then
             (let last_i = sz_sub (bit_cnt b) cnt
              in case Select st of
                   FIRST_FIT \<Rightarrow>
                     Some (rbind (scan_loop b last_i cnt value start) (\<lambda>r.
                           Inr (case r of Some i \<Rightarrow> i | None \<Rightarrow> BITMAP_ERROR, st)))
                 | NEXT_FIT \<Rightarrow> Some (next_fit st b start cnt value)
                 | BEST_FIT \<Rightarrow>
                     Some (rbind (best_loop b last_i cnt start SIZE_MAX 0) (\<lambda>i. Inr (i, st)))
                 | BUDDY_SYSTEM \<Rightarrow>
                     map_option (\<lambda>r. rbind r (\<lambda>i. Inr (i, st)))
                       (buddy_scan b (check_size st) cnt value))
           else Some (Inr (BITMAP_ERROR, st)))"

text \<open>The trailing loop that prints every bit calls \<open>bitmap_contains\<close> and keeps the state.\<close>

definition print_bits :: "bitmap \<Rightarrow> unit result" where
  "print_bits b = rfor (\<lambda>i u. rbind (bitmap_contains b i 1 True) (\<lambda>_. Inr u)) [0..<bit_cnt b] ()"

definition bitmap_scan_and_flip ::
    "scan_state \<Rightarrow> bitmap \<Rightarrow> nat \<Rightarrow> nat \<Rightarrow> bool \<Rightarrow> (nat \<times> bitmap \<times> scan_state) result option" where
  "bitmap_scan_and_flip st b start cnt value =
     map_option (\<lambda>r. rbind r (\<lambda>(idx, st).
       rbind (if idx \<noteq> BITMAP_ERROR then bitmap_set_multiple b idx cnt (\<not> value) else Inr b) (\<lambda>b.
       rbind (print_bits b) (\<lambda>_. Inr (idx, b, st)))))
       (bitmap_scan st b start cnt value)"

section \<open>First fit and next fit\<close>

lemma scan_loop_ok:
  assumes rep: "represents b xs" and len: "hi + cnt \<le> length xs"
  shows "scan_loop b hi cnt v i = Inr (find (\<lambda>k. group xs k cnt v) [i..<Suc hi])"
proof (induction "Suc hi - i" arbitrary: i)
  case 0
  then show ?case by (simp add: scan_loop.simps)
next
  case (Suc n)
  then have i: "i \<le> hi" by simp
  then have "bitmap_contains b i cnt (\<not> v) = Inr (\<not> group xs i cnt v)"
    using bitmap_contains_ok[OF rep, of i cnt "\<not> v"] len by simp
  moreover have "[i..<Suc hi] = i # [Suc i..<Suc hi]"
    using i by (simp only: upt_conv_Cons less_Suc_eq_le)
  ultimately show ?case
    using Suc.hyps(1)[of "Suc i"] Suc.hyps(2) i by (simp add: scan_loop.simps[of b hi cnt v i])
qed

text \<open>What a search from \<open>lo\<close> may return: the least group, or nothing if there is none.\<close>

lemma find_upt_SomeD:
  assumes "find P [lo..<hi] = Some k"
  shows "lo \<le> k" and "k < hi" and "P k" and "\<And>j. lo \<le> j \<Longrightarrow> j < k \<Longrightarrow> \<not> P j"
  using assms by (auto simp: find_Some_iff) (metis add_diff_inverse_nat add_less_cancel_left not_less)

lemma find_upt_NoneD: "find P [lo..<hi] = None \<Longrightarrow> lo \<le> j \<Longrightarrow> j < hi \<Longrightarrow> \<not> P j"
  by (auto simp: find_None_iff)

lemma group_hi: "group xs k cnt v \<Longrightarrow> k < Suc (length xs - cnt)"
  by (auto simp: group_def)

definition first_group :: "bool list \<Rightarrow> nat \<Rightarrow> nat \<Rightarrow> bool \<Rightarrow> nat option" where
  "first_group xs lo cnt v = find (\<lambda>k. group xs k cnt v) [lo..<Suc (length xs - cnt)]"

lemma first_group_SomeD:
  assumes "first_group xs lo cnt v = Some k"
  shows "lo \<le> k" and "group xs k cnt v" and "\<And>j. lo \<le> j \<Longrightarrow> j < k \<Longrightarrow> \<not> group xs j cnt v"
  using find_upt_SomeD[OF assms[unfolded first_group_def]] by blast+

lemma first_group_None_iff: "first_group xs lo cnt v = None \<longleftrightarrow> (\<forall>k\<ge>lo. \<not> group xs k cnt v)"
  unfolding first_group_def find_None_iff using group_hi by fastforce

lemma scan_last:
  "represents b xs \<Longrightarrow> cnt \<le> length xs \<Longrightarrow> sz_sub (bit_cnt b) cnt = length xs - cnt"
  using represents_length[of b xs] represents_bound[of b xs] by (simp add: sz_sub_exact)

lemma scan_loop_first_group:
  assumes "represents b xs" and "cnt \<le> length xs"
  shows "scan_loop b (sz_sub (bit_cnt b) cnt) cnt v i = Inr (first_group xs i cnt v)"
  using assms by (simp add: scan_last scan_loop_ok first_group_def del: upt_Suc)

lemma enter_scan_select [simp]: "Select (enter_scan cnt st) = Select st"
  by (simp add: enter_scan_def)

lemma enter_scan_lastestAlloc [simp]: "lastestAlloc (enter_scan cnt st) = lastestAlloc st"
  by (simp add: enter_scan_def)

lemma first_fit_scan:
  assumes "represents b xs" and "start \<le> length xs" and "Select st = FIRST_FIT"
  shows "bitmap_scan st b start cnt v =
    Some (Inr (case first_group xs start cnt v of Some k \<Rightarrow> k | None \<Rightarrow> BITMAP_ERROR, enter_scan cnt st))"
proof (cases "cnt \<le> length xs")
  case True
  then show ?thesis
    using assms represents_length[OF assms(1)] scan_loop_first_group[OF assms(1) True, of v start]
    by (simp add: bitmap_scan_def Let_def)
next
  case False
  then have "first_group xs start cnt v = None"
    by (auto simp: first_group_None_iff group_def)
  then show ?thesis
    using assms False represents_length[OF assms(1)] by (simp add: bitmap_scan_def Let_def)
qed

text \<open>
  Next fit starts at the last position it returned and wraps around to \<open>start\<close>. Its second
  loop runs up to that position, so it stays inside the bitmap only if a group of \<open>cnt\<close> bits
  fits there.
\<close>

lemma next_fit_ok:
  assumes rep: "represents b xs" and cnt: "cnt \<le> length xs" and fits: "lastestAlloc st + cnt \<le> length xs"
  shows "next_fit st b start cnt v =
    (case first_group xs (lastestAlloc st) cnt v of
       Some k \<Rightarrow> Inr (k, st\<lparr>lastestAlloc := k\<rparr>)
     | None \<Rightarrow>
        (case find (\<lambda>k. group xs k cnt v) [start..<Suc (lastestAlloc st)] of
           Some k \<Rightarrow> Inr (k, st\<lparr>lastestAlloc := k\<rparr>)
         | None \<Rightarrow> Inr (BITMAP_ERROR, st)))"
  using scan_loop_first_group[OF rep cnt] scan_loop_ok[OF rep fits]
  by (auto simp: next_fit_def split: option.splits simp del: upt_Suc)

text \<open>With \<open>start = 0\<close> the two loops together look at every position.\<close>

lemma next_fit_complete:
  assumes "first_group xs l cnt v = None" and "find (\<lambda>k. group xs k cnt v) [0..<Suc l] = None"
  shows "\<not> group xs k cnt v"
proof (cases "k < Suc l")
  case True
  then show ?thesis using find_upt_NoneD[OF assms(2)] by simp
next
  case False
  then show ?thesis using assms(1) by (simp add: first_group_None_iff)
qed



section \<open>Best fit\<close>

text \<open>
  \<open>free_run xs lo hi k e\<close>: \<open>k\<close>, \dots, \<open>e - 1\<close> is a maximal run of clear bits among the
  positions \<open>lo\<close>, \dots, \<open>hi\<close>. The code cuts a run at \<open>hi\<close>, the last position at which a
  group of \<open>cnt\<close> bits could start.
\<close>

definition free_run :: "bool list \<Rightarrow> nat \<Rightarrow> nat \<Rightarrow> nat \<Rightarrow> nat \<Rightarrow> bool" where
  "free_run xs lo hi k e \<longleftrightarrow>
     lo \<le> k \<and> k < e \<and> e \<le> Suc hi \<and> (\<forall>j. k \<le> j \<and> j < e \<longrightarrow> \<not> xs ! j)
     \<and> (e \<le> hi \<longrightarrow> xs ! e) \<and> (k = lo \<or> xs ! (k - 1))"

lemma run_end_ok:
  assumes rep: "represents b xs" and hi: "hi < length xs" and i: "i \<le> hi"
  shows "\<exists>e. run_end b hi i = Inr e \<and> i < e \<and> e \<le> Suc hi \<and> (\<forall>j. i < j \<and> j < e \<longrightarrow> \<not> xs ! j)
    \<and> (e \<le> hi \<longrightarrow> xs ! e)"
  using i
proof (induction "hi - i" arbitrary: i)
  case 0
  then have "i = hi" by simp
  moreover have "run_end b hi hi = Inr (Suc hi)" by (simp add: run_end.simps[of b hi hi])
  ultimately show ?case by auto
next
  case (Suc n)
  then have i: "Suc i \<le> hi" by simp
  then have t: "bitmap_test b (Suc i) = Inr (xs ! Suc i)"
    using bitmap_test_ok[OF rep] hi by simp
  show ?case
  proof (cases "xs ! Suc i")
    case True
    then show ?thesis using t i by (auto simp: run_end.simps[of b hi i])
  next
    case False
    have "n = hi - Suc i" using Suc.hyps(2) by simp
    from Suc.hyps(1)[OF this i] obtain e where
      "run_end b hi (Suc i) = Inr e" "Suc i < e" "e \<le> Suc hi" 
      "\<forall>j. Suc i < j \<and> j < e \<longrightarrow> \<not> xs ! j" "e \<le> hi \<longrightarrow> xs ! e"
      by blast
    moreover from this False have "\<forall>j. i < j \<and> j < e \<longrightarrow> \<not> xs ! j"
      by (metis Suc_lessI)
    ultimately show ?thesis
      using t i False by (auto simp: run_end.simps[of b hi i])
  qed
qed

text \<open>What is known of the best run among those that start before position \<open>i\<close>.\<close>

definition best_so_far :: "bool list \<Rightarrow> nat \<Rightarrow> nat \<Rightarrow> nat \<Rightarrow> nat \<Rightarrow> nat \<Rightarrow> nat \<Rightarrow> bool" where
  "best_so_far xs lo hi cnt i idx sz \<longleftrightarrow>
     (if sz = 0 then idx = SIZE_MAX \<and> (\<forall>k e. free_run xs lo hi k e \<and> k < i \<longrightarrow> e - k < cnt)
      else free_run xs lo hi idx (idx + sz) \<and> cnt \<le> sz
        \<and> (\<forall>k e. free_run xs lo hi k e \<and> k < i \<and> cnt \<le> e - k \<longrightarrow> sz \<le> e - k))"

lemma free_run_not_less:
  assumes "free_run xs lo hi k e" and "free_run xs lo hi k e'"
  shows "\<not> e < e'"
proof
  assume "e < e'"
  then have "xs ! e" and "\<not> xs ! e"
    using assms by (auto simp: free_run_def)
  then show False by simp
qed

lemma free_run_unique: "free_run xs lo hi k e \<Longrightarrow> free_run xs lo hi k e' \<Longrightarrow> e = e'"
  using free_run_not_less[of xs lo hi k e e'] free_run_not_less[of xs lo hi k e' e] by linarith

lemma free_run_inside:
  assumes "free_run xs lo hi k e" and "free_run xs lo hi j e'" and "k \<le> j" and "j < e"
  shows "j = k"
proof (rule ccontr)
  assume "j \<noteq> k"
  then have "k \<le> j - 1" and "j - 1 < e" and "j \<noteq> lo"
    using assms by (auto simp: free_run_def)
  then have "\<not> xs ! (j - 1)" and "xs ! (j - 1)"
    using assms(1,2) by (auto simp: free_run_def)
  then show False by simp
qed

lemma free_run_idx: "free_run xs lo hi k e \<Longrightarrow> k \<le> hi"
  by (simp add: free_run_def)

lemma bitmap_count_run:
  assumes "represents b xs" and "free_run xs lo hi k e" and "hi < length xs"
  shows "bitmap_count b k (sz_sub e k) False = Inr (e - k)"
proof -
  have e: "k < e" "e \<le> length xs" and clear: "\<And>i. i < e - k \<Longrightarrow> \<not> xs ! (k + i)"
    using assms(2,3) by (auto simp: free_run_def)
  have "sz_sub e k = e - k"
    using e represents_bound[OF assms(1)] by (simp add: sz_sub_exact)
  moreover have "{i. i < e - k \<and> xs ! (k + i) = False} = {..<e - k}"
    using clear by auto
  ultimately show ?thesis
    using bitmap_count_ok[OF assms(1), of k "e - k" False] e by simp
qed

text \<open>One iteration: the run at \<open>i\<close> joins the ones already seen.\<close>

lemma best_so_far_run:
  assumes best: "best_so_far xs lo hi cnt i idx sz" and run: "free_run xs lo hi i e"
    and cnt: "0 < cnt"
  shows "\<lbrakk>cnt \<le> e - i; sz = 0 \<or> e - i < sz\<rbrakk> \<Longrightarrow> best_so_far xs lo hi cnt e i (e - i)"
    and "\<lbrakk>\<not> (cnt \<le> e - i \<and> (sz = 0 \<or> e - i < sz))\<rbrakk> \<Longrightarrow> best_so_far xs lo hi cnt e idx sz"
proof -
  have before: "k < i \<or> (k = i \<and> e' = e)" if "free_run xs lo hi k e'" "k < e" for k e'
    using free_run_inside[OF run that(1)] that free_run_unique[OF run, of e'] by (cases "k < i") auto
  have ie: "i < e" using run by (simp add: free_run_def)
  { assume a: "cnt \<le> e - i" "sz = 0 \<or> e - i < sz"
    have "e - i \<le> e' - k" if "free_run xs lo hi k e'" "k < e" "cnt \<le> e' - k" for k e'
    proof (cases "k < i")
      case True
      then have "sz \<noteq> 0 \<and> sz \<le> e' - k"
        using best that by (fastforce simp: best_so_far_def split: if_splits)
      then show ?thesis using a by auto
    next
      case False
      then show ?thesis using before[OF that(1,2)] by auto
    qed
    then show "best_so_far xs lo hi cnt e i (e - i)"
      using a run ie by (auto simp: best_so_far_def) }
  { assume a: "\<not> (cnt \<le> e - i \<and> (sz = 0 \<or> e - i < sz))"
    show "best_so_far xs lo hi cnt e idx sz"
      using best a before by (fastforce simp: best_so_far_def split: if_splits) }
qed

lemma best_so_far_skip:
  assumes best: "best_so_far xs lo hi cnt i idx sz" and set: "xs ! i"
  shows "best_so_far xs lo hi cnt (Suc i) idx sz"
proof -
  have "k < i" if "free_run xs lo hi k e" "k < Suc i" for k e
    using that set by (cases "k = i") (auto simp: free_run_def)
  then show ?thesis using best by (fastforce simp: best_so_far_def split: if_splits)
qed

lemma best_loop_ok:
  assumes rep: "represents b xs" and cnt: "0 < cnt" "hi + cnt = length xs"
    and lo: "lo \<le> i" and start: "i \<le> hi \<Longrightarrow> i = lo \<or> xs ! (i - 1) \<or> xs ! i"
    and best: "best_so_far xs lo hi cnt i idx sz"
  shows "\<exists>idx' sz'. best_loop b hi cnt i idx sz = Inr (if sz' = 0 then BITMAP_ERROR else idx')
    \<and> best_so_far xs lo hi cnt (Suc hi) idx' sz'"
  using lo start best
proof (induction "Suc hi - i" arbitrary: i idx sz rule: less_induct)
  case less
  have hi: "hi < length xs" "length xs < 2 ^ 32"
    using cnt represents_bound[OF rep] by auto
  show ?case
  proof (cases "hi < i")
    case True
    have "idx < SIZE_MAX" if "sz \<noteq> 0"
      using less.prems(3) that hi free_run_idx[of xs lo hi idx "idx + sz"]
      by (auto simp: best_so_far_def SIZE_MAX_def)
    then have "best_loop b hi cnt i idx sz = Inr (if sz = 0 then BITMAP_ERROR else idx)"
      using True less.prems(3) by (auto simp: best_loop.simps[of b hi cnt i] best_so_far_def)
    moreover have "best_so_far xs lo hi cnt (Suc hi) idx sz"
      using less.prems(3) True by (fastforce simp: best_so_far_def dest: free_run_idx split: if_splits)
    ultimately show ?thesis by blast
  next
    case False
    then have i: "i \<le> hi" by simp
    then have test: "bitmap_test b i = Inr (xs ! i)"
      using bitmap_test_ok[OF rep] hi by simp
    show ?thesis
    proof (cases "xs ! i")
      case True
      have "best_loop b hi cnt i idx sz = best_loop b hi cnt (Suc i) idx sz"
        using True test i by (simp add: best_loop.simps[of b hi cnt i])
      then show ?thesis
        using less.hyps[of "Suc i"] less.prems best_so_far_skip[OF less.prems(3) True] i True by simp
    next
      case False
      obtain e where e: "run_end b hi i = Inr e" "i < e" "e \<le> Suc hi"
          "\<forall>j. i < j \<and> j < e \<longrightarrow> \<not> xs ! j" "e \<le> hi \<longrightarrow> xs ! e"
        using run_end_ok[OF rep hi(1) i] by blast
      have run: "free_run xs lo hi i e"
        using e less.prems(1,2) i False by (auto simp: free_run_def order.order_iff_strict[of i])
      note count = bitmap_count_run[OF rep run hi(1)]
      have sub: "sz_sub m cnt = m - cnt" if "cnt \<le> m" "m \<le> length xs" for m
        using that hi by (simp add: sz_sub_exact)
      have szlen: "sz \<noteq> 0 \<Longrightarrow> cnt \<le> sz \<and> sz \<le> length xs"
        using less.prems(3) hi by (auto simp: best_so_far_def free_run_def)
      let ?take = "cnt \<le> e - i \<and> (sz = 0 \<or> e - i < sz)"
      let ?idx = "if ?take then i else idx" and ?sz = "if ?take then e - i else sz"
      have "best_loop b hi cnt i idx sz = best_loop b hi cnt e ?idx ?sz"
        using test False i e(1) count szlen sub[of sz] sub[of "e - i"] e(2,3) hi
        by (auto simp: best_loop.simps[of b hi cnt i])
      moreover have "best_so_far xs lo hi cnt e ?idx ?sz"
        using best_so_far_run[OF less.prems(3) run cnt(1)] by auto
      ultimately show ?thesis
        using less.hyps[of e ?idx ?sz] e(2,3,5) i less.prems(1) by simp
    qed
  qed
qed

text \<open>What best fit returns: the first of the smallest runs that are large enough.\<close>

definition best_fit_result :: "bool list \<Rightarrow> nat \<Rightarrow> nat \<Rightarrow> nat \<Rightarrow> bool" where
  "best_fit_result xs start cnt r \<longleftrightarrow>
     (let hi = length xs - cnt in
      (r = BITMAP_ERROR \<and> (\<forall>k e. free_run xs start hi k e \<longrightarrow> e - k < cnt))
      \<or> (\<exists>e. free_run xs start hi r e \<and> cnt \<le> e - r
          \<and> (\<forall>k e'. free_run xs start hi k e' \<and> cnt \<le> e' - k \<longrightarrow> e - r \<le> e' - k)))"

lemma best_fit_scan:
  assumes rep: "represents b xs" and "start \<le> length xs" and cnt: "0 < cnt" "cnt \<le> length xs"
    and "Select st = BEST_FIT"
  shows "\<exists>r. bitmap_scan st b start cnt v = Some (Inr (r, enter_scan cnt st)) \<and> best_fit_result xs start cnt r"
proof -
  let ?hi = "length xs - cnt"
  have "best_so_far xs start ?hi cnt start SIZE_MAX 0"
    by (auto simp: best_so_far_def free_run_def)
  then obtain idx sz where loop: "best_loop b ?hi cnt start SIZE_MAX 0 = Inr (if sz = 0 then BITMAP_ERROR else idx)"
      and best: "best_so_far xs start ?hi cnt (Suc ?hi) idx sz"
    using best_loop_ok[OF rep cnt(1), of ?hi start start SIZE_MAX 0] cnt(2) by auto
  have "bitmap_scan st b start cnt v = Some (Inr (if sz = 0 then BITMAP_ERROR else idx, enter_scan cnt st))"
    using assms(2,5) cnt loop scan_last[OF rep cnt(2)] represents_length[OF rep]
    by (simp add: bitmap_scan_def Let_def)
  moreover have "best_fit_result xs start cnt (if sz = 0 then BITMAP_ERROR else idx)"
  proof (cases "sz = 0")
    case True
    then show ?thesis
      using best by (auto simp: best_so_far_def best_fit_result_def Let_def less_Suc_eq_le dest: free_run_idx)
  next
    case False
    then have "free_run xs start ?hi idx (idx + sz)" "cnt \<le> sz"
      "\<And>k e. free_run xs start ?hi k e \<Longrightarrow> cnt \<le> e - k \<Longrightarrow> sz \<le> e - k"
      using best by (auto simp: best_so_far_def less_Suc_eq_le dest: free_run_idx)
    then show ?thesis
      using False unfolding best_fit_result_def Let_def
      by (intro disjI2 exI[of _ "idx + sz"]) simp
  qed
  ultimately show ?thesis by blast
qed

lemma best_fit_result_group:
  assumes "best_fit_result xs start cnt r" and "r \<noteq> BITMAP_ERROR" and "0 < cnt" and "cnt \<le> length xs"
  shows "start \<le> r" and "group xs r cnt False"
proof -
  obtain e where "free_run xs start (length xs - cnt) r e" and "cnt \<le> e - r"
    using assms(1,2) by (auto simp: best_fit_result_def Let_def)
  then have "start \<le> r" "r + cnt \<le> e" "e \<le> Suc (length xs - cnt)" "\<And>i. i < cnt \<Longrightarrow> \<not> xs ! (r + i)"
    by (auto simp: free_run_def)
  then show "start \<le> r" and "group xs r cnt False"
    using assms(3,4) by (auto simp: group_def)
qed

section \<open>Buddy system\<close>

lemma bitmap_contains_InrD:
  assumes "represents b xs" and "bitmap_contains b s n v = Inr c" and "s + n < 2 ^ 32"
  shows "s + n \<le> length xs" and "c = (\<not> group xs s n (\<not> v))"
proof -
  show le: "s + n \<le> length xs"
    using assms represents_length[OF assms(1)]
    by (auto simp: bitmap_contains_def sz_add_exact)
  show "c = (\<not> group xs s n (\<not> v))"
    using bitmap_contains_ok[OF assms(1) le, of v] assms(2) by simp
qed

lemma bitmap_test_InrD:
  assumes "represents b xs" and "bitmap_test b i = Inr t"
  shows "i < length xs" and "t = xs ! i"
proof -
  show i: "i < length xs"
    using assms represents_length[OF assms(1)] by (auto simp: bitmap_test_def)
  show "t = xs ! i" using bitmap_test_ok[OF assms(1) i] assms(2) by simp
qed

lemma buddy_span_run:
  assumes rep: "represents b xs" and "j \<le> m" and m: "m < limit" "m < length xs" "\<not> xs ! m"
    and "\<And>k. j \<le> k \<Longrightarrow> k < m \<Longrightarrow> xs ! k" and "off + (m - j) < 2 ^ 32"
  shows "buddy_span b limit j off = Inr (Some (off + (m - j)))"
  using assms(2,6,7)
proof (induction "m - j" arbitrary: j off)
  case 0
  then have "j = m" by simp
  then show ?case
    using bitmap_test_ok[OF rep m(2)] m by (simp add: buddy_span.simps[of b limit m])
next
  case (Suc n)
  then have j: "j < m" by simp
  then have "bitmap_test b j = Inr True"
    using bitmap_test_ok[OF rep, of j] m(2) Suc.prems(2)[of j] by simp
  moreover have "sz_add off 1 = Suc off" using Suc.prems(3) j by (simp add: sz_add_exact)
  moreover have "buddy_span b limit (Suc j) (Suc off) = Inr (Some (Suc off + (m - Suc j)))"
    using Suc.hyps(1)[of "Suc j" "Suc off"] Suc.hyps(2) Suc.prems j by simp
  ultimately show ?case
    using j m(1) by (simp add: buddy_span.simps[of b limit j])
qed

lemma buddy_span_full:
  assumes rep: "represents b xs" and "j \<le> length xs" and "length xs < limit"
    and "\<And>k. j \<le> k \<Longrightarrow> k < length xs \<Longrightarrow> xs ! k"
  shows "buddy_span b limit j off = Inl Assert_fail"
  using assms(2,4)
proof (induction "length xs - j" arbitrary: j off)
  case 0
  then show ?case
    using assms(3) represents_length[OF rep] by (simp add: buddy_span.simps[of b limit j] bitmap_test_out)
next
  case (Suc n)
  then have j: "j < length xs" by simp
  then have "bitmap_test b j = Inr True"
    using bitmap_test_ok[OF rep j] Suc.prems(2)[of j] by simp
  then show ?case
    using Suc.hyps(1)[of "Suc j" "sz_add off 1"] Suc.hyps(2) Suc.prems j assms(3)
    by (simp add: buddy_span.simps[of b limit j])
qed

text \<open>A measured run is longer than the initial count, since the first bit is set.\<close>

lemma buddy_span_grows:
  assumes rep: "represents b xs" and "buddy_span b limit j off = Inr (Some off')"
    and "off + (length xs - j) < 2 ^ 32"
  shows "off \<le> off'" and "j < length xs \<Longrightarrow> xs ! j \<Longrightarrow> off < off'"
proof -
  have "off \<le> off' \<and> (j < length xs \<and> xs ! j \<longrightarrow> off < off')"
    using assms(2,3)
  proof (induction "limit - j" arbitrary: j off rule: less_induct)
    case less
    from less.prems(1) obtain t where j: "j < limit" and t: "bitmap_test b j = Inr t"
      and step: "(if t then buddy_span b limit (Suc j) (sz_add off 1) else Inr (Some off)) = Inr (Some off')"
      by (auto simp: buddy_span.simps[of b limit j] split: if_splits)
    note tt = bitmap_test_InrD[OF rep t]
    show ?case
    proof (cases t)
      case True
      have "sz_add off 1 = Suc off" using less.prems(2) tt(1) by (simp add: sz_add_exact)
      then have "Suc off \<le> off'"
        using less.hyps[of "Suc j" "Suc off"] step True j tt(1) less.prems(2) by auto
      then show ?thesis by simp
    next
      case False
      then show ?thesis using step tt by simp
    qed
  qed
  then show "off \<le> off'" and "j < length xs \<Longrightarrow> xs ! j \<Longrightarrow> off < off'" by auto
qed

lemma buddy_round_bounds: "0 < off \<Longrightarrow> off \<le> 256 \<Longrightarrow> off \<le> buddy_round off \<and> buddy_round off \<le> 256"
  by (auto simp: buddy_round_def)

text \<open>The outer loop halves the bound until it is below \<open>cnt\<close>.\<close>

lemma buddy_outer_bound:
  assumes "0 < cnt" and "cnt \<le> 2 ^ k"
  shows "\<exists>bd. buddy_outer b cnt limit v (2 ^ k) = buddy_inner b bd limit v 0 0
    \<and> bd < cnt \<and> 2 * bd \<le> 2 ^ k \<and> (if bd = 0 then cnt = 1 else cnt \<le> 2 * bd)"
  using assms(2)
proof (induction k)
  case 0
  then have "cnt = 1" using assms(1) by simp
  then show ?case by (intro exI[of _ 0]) (simp add: buddy_outer.simps[of b _ limit v "Suc 0"])
next
  case (Suc k)
  show ?case
  proof (cases "2 ^ k < cnt")
    case True
    then show ?thesis
      using Suc.prems by (intro exI[of _ "2 ^ k"]) (simp add: buddy_outer.simps[of b cnt limit v "2 * 2 ^ k"])
  next
    case False
    then obtain bd where "buddy_outer b cnt limit v (2 ^ k) = buddy_inner b bd limit v 0 0"
        "bd < cnt" "2 * bd \<le> 2 ^ k" "if bd = 0 then cnt = 1 else cnt \<le> 2 * bd"
      using Suc.IH by auto
    then show ?thesis
      using False by (intro exI[of _ bd]) (simp add: buddy_outer.simps[of b cnt limit v "2 * 2 ^ k"])
  qed
qed

lemma buddy_scan_inner:
  assumes "0 < cnt" and "cnt \<le> 512"
  shows "\<exists>bd. buddy_scan b chk cnt v = buddy_inner b bd (sz_add 512 chk) v 0 0
    \<and> bd < cnt \<and> bd \<le> 256 \<and> (if bd = 0 then cnt = 1 else cnt \<le> 2 * bd)"
proof -
  obtain bd where "buddy_outer b cnt (sz_add 512 chk) v 512 = buddy_inner b bd (sz_add 512 chk) v 0 0"
      "bd < cnt" "2 * bd \<le> 512" "if bd = 0 then cnt = 1 else cnt \<le> 2 * bd"
    using buddy_outer_bound[OF assms(1), of 9 b "sz_add 512 chk" v] assms(2) by auto
  then show ?thesis
    using assms(2) by (intro exI[of _ bd]) (simp add: buddy_scan_def)
qed

text \<open>A request for no bits never leaves the outer loop.\<close>

lemma buddy_outer_zero: "buddy_outer b 0 limit v bound = None"
proof (rule ccontr)
  assume "buddy_outer b 0 limit v bound \<noteq> None"
  then obtain r where r: "buddy_outer b 0 limit v bound = Some r" by auto
  have "0 \<noteq> (0::nat)"
    by (rule buddy_outer.raw_induct[where P = "\<lambda>b cnt limit v bound r. cnt \<noteq> 0", OF _ r])
       (auto split: if_splits)
  then show False by simp
qed

text \<open>
  With \<open>bound\<close> at most 256 the inner loop ends, and what it returns is no group, the 0 of
  \<open>return NULL\<close>, or the start of a free group.
\<close>

definition buddy_result :: "bool list \<Rightarrow> nat \<Rightarrow> bool \<Rightarrow> nat result \<Rightarrow> bool" where
  "buddy_result xs bound v res \<longleftrightarrow>
     (case res of
        Inl e \<Rightarrow> e = Assert_fail
      | Inr r \<Rightarrow> r = BITMAP_ERROR \<or> r = 0 \<or> (if bound = 0 then group xs r 1 False else group xs r (bound * 2) v))"

lemma bitmap_contains_InlD: "bitmap_contains b s n v = Inl e \<Longrightarrow> represents b xs \<Longrightarrow> s + n < 2 ^ 32 \<Longrightarrow> e = Assert_fail"
  using bitmap_contains_ok[of b xs s n v] represents_length[of b xs]
  by (cases "s + n \<le> length xs") (auto simp: bitmap_contains_def sz_add_exact rassert_def split: if_splits)

lemma buddy_span_InlD:
  assumes rep: "represents b xs" and "buddy_span b limit j off = Inl e"
  shows "e = Assert_fail"
  using assms(2)
proof (induction "limit - j" arbitrary: j off rule: less_induct)
  case less
  have IH: "j < limit \<Longrightarrow> buddy_span b limit (Suc j) (sz_add off 1) = Inl e \<Longrightarrow> e = Assert_fail"
    by (rule less.hyps[of "Suc j" "sz_add off 1"]) auto
  show ?case
    using less.prems IH represents_length[OF rep] bitmap_test_ok[OF rep, of j] bitmap_test_out[of b j]
    by (cases "j < length xs") (auto simp: buddy_span.simps[of b limit j] split: if_splits)
qed

lemma buddy_inner_ok:
  assumes rep: "represents b xs" and len: "length xs + 512 < 2 ^ 32" and bd: "bd \<le> 256" and off: "off \<le> 256"
  shows "\<exists>r. buddy_inner b bd limit v i off = Some r \<and> buddy_result xs bd v r"
  using off
proof (induction "length xs - i" arbitrary: i off rule: less_induct)
  case less
  have mul: "sz_mul bd 2 = bd * 2" using bd by (simp add: sz_mul_exact)
  note unf = buddy_inner.simps[of b bd limit v i]
  show ?case
  proof (cases "i < limit \<and> i < length xs")
    case False
    then show ?thesis
      using represents_length[OF rep] by (auto simp: unf bitmap_test_out buddy_result_def)
  next
    case True
    then have t: "bitmap_test b i = Inr (xs ! i)" using bitmap_test_ok[OF rep] by simp
    have add: "sz_add i n = i + n" if "n \<le> 512" for n
      using that True len by (simp add: sz_add_exact)
    have rec: "\<exists>r. buddy_inner b bd limit v (i + n) off' = Some r \<and> buddy_result xs bd v r"
      if "0 < n" "off' \<le> 256" for n off'
      by (rule less.hyps) (use that True in auto)
    show ?thesis
    proof (cases "xs ! i")
      case set: True
      show ?thesis
      proof (cases "buddy_span b limit i off")
        case (Inl e)
        then show ?thesis
          using t set True buddy_span_InlD[OF rep Inl] by (simp add: unf buddy_result_def)
      next
        case (Inr s)
        show ?thesis
        proof (cases s)
          case None
          then show ?thesis using Inr t set True by (simp add: unf buddy_result_def)
        next
          case (Some off')
          have "0 < off'"
            by (rule le_less_trans[OF _ buddy_span_grows(2)[OF rep Inr[unfolded Some]]])
               (use less.prems len True set in auto)
          then have rnd: "off' \<le> 256 \<Longrightarrow> 0 < buddy_round off' \<and> buddy_round off' \<le> 256"
            using buddy_round_bounds[of off'] by auto
          show ?thesis
          proof (cases "256 < off'")
            case True
            then show ?thesis using Inr Some t set \<open>i < limit \<and> i < length xs\<close> by (simp add: unf buddy_result_def)
          next
            case False
            let ?n = "if bd * 2 < buddy_round off' then buddy_round off' else bd * 2"
            have "buddy_inner b bd limit v i off = buddy_inner b bd limit v (i + ?n) (buddy_round off')"
              using Inr Some t set mul rnd bd False \<open>i < limit \<and> i < length xs\<close> by (simp add: unf add)
            then show ?thesis using rec[of ?n "buddy_round off'"] rnd False by auto
          qed
        qed
      qed
    next
      case clear: False
      show ?thesis
      proof (cases "bd = 0")
        case True
        then show ?thesis
          using t clear \<open>i < limit \<and> i < length xs\<close> by (simp add: buddy_inner.simps[of b 0 limit v i] buddy_result_def group_def)
      next
        case pos: False
        have bnd: "i + bd * 2 < 2 ^ 32" using True len bd by simp
        show ?thesis
        proof (cases "bitmap_contains b i (bd * 2) (\<not> v)")
          case (Inl e)
          then show ?thesis
            using t clear True pos mul bitmap_contains_InlD[OF Inl rep bnd] by (simp add: unf buddy_result_def)
        next
          case (Inr c)
          then show ?thesis
            using t clear True pos mul bitmap_contains_InrD(2)[OF rep Inr bnd] rec[of "bd * 2" off] less.prems bd
            by (cases c) (simp_all add: unf add buddy_result_def)
        qed
      qed
    qed
  qed
qed

lemma group_mono: "group xs i n v \<Longrightarrow> m \<le> n \<Longrightarrow> group xs i m v"
  by (auto simp: group_def)

text \<open>So the buddy search ends for every positive request.\<close>

lemma buddy_scan_ok:
  assumes "represents b xs" and "length xs + 512 < 2 ^ 32" and "0 < cnt"
  shows "\<exists>res. buddy_scan b chk cnt False = Some res \<and>
    (case res of
       Inl e \<Rightarrow> e = Assert_fail
     | Inr r \<Rightarrow> r = BITMAP_ERROR \<or> r = 0 \<or> group xs r cnt False)"
proof (cases "cnt \<le> 512")
  case True
  then obtain bd where inner: "buddy_scan b chk cnt False = buddy_inner b bd (sz_add 512 chk) False 0 0"
      and bd: "bd \<le> 256" "if bd = 0 then cnt = 1 else cnt \<le> 2 * bd"
    using buddy_scan_inner[OF assms(3), of b chk False] by blast
  obtain res where "buddy_inner b bd (sz_add 512 chk) False 0 0 = Some res" and "buddy_result xs bd False res"
    using buddy_inner_ok[OF assms(1,2) bd(1)] by blast
  then show ?thesis
    using inner bd group_mono[of xs _ "bd * 2" False cnt]
    by (auto simp: buddy_result_def split: sum.splits if_splits)
qed (simp add: buddy_scan_def)

lemma buddy_scan_zero: "buddy_scan b chk 0 v = None"
  by (simp add: buddy_scan_def buddy_outer_zero)

text \<open>
  With bit \<open>m > 256\<close> the first clear bit, the search returns 0 although bit 0 is set; with
  no clear bit in a map smaller than the search limit it asserts.
\<close>

lemma buddy_scan_null:
  assumes rep: "represents b xs" and cnt: "0 < cnt" "cnt \<le> 512"
    and m: "256 < m" "m < length xs" "m < 512 + chk" "\<not> xs ! m" and set: "\<And>k. k < m \<Longrightarrow> xs ! k"
    and chk: "512 + chk < 2 ^ 32"
  shows "buddy_scan b chk cnt v = Some (Inr 0)"
proof -
  obtain bd where bd: "buddy_scan b chk cnt v = buddy_inner b bd (512 + chk) v 0 0"
    using buddy_scan_inner[OF cnt, of b chk v] chk by (auto simp: sz_add_exact)
  have "0 < length xs" "xs ! 0" using m set[of 0] by auto
  then have "bitmap_test b 0 = Inr True" using bitmap_test_ok[OF rep, of 0] by simp
  moreover have "buddy_span b (512 + chk) 0 0 = Inr (Some m)"
    using buddy_span_run[OF rep _ m(3,2,4), of 0 0] set m(3) chk by simp
  ultimately show ?thesis
    using bd m(1) by (simp add: buddy_inner.simps[of b bd])
qed

lemma buddy_scan_full:
  assumes rep: "represents b xs" and cnt: "0 < cnt" "cnt \<le> 512"
    and len: "0 < length xs" "length xs < 512 + chk" and set: "\<And>k. k < length xs \<Longrightarrow> xs ! k"
    and chk: "512 + chk < 2 ^ 32"
  shows "buddy_scan b chk cnt v = Some (Inl Assert_fail)"
proof -
  obtain bd where bd: "buddy_scan b chk cnt v = buddy_inner b bd (512 + chk) v 0 0"
    using buddy_scan_inner[OF cnt, of b chk v] chk by (auto simp: sz_add_exact)
  have "bitmap_test b 0 = Inr True" using bitmap_test_ok[OF rep len(1)] set[OF len(1)] by simp
  moreover have "buddy_span b (512 + chk) 0 0 = Inl Assert_fail"
    using buddy_span_full[OF rep _ len(2)] set by simp
  ultimately show ?thesis
    using bd by (simp add: buddy_inner.simps[of b bd])
qed

section \<open>The contract of a scan policy\<close>

lemma scan_loop_SomeD:
  assumes rep: "represents b xs" and "scan_loop b hi cnt v i = Inr (Some k)" and "hi + cnt < 2 ^ 32"
  shows "i \<le> k" and "k \<le> hi" and "group xs k cnt v"
proof -
  have "i \<le> k \<and> k \<le> hi \<and> group xs k cnt v"
    using assms(2)
  proof (induction "Suc hi - i" arbitrary: i rule: less_induct)
    case less
    from less.prems obtain c where i: "i \<le> hi" and c: "bitmap_contains b i cnt (\<not> v) = Inr c"
        and step: "(if c then scan_loop b hi cnt v (Suc i) else Inr (Some i)) = Inr (Some k)"
      by (auto simp: scan_loop.simps[of b hi cnt v i] split: if_splits)
    have "c = (\<not> group xs i cnt v)"
      using bitmap_contains_InrD(2)[OF rep c] assms(3) i by simp
    then show ?case
      using less.hyps[of "Suc i"] step i by (cases c) fastforce+
  qed
  then show "i \<le> k" and "k \<le> hi" and "group xs k cnt v" by auto
qed

lemma scan_loop_NoneD:
  assumes rep: "represents b xs" and "scan_loop b hi cnt v i = Inr None" and "hi + cnt < 2 ^ 32"
    and "i \<le> k" "k \<le> hi"
  shows "\<not> group xs k cnt v"
  using assms(2,4)
proof (induction "Suc hi - i" arbitrary: i rule: less_induct)
  case less
  from less.prems assms(5) obtain c where i: "i \<le> hi" and c: "bitmap_contains b i cnt (\<not> v) = Inr c"
      and step: "(if c then scan_loop b hi cnt v (Suc i) else Inr (Some i)) = Inr None"
    by (auto simp: scan_loop.simps[of b hi cnt v i] split: if_splits)
  have "c = (\<not> group xs i cnt v)"
    using bitmap_contains_InrD(2)[OF rep c] assms(3) i by simp
  then show ?case
    using less.hyps[of "Suc i"] less.prems(2) step i by (cases c; cases "k = i") auto
qed

lemma print_bits_ok: "represents b xs \<Longrightarrow> print_bits b = Inr ()"
  using rfor_upt_rule[of "\<lambda>_ _. True" "()" "bit_cnt b" "\<lambda>i u. rbind (bitmap_contains b i 1 True) (\<lambda>_. Inr u)"]
    bitmap_contains_ok[of b xs _ 1 True] represents_length[of b xs]
  by (auto simp: print_bits_def)

text \<open>
  The page allocator relies on the scan to name a free group. \<open>scan_policy\<close> is that
  contract for one value of \<open>Select\<close>: a scan that returns has found a free group or
  reports \<open>BITMAP_ERROR\<close>, and it does return when \<open>fits\<close> holds.
\<close>

locale scan_policy =
  fixes pol :: selector and fits :: "scan_state \<Rightarrow> bool list \<Rightarrow> nat \<Rightarrow> bool"
  assumes finds_free:
    "\<lbrakk>Select st = pol; represents b xs; length xs < 2 ^ 31; lastestAlloc st < 2 ^ 31; 0 < cnt; cnt < 2 ^ 31;
      bitmap_scan st b 0 cnt False = Some (Inr (r, st'))\<rbrakk>
     \<Longrightarrow> Select st' = pol \<and> lastestAlloc st' < 2 ^ 31 \<and> (r = BITMAP_ERROR \<or> group xs r cnt False)"
  and scan_returns:
    "\<lbrakk>Select st = pol; represents b xs; 0 < cnt; fits st xs cnt\<rbrakk>
     \<Longrightarrow> \<exists>r st'. bitmap_scan st b 0 cnt False = Some (Inr (r, st'))"
begin

lemma scan_and_flip_free:
  assumes "Select st = pol" and rep: "represents b xs" and "length xs < 2 ^ 31" and "lastestAlloc st < 2 ^ 31"
    and "0 < cnt" "cnt < 2 ^ 31"
    and flip: "bitmap_scan_and_flip st b 0 cnt False = Some (Inr (r, b', st'))"
  shows "Select st' = pol" and "lastestAlloc st' < 2 ^ 31"
    and "r = BITMAP_ERROR \<and> b' = b
      \<or> r \<noteq> BITMAP_ERROR \<and> group xs r cnt False \<and> represents b' (set_range xs r cnt True)"
proof -
  have scan: "bitmap_scan st b 0 cnt False = Some (Inr (r, st'))"
    and set: "(if r \<noteq> BITMAP_ERROR then bitmap_set_multiple b r cnt True else Inr b) = Inr b'"
    using flip by (auto simp: bitmap_scan_and_flip_def split: if_splits)
  note free = finds_free[OF assms(1-6) scan]
  then show "Select st' = pol" and "lastestAlloc st' < 2 ^ 31" by auto
  show "r = BITMAP_ERROR \<and> b' = b
      \<or> r \<noteq> BITMAP_ERROR \<and> group xs r cnt False \<and> represents b' (set_range xs r cnt True)"
    using set free bitmap_set_multiple_ok[OF rep, of r cnt True]
    by (auto simp: group_def split: if_splits)
qed

lemma scan_and_flip_returns:
  assumes "Select st = pol" and rep: "represents b xs" and "length xs < 2 ^ 31" and "lastestAlloc st < 2 ^ 31"
    and "0 < cnt" "cnt < 2 ^ 31" and "fits st xs cnt"
  shows "\<exists>r b' st'. bitmap_scan_and_flip st b 0 cnt False = Some (Inr (r, b', st'))"
proof -
  obtain r st' where scan: "bitmap_scan st b 0 cnt False = Some (Inr (r, st'))"
    using scan_returns assms by blast
  have "r = BITMAP_ERROR \<or> group xs r cnt False" using finds_free[OF assms(1-6) scan] by blast
  then have "\<exists>b'. (if r \<noteq> BITMAP_ERROR then bitmap_set_multiple b r cnt True else Inr b) = Inr b' \<and> print_bits b' = Inr ()"
    using bitmap_set_multiple_ok[OF rep, of r cnt True] print_bits_ok rep
    by (auto simp: group_def)
  then show ?thesis using scan by (auto simp: bitmap_scan_and_flip_def)
qed

end

text \<open>First fit and next fit also find a group whenever there is one.\<close>

locale complete_scan_policy = scan_policy +
  assumes scan_complete:
    "\<lbrakk>Select st = pol; represents b xs; length xs < 2 ^ 31; lastestAlloc st < 2 ^ 31; 0 < cnt; cnt < 2 ^ 31;
      bitmap_scan st b 0 cnt False = Some (Inr (BITMAP_ERROR, st'))\<rbrakk>
     \<Longrightarrow> \<not> group xs k cnt False"

lemma group_BITMAP_ERROR: "represents b xs \<Longrightarrow> 0 < cnt \<Longrightarrow> \<not> group xs BITMAP_ERROR cnt v"
  using represents_bound[of b xs] by (auto simp: group_def BITMAP_ERROR_def SIZE_MAX_def)

interpretation first_fit: complete_scan_policy FIRST_FIT "\<lambda>st xs cnt. True"
proof
  fix st :: scan_state and b xs cnt k and r :: nat and st' :: scan_state
  assume st: "Select st = FIRST_FIT" and rep: "represents b xs" and cnt: "0 < (cnt::nat)"
  note scan = first_fit_scan[OF rep _ st, of 0 cnt False]
  show "\<exists>r st'. bitmap_scan st b 0 cnt False = Some (Inr (r, st'))" using scan by simp
  show "Select st' = FIRST_FIT \<and> lastestAlloc st' < 2 ^ 31 \<and> (r = BITMAP_ERROR \<or> group xs r cnt False)"
    if "lastestAlloc st < 2 ^ 31" "bitmap_scan st b 0 cnt False = Some (Inr (r, st'))"
    using that scan st by (auto split: option.splits dest: first_group_SomeD(2))
  show "\<not> group xs k cnt False" if "bitmap_scan st b 0 cnt False = Some (Inr (BITMAP_ERROR, st'))"
    using that scan cnt rep group_BITMAP_ERROR[OF rep cnt]
    by (auto simp: first_group_None_iff split: option.splits dest: first_group_SomeD(2))
qed

lemma next_fit_scan:
  assumes "Select st = NEXT_FIT" and rep: "represents b xs" and "cnt \<le> length xs"
  shows "bitmap_scan st b 0 cnt v = Some (next_fit (enter_scan cnt st) b 0 cnt v)"
  using assms represents_length[OF rep] by (simp add: bitmap_scan_def Let_def)

lemma scan_too_many:
  assumes "represents b xs" and "length xs < cnt"
  shows "bitmap_scan st b 0 cnt v = Some (Inr (BITMAP_ERROR, enter_scan cnt st))"
  using assms represents_length[OF assms(1)] by (simp add: bitmap_scan_def Let_def)

lemma next_fit_InrD:
  assumes rep: "represents b xs" and cnt: "cnt \<le> length xs" "0 < cnt" and l: "lastestAlloc st + cnt < 2 ^ 32"
    and "next_fit st b 0 cnt v = Inr (r, st')"
  shows "Select st' = Select st"
    and "r = BITMAP_ERROR \<and> st' = st \<and> (\<forall>k. \<not> group xs k cnt v)
      \<or> group xs r cnt v \<and> lastestAlloc st' = r"
proof -
  let ?l = "lastestAlloc st"
  obtain s where s: "scan_loop b (sz_sub (bit_cnt b) cnt) cnt v ?l = Inr s" "s = first_group xs ?l cnt v"
    using scan_loop_first_group[OF rep cnt(1)] by auto
  have "Select st' = Select st \<and> (r = BITMAP_ERROR \<and> st' = st \<and> (\<forall>k. \<not> group xs k cnt v)
      \<or> group xs r cnt v \<and> lastestAlloc st' = r)"
  proof (cases s)
    case (Some k)
    then show ?thesis using s assms(5) first_group_SomeD(2)[of xs ?l cnt v k] by (auto simp: next_fit_def)
  next
    case None
    then obtain s' where s': "scan_loop b ?l cnt v 0 = Inr s'"
        and res: "(r, st') = (case s' of Some i \<Rightarrow> (i, st\<lparr>lastestAlloc := i\<rparr>) | None \<Rightarrow> (BITMAP_ERROR, st))"
      using s assms(5) by (auto simp: next_fit_def split: option.splits)
    show ?thesis
    proof (cases s')
      case None
      have "\<not> group xs k cnt v" for k
        using scan_loop_NoneD[OF rep s'[unfolded None] l, of k] s(2) \<open>s = None\<close> first_group_None_iff[of xs ?l cnt v]
        by (cases "k \<le> ?l") auto
      then show ?thesis using None res by simp
    next
      case (Some k)
      then show ?thesis using res scan_loop_SomeD(3)[OF rep _ l] s' by auto
    qed
  qed
  then show "Select st' = Select st"
    and "r = BITMAP_ERROR \<and> st' = st \<and> (\<forall>k. \<not> group xs k cnt v) \<or> group xs r cnt v \<and> lastestAlloc st' = r"
    by auto
qed

lemma group_too_long: "length xs < cnt \<Longrightarrow> \<not> group xs k cnt v"
  by (simp add: group_def)

lemma next_fit_contract:
  assumes st: "Select st = NEXT_FIT" and rep: "represents b xs" and len: "length xs < 2 ^ 31"
    and l: "lastestAlloc st < 2 ^ 31" and cnt: "0 < cnt" "cnt < 2 ^ 31"
    and scan: "bitmap_scan st b 0 cnt False = Some (Inr (r, st'))"
  shows "Select st' = NEXT_FIT" and "lastestAlloc st' < 2 ^ 31"
    and "r = BITMAP_ERROR \<and> (\<forall>k. \<not> group xs k cnt False) \<or> group xs r cnt False"
proof -
  have "Select st' = NEXT_FIT \<and> lastestAlloc st' < 2 ^ 31
    \<and> (r = BITMAP_ERROR \<and> (\<forall>k. \<not> group xs k cnt False) \<or> group xs r cnt False)"
  proof (cases "cnt \<le> length xs")
    case True
    have nf: "next_fit (enter_scan cnt st) b 0 cnt False = Inr (r, st')"
      using scan next_fit_scan[OF st rep True] by simp
    have "group xs r cnt False \<Longrightarrow> r < 2 ^ 31" using len cnt(1) by (auto simp: group_def)
    then show ?thesis
      using next_fit_InrD[OF rep True cnt(1) _ nf] l cnt(2) st by auto
  next
    case False
    then show ?thesis
      using scan scan_too_many[OF rep, of cnt st False] st l group_too_long[of xs cnt] by auto
  qed
  then show "Select st' = NEXT_FIT" and "lastestAlloc st' < 2 ^ 31"
    and "r = BITMAP_ERROR \<and> (\<forall>k. \<not> group xs k cnt False) \<or> group xs r cnt False"
    by auto
qed

interpretation next_fit: complete_scan_policy NEXT_FIT
  "\<lambda>st xs cnt. cnt \<le> length xs \<longrightarrow> lastestAlloc st + cnt \<le> length xs"
proof
  fix st :: scan_state and b xs cnt k and r :: nat and st' :: scan_state
  assume st: "Select st = NEXT_FIT" and rep: "represents b xs" and cnt: "0 < (cnt::nat)"
  {
    assume pre: "length xs < 2 ^ 31" "lastestAlloc st < 2 ^ 31" "cnt < 2 ^ 31"
    show "Select st' = NEXT_FIT \<and> lastestAlloc st' < 2 ^ 31 \<and> (r = BITMAP_ERROR \<or> group xs r cnt False)"
      if "bitmap_scan st b 0 cnt False = Some (Inr (r, st'))"
      using next_fit_contract[OF st rep pre(1,2) cnt pre(3) that] by blast
    show "\<not> group xs k cnt False" if "bitmap_scan st b 0 cnt False = Some (Inr (BITMAP_ERROR, st'))"
      using next_fit_contract(3)[OF st rep pre(1,2) cnt pre(3) that] group_BITMAP_ERROR[OF rep cnt] by blast
  }
  assume fits: "cnt \<le> length xs \<longrightarrow> lastestAlloc st + cnt \<le> length xs"
  show "\<exists>r st'. bitmap_scan st b 0 cnt False = Some (Inr (r, st'))"
  proof (cases "cnt \<le> length xs")
    case True
    then show ?thesis
      using next_fit_scan[OF st rep True, of False] next_fit_ok[OF rep True, of "enter_scan cnt st" 0 False] fits
      by (auto split: option.splits)
  qed (use scan_too_many[OF rep] in auto)
qed

interpretation best_fit: scan_policy BEST_FIT "\<lambda>st xs cnt. True"
proof
  fix st :: scan_state and b xs cnt and r :: nat and st' :: scan_state
  assume st: "Select st = BEST_FIT" and rep: "represents b xs" and cnt: "0 < (cnt::nat)"
  have both: "\<exists>r. bitmap_scan st b 0 cnt False = Some (Inr (r, enter_scan cnt st)) \<and> (r = BITMAP_ERROR \<or> group xs r cnt False)"
  proof (cases "cnt \<le> length xs")
    case True
    then show ?thesis
      using best_fit_scan[OF rep _ cnt True st, of 0 False] best_fit_result_group(2)[OF _ _ cnt True] by blast
  qed (use scan_too_many[OF rep] in auto)
  then show "\<exists>r st'. bitmap_scan st b 0 cnt False = Some (Inr (r, st'))" by blast
  assume l: "lastestAlloc st < 2 ^ 31" and "bitmap_scan st b 0 cnt False = Some (Inr (r, st'))"
  then show "Select st' = BEST_FIT \<and> lastestAlloc st' < 2 ^ 31 \<and> (r = BITMAP_ERROR \<or> group xs r cnt False)"
    using both st by auto
qed

section \<open>Properties of the bitmap and of the scan\<close>

lemma represents_ex: "represents \<lparr>bit_cnt = 4, bits = [9]\<rparr> [True, False, False, True]"
  by (simp add: represents_def bitmap_wf_def bits_of_def bit_at_def upt_conv_Cons)

text \<open>
  C22. \<open>bitmap_set_multiple\<close> on a range inside the map succeeds, writes exactly the bits of
  the range and leaves every other bit as it was.
\<close>

theorem bitmap_set_multiple_range:
  assumes "represents b xs" and "start + cnt \<le> length xs"
  shows "\<exists>b'. bitmap_set_multiple b start cnt v = Inr b' \<and> length (bits_of b') = length xs
    \<and> (\<forall>i<length xs. bits_of b' ! i = (if start \<le> i \<and> i < start + cnt then v else xs ! i))"
  using bitmap_set_multiple_ok[OF assms, of v] by (auto simp: represents_def nth_set_range simp del: length_bits_of)

theorem bitmap_set_multiple_range_witness:
  "\<exists>b'. bitmap_set_multiple \<lparr>bit_cnt = 4, bits = [9]\<rparr> 1 2 True = Inr b' \<and> bits_of b' ! 2"
  using bitmap_set_multiple_range[OF represents_ex, of 1 2 True] by auto

text \<open>
  C17. First fit does what the comment of \<open>bitmap_scan\<close> promises: it returns the least index
  at or after \<open>start\<close> of a group of \<open>cnt\<close> bits equal to \<open>value\<close>, and \<open>BITMAP_ERROR\<close> exactly
  when there is no such group.
\<close>

theorem bitmap_scan_first_fit:
  assumes "represents b xs" and "start \<le> length xs" and "Select st = FIRST_FIT" and "0 < cnt"
  shows "\<exists>r. bitmap_scan st b start cnt v = Some (Inr (r, enter_scan cnt st))
    \<and> (if \<exists>k\<ge>start. group xs k cnt v
       then start \<le> r \<and> group xs r cnt v \<and> (\<forall>k. start \<le> k \<and> k < r \<longrightarrow> \<not> group xs k cnt v)
       else r = BITMAP_ERROR)"
proof (cases "first_group xs start cnt v")
  case None
  then show ?thesis
    using first_fit_scan[OF assms(1-3), of cnt v] None[unfolded first_group_None_iff] by auto
next
  case (Some r)
  then show ?thesis
    using first_fit_scan[OF assms(1-3), of cnt v] first_group_SomeD[OF Some] by auto
qed

lemma group_ex: "group [True, False, False, True] 1 2 False"
  by (auto simp: group_def less_Suc_eq numeral_2_eq_2)

theorem bitmap_scan_first_fit_witness:
  "\<exists>r. bitmap_scan (scan_state_init FIRST_FIT) \<lparr>bit_cnt = 4, bits = [9]\<rparr> 0 2 False
     = Some (Inr (r, enter_scan 2 (scan_state_init FIRST_FIT))) \<and> group [True, False, False, True] r 2 False"
proof -
  have "\<exists>k\<ge>0. group [True, False, False, True] k 2 False" using group_ex by blast
  then show ?thesis
    using bitmap_scan_first_fit[OF represents_ex, of 0 "scan_state_init FIRST_FIT" 2 False]
    by (simp only: if_True) (auto simp: scan_state_init_def)
qed

text \<open>
  C18. Next fit, when the position that it remembers leaves room for the request before the end of
  the bitmap: it returns the first group of \<open>cnt\<close> bits equal to \<open>value\<close> at or after the remembered
  position if there is one, otherwise the first group at or after \<open>start\<close>, and \<open>BITMAP_ERROR\<close> when
  there is none of either kind. It then remembers the position that it returned, and keeps the old
  one when it reports the error.
\<close>

theorem bitmap_scan_next_fit:
  assumes "Select st = NEXT_FIT" and "represents b xs" and "start \<le> length xs" and "lastestAlloc st + cnt \<le> length xs"
  shows "\<exists>r st'. bitmap_scan st b start cnt v = Some (Inr (r, st'))
    \<and> (if \<exists>k \<ge> lastestAlloc st. group xs k cnt v
       then lastestAlloc st \<le> r \<and> group xs r cnt v \<and> (\<forall>k. lastestAlloc st \<le> k \<and> k < r \<longrightarrow> \<not> group xs k cnt v) \<and> lastestAlloc st' = r
       else if \<exists>k \<ge> start. group xs k cnt v
       then start \<le> r \<and> group xs r cnt v \<and> (\<forall>k. start \<le> k \<and> k < r \<longrightarrow> \<not> group xs k cnt v) \<and> lastestAlloc st' = r
       else r = BITMAP_ERROR \<and> lastestAlloc st' = lastestAlloc st)"
proof -
  let ?L = "lastestAlloc st" and ?e = "enter_scan cnt st"
  have cnt: "cnt \<le> length xs" using assms(4) by simp
  have scan: "bitmap_scan st b start cnt v = Some (next_fit ?e b start cnt v)"
    using assms(1,3) cnt represents_length[OF assms(2)] by (simp add: bitmap_scan_def Let_def)
  note nf = next_fit_ok[OF assms(2) cnt, of ?e start v, unfolded enter_scan_lastestAlloc, OF assms(4)]
  show ?thesis
  proof (cases "first_group xs ?L cnt v")
    case (Some r)
    note D = first_group_SomeD[OF Some]
    have ex: "\<exists>k \<ge> ?L. group xs k cnt v" using D(1,2) by blast
    have "bitmap_scan st b start cnt v = Some (Inr (r, ?e\<lparr>lastestAlloc := r\<rparr>))" using scan nf Some by simp
    then show ?thesis unfolding if_P[OF ex] using D by (intro exI[of _ r] exI[of _ "?e\<lparr>lastestAlloc := r\<rparr>"] conjI allI impI) simp_all
  next
    case None
    then have no: "\<not> (\<exists>k \<ge> ?L. group xs k cnt v)" unfolding first_group_None_iff by blast
    show ?thesis
    proof (cases "find (\<lambda>k. group xs k cnt v) [start..<Suc ?L]")
      case (Some r)
      note D = find_upt_SomeD[OF Some]
      have ex: "\<exists>k \<ge> start. group xs k cnt v" using D(1,3) by blast
      have "bitmap_scan st b start cnt v = Some (Inr (r, ?e\<lparr>lastestAlloc := r\<rparr>))" using scan nf None Some by (simp del: upt_Suc)
      then show ?thesis unfolding if_not_P[OF no] if_P[OF ex] using D by (intro exI[of _ r] exI[of _ "?e\<lparr>lastestAlloc := r\<rparr>"] conjI allI impI) simp_all
    next
      case e: None
      have ne: "\<not> (\<exists>k \<ge> start. group xs k cnt v)"
      proof
        assume "\<exists>k \<ge> start. group xs k cnt v"
        then obtain k where "start \<le> k" "group xs k cnt v" by blast
        then show False using no find_upt_NoneD[OF e, of k] by (cases "k < Suc ?L") auto
      qed
      have "bitmap_scan st b start cnt v = Some (Inr (BITMAP_ERROR, ?e))" using scan nf None e by (simp del: upt_Suc)
      then show ?thesis unfolding if_not_P[OF no] if_not_P[OF ne] by (intro exI[of _ BITMAP_ERROR] exI[of _ ?e] conjI) simp_all
    qed
  qed
qed

theorem bitmap_scan_next_fit_witness:
  "\<exists>r st'. bitmap_scan ((scan_state_init NEXT_FIT)\<lparr>lastestAlloc := 2\<rparr>) \<lparr>bit_cnt = 4, bits = [9]\<rparr> 0 1 False
     = Some (Inr (r, st')) \<and> 2 \<le> r \<and> lastestAlloc st' = r"
proof -
  let ?st = "(scan_state_init NEXT_FIT)\<lparr>lastestAlloc := 2\<rparr>"
  have l: "lastestAlloc ?st = 2" "Select ?st = NEXT_FIT" by (simp_all add: scan_state_init_def)
  have "group [True, False, False, True] 2 1 False" by (simp add: group_def)
  then have ex: "\<exists>k \<ge> 2. group [True, False, False, True] k 1 False" by blast
  show ?thesis
    using bitmap_scan_next_fit[OF l(2) represents_ex, of 0 1 False, unfolded l(1) if_P[OF ex]] by auto
qed

text \<open>
  C19. Best fit, on clear bits whatever \<open>value\<close> is. The code measures a run of clear bits only up to
  \<open>bit_cnt - cnt\<close>, the last position where a group could start: among the runs so cut off, it
  returns the start of a shortest one of at least \<open>cnt\<close> bits, which is the start of \<open>cnt\<close> clear
  bits, and \<open>BITMAP_ERROR\<close> when every run so cut off is shorter.
\<close>

theorem bitmap_scan_best_fit:
  assumes "represents b xs" and "start \<le> length xs" and "0 < cnt" and "cnt \<le> length xs" and "Select st = BEST_FIT"
  shows "\<exists>r. bitmap_scan st b start cnt v = Some (Inr (r, enter_scan cnt st))
    \<and> (r = BITMAP_ERROR \<and> (\<forall>k e. free_run xs start (length xs - cnt) k e \<longrightarrow> e - k < cnt)
       \<or> (\<exists>e. free_run xs start (length xs - cnt) r e \<and> cnt \<le> e - r \<and> group xs r cnt False
           \<and> (\<forall>k e'. free_run xs start (length xs - cnt) k e' \<and> cnt \<le> e' - k \<longrightarrow> e - r \<le> e' - k)))"
proof -
  obtain r where scan: "bitmap_scan st b start cnt v = Some (Inr (r, enter_scan cnt st))" and res: "best_fit_result xs start cnt r"
    using best_fit_scan[OF assms] by blast
  then have "r \<noteq> BITMAP_ERROR \<Longrightarrow> group xs r cnt False" using best_fit_result_group(2)[OF res _ assms(3,4)] by simp
  moreover have "\<not> (free_run xs start (length xs - cnt) BITMAP_ERROR e)" for e
    using free_run_idx[of xs start "length xs - cnt" BITMAP_ERROR e] represents_bound[OF assms(1)] assms(3,4)
    by (auto simp: BITMAP_ERROR_def SIZE_MAX_def)
  ultimately show ?thesis
    using scan res by (auto simp: best_fit_result_def Let_def)
qed

theorem bitmap_scan_best_fit_witness:
  "\<exists>r. bitmap_scan (scan_state_init BEST_FIT) \<lparr>bit_cnt = 4, bits = [9]\<rparr> 0 2 False
     = Some (Inr (r, enter_scan 2 (scan_state_init BEST_FIT)))"
  using bitmap_scan_best_fit[OF represents_ex, of 0 2 "scan_state_init BEST_FIT" False]
  by (auto simp: scan_state_init_def)

text \<open>
  C35. Best fit fails on large requests. A request for \<open>cnt\<close> bits of a map with fewer than
  \<open>2 * cnt - 1\<close> bits is answered with \<open>BITMAP_ERROR\<close> whatever the map holds, even when all of its
  bits are clear.
\<close>

theorem best_fit_large_request:
  assumes "represents b xs" and "start \<le> length xs" and "cnt \<le> length xs" and "length xs + 1 < 2 * cnt" and "Select st = BEST_FIT"
  shows "bitmap_scan st b start cnt v = Some (Inr (BITMAP_ERROR, enter_scan cnt st))"
proof -
  have pos: "0 < cnt" using assms(4) by simp
  obtain r where scan: "bitmap_scan st b start cnt v = Some (Inr (r, enter_scan cnt st))" and res: "best_fit_result xs start cnt r"
    using best_fit_scan[OF assms(1,2) pos assms(3,5)] by blast
  have "e - k < cnt" if "free_run xs start (length xs - cnt) k e" for k e
  proof -
    have "e \<le> Suc (length xs - cnt)" using that by (simp add: free_run_def)
    then show ?thesis using assms(3,4) by linarith
  qed
  then have "r = BITMAP_ERROR" using res unfolding best_fit_result_def Let_def by (meson not_less)
  then show ?thesis using scan by simp
qed

theorem best_fit_large_request_witness:
  "bitmap_scan (scan_state_init BEST_FIT) \<lparr>bit_cnt = 4, bits = [0]\<rparr> 0 3 False = Some (Inr (BITMAP_ERROR, enter_scan 3 (scan_state_init BEST_FIT)))
    \<and> group [False, False, False, False] 0 3 False"
proof -
  have rep: "represents \<lparr>bit_cnt = 4, bits = [0]\<rparr> [False, False, False, False]"
    by (simp add: represents_def bitmap_wf_def bits_of_def bit_at_def upt_conv_Cons)
  show ?thesis
    using best_fit_large_request[OF rep, of 0 3 "scan_state_init BEST_FIT" False]
    by (simp add: scan_state_init_def group_def less_Suc_eq numeral_3_eq_3)
qed



text \<open>
  C20. The buddy search ends for every positive request: it fails an assertion, reports
  \<open>BITMAP_ERROR\<close>, returns 0, or returns the start of a free group of \<open>cnt\<close> bits.
\<close>

theorem bitmap_scan_buddy:
  assumes "represents b xs" and "length xs + 512 < 2 ^ 32" and "0 < cnt" and "Select st = BUDDY_SYSTEM"
  shows "\<exists>res. bitmap_scan st b 0 cnt False = Some res \<and>
    (case res of
       Inl e \<Rightarrow> e = Assert_fail
     | Inr (r, st') \<Rightarrow> r = BITMAP_ERROR \<or> r = 0 \<or> group xs r cnt False)"
proof -
  obtain res where "buddy_scan b (check_size (enter_scan cnt st)) cnt False = Some res"
      "case res of Inl e \<Rightarrow> e = Assert_fail | Inr r \<Rightarrow> r = BITMAP_ERROR \<or> r = 0 \<or> group xs r cnt False"
    using buddy_scan_ok[OF assms(1-3)] by blast
  then show ?thesis
    using assms(4) by (cases res) (auto simp: bitmap_scan_def Let_def)
qed

theorem bitmap_scan_buddy_witness:
  "\<exists>res. bitmap_scan (scan_state_init BUDDY_SYSTEM) \<lparr>bit_cnt = 4, bits = [9]\<rparr> 0 1 False = Some res"
  using bitmap_scan_buddy[OF represents_ex, of 1 "scan_state_init BUDDY_SYSTEM"] by (auto simp: scan_state_init_def)

text \<open>
  C21. A buddy search over a map whose first clear bit has an index \<open>m\<close> above 256 returns 0,
  and \<open>bitmap_scan_and_flip\<close> hands out the group at 0 although it is already allocated.
\<close>

theorem buddy_hands_out_used_group:
  assumes "represents b xs" and "Select st = BUDDY_SYSTEM" and "0 < cnt" "cnt \<le> 512"
    and "256 < m" "m < length xs" "m < 512 + check_size (enter_scan cnt st)" "512 + check_size (enter_scan cnt st) < 2 ^ 32"
    and "\<not> xs ! m" and "\<forall>k<m. xs ! k" and "cnt \<le> length xs"
  shows "\<exists>b' st'. bitmap_scan_and_flip st b 0 cnt False = Some (Inr (0, b', st')) \<and> xs ! 0"
proof -
  let ?st = "enter_scan cnt st"
  have "buddy_scan b (check_size ?st) cnt False = Some (Inr 0)"
    using assms by (intro buddy_scan_null[where m = m]) auto
  then have "bitmap_scan st b 0 cnt False = Some (Inr (0, ?st))"
    using assms(2,11) represents_length[OF assms(1)] by (simp add: bitmap_scan_def Let_def)
  moreover obtain b' where "bitmap_set_multiple b 0 cnt True = Inr b'" "represents b' (set_range xs 0 cnt True)"
    using bitmap_set_multiple_ok[OF assms(1), of 0 cnt True] assms(11) by auto
  ultimately show ?thesis
    using print_bits_ok[of b'] assms(5,10) by (auto simp: bitmap_scan_and_flip_def BITMAP_ERROR_def SIZE_MAX_def)
qed

definition ex_full :: bitmap where
  "ex_full = \<lparr>bit_cnt = 300, bits = replicate 9 (- 1) @ [mask 11]\<rparr>"

lemma ex_full_bit:
  assumes "k < 300"
  shows "bits_of ex_full ! k = (k < 299)"
proof (cases "k < 288")
  case True
  then have "k div 32 < 9" by simp
  then show ?thesis using assms True by (simp add: nth_bits_of bit_at_def ex_full_def nth_append)
next
  case False
  then have "k div 32 = 9" "k mod 32 = k - 288" using assms by (auto simp: mod_if)
  then show ?thesis
    using assms False by (auto simp: nth_bits_of bit_at_def ex_full_def nth_append bit_mask_iff)
qed

theorem buddy_hands_out_used_group_witness:
  "\<exists>b' st'. bitmap_scan_and_flip (scan_state_init BUDDY_SYSTEM) ex_full 0 1 False = Some (Inr (0, b', st'))"
proof -
  have "represents ex_full (bits_of ex_full)" "length (bits_of ex_full) = 300"
    by (simp_all add: represents_def bitmap_wf_def ex_full_def)
  then show ?thesis
    using buddy_hands_out_used_group[of ex_full "bits_of ex_full" "scan_state_init BUDDY_SYSTEM" 1 299] ex_full_bit
    by (auto simp: scan_state_init_def enter_scan_def sz_add_def)
qed

end
