(* ===== verification/Vaddr.thy ===== *)
theory Vaddr
  imports Prelude
begin

text \<open>
  Virtual addresses and page-table entries: \<open>src/threads/vaddr.h\<close> and
  \<open>src/threads/pte.h\<close>. An address is a 32-bit word. The bit-mask definitions are related to
  division and remainder of the address by the page size, the decomposition of an address
  into directory index, table index and offset is shown to be lossless, and the entry
  constructors are inverted by the entry selectors.
\<close>

type_synonym addr = "32 word"

section \<open>vaddr.h\<close>

definition BITMASK :: "nat \<Rightarrow> nat \<Rightarrow> addr" where
  "BITMASK SHIFT CNT = push_bit SHIFT (push_bit CNT 1 - 1)"

definition PGBITS :: nat where
  "PGBITS = 12"

definition PGSIZE :: addr where
  "PGSIZE = push_bit PGBITS 1"

definition PGMASK :: addr where
  "PGMASK = BITMASK 0 PGBITS"

definition pg_ofs :: "addr \<Rightarrow> addr" where
  "pg_ofs va = va AND PGMASK"

definition pg_no :: "addr \<Rightarrow> addr" where
  "pg_no va = drop_bit PGBITS va"

definition pg_round_up :: "addr \<Rightarrow> addr" where
  "pg_round_up va = (va + PGSIZE - 1) AND NOT PGMASK"

definition pg_round_down :: "addr \<Rightarrow> addr" where
  "pg_round_down va = va AND NOT PGMASK"

definition PHYS_BASE :: addr where
  "PHYS_BASE = 0xc0000000"

definition is_user_vaddr :: "addr \<Rightarrow> bool" where
  "is_user_vaddr vaddr \<longleftrightarrow> vaddr < PHYS_BASE"

definition is_kernel_vaddr :: "addr \<Rightarrow> bool" where
  "is_kernel_vaddr vaddr \<longleftrightarrow> PHYS_BASE \<le> vaddr"

definition ptov :: "addr \<Rightarrow> addr result" where
  "ptov paddr = rbind (rassert (paddr < PHYS_BASE)) (\<lambda>_. Inr (paddr + PHYS_BASE))"

definition vtop :: "addr \<Rightarrow> addr result" where
  "vtop vaddr = rbind (rassert (is_kernel_vaddr vaddr)) (\<lambda>_. Inr (vaddr - PHYS_BASE))"

section \<open>pte.h\<close>

definition PTBITS :: nat where
  "PTBITS = 10"

definition PTMASK :: addr where
  "PTMASK = BITMASK PGBITS PTBITS"

definition PDSHIFT :: nat where
  "PDSHIFT = PGBITS + PTBITS"

definition pt_no :: "addr \<Rightarrow> addr" where
  "pt_no va = drop_bit PGBITS (va AND PTMASK)"

definition pd_no :: "addr \<Rightarrow> addr" where
  "pd_no va = drop_bit PDSHIFT va"

definition PTE_FLAGS :: addr where
  "PTE_FLAGS = 0x00000fff"

definition PTE_ADDR :: addr where
  "PTE_ADDR = 0xfffff000"

definition PTE_P :: addr where
  "PTE_P = 0x1"

definition PTE_W :: addr where
  "PTE_W = 0x2"

definition PTE_U :: addr where
  "PTE_U = 0x4"

definition PTE_A :: addr where
  "PTE_A = 0x20"

definition PTE_D :: addr where
  "PTE_D = 0x40"

definition pde_create :: "addr \<Rightarrow> addr result" where
  "pde_create pt =
     rbind (rassert (pg_ofs pt = 0)) (\<lambda>_.
     rbind (vtop pt) (\<lambda>p. Inr (p OR PTE_U OR PTE_P OR PTE_W)))"

definition pde_get_pt :: "addr \<Rightarrow> addr result" where
  "pde_get_pt pde = rbind (rassert (pde AND PTE_P \<noteq> 0)) (\<lambda>_. ptov (pde AND PTE_ADDR))"

definition pte_create_kernel :: "addr \<Rightarrow> bool \<Rightarrow> addr result" where
  "pte_create_kernel page writable =
     rbind (rassert (pg_ofs page = 0)) (\<lambda>_.
     rbind (vtop page) (\<lambda>p. Inr (p OR PTE_P OR (if writable then PTE_W else 0))))"

definition pte_create_user :: "addr \<Rightarrow> bool \<Rightarrow> addr result" where
  "pte_create_user page writable = rbind (pte_create_kernel page writable) (\<lambda>p. Inr (p OR PTE_U))"

definition pte_get_page :: "addr \<Rightarrow> addr result" where
  "pte_get_page pte = ptov (pte AND PTE_ADDR)"

section \<open>Masks as division and remainder\<close>

lemma PGMASK_mask: "PGMASK = mask 12"
  by (simp add: PGMASK_def BITMASK_def PGBITS_def mask_eq_exp_minus_1)

lemma PGSIZE_eq: "PGSIZE = 4096"
  by (simp add: PGSIZE_def PGBITS_def)

lemma pg_ofs_take_bit: "pg_ofs va = take_bit 12 va"
  by (simp add: pg_ofs_def PGMASK_mask take_bit_eq_mask)

lemma unat_pg_ofs: "unat (pg_ofs va) = unat va mod 4096"
  by (simp add: pg_ofs_take_bit take_bit_eq_mod unat_mod_distrib)

lemma unat_pg_no: "unat (pg_no va) = unat va div 4096"
  by (simp add: pg_no_def PGBITS_def drop_bit_eq_div unat_div_distrib)

lemma pg_ofs_0_iff: "pg_ofs va = 0 \<longleftrightarrow> 4096 dvd unat va"
  by (metis unat_pg_ofs dvd_eq_mod_eq_0 unat_eq_0)

lemma and_not_PGMASK: "va AND NOT PGMASK = push_bit 12 (drop_bit 12 va)"
  by (rule bit_word_eqI) (auto simp: PGMASK_mask bit_simps)

lemma unat_and_not_PGMASK: "unat (va AND NOT PGMASK) = unat va div 4096 * 4096"
proof -
  have "push_bit 12 (drop_bit 12 va) = va - take_bit 12 va"
    using bits_ident[of 12 va] by (simp add: algebra_simps)
  moreover have "take_bit 12 va \<le> va"
    by (simp add: word_le_nat_alt take_bit_eq_mod unat_mod_distrib)
  ultimately have "unat (va AND NOT PGMASK) = unat va - unat va mod 4096"
    by (simp add: and_not_PGMASK unat_sub take_bit_eq_mod unat_mod_distrib)
  then show ?thesis by (simp add: minus_mod_eq_div_mult)
qed

lemma pg_round_down_le: "unat (pg_round_down va) \<le> unat va"
  and pg_round_down_aligned: "pg_ofs (pg_round_down va) = 0"
  by (simp_all add: pg_round_down_def unat_and_not_PGMASK pg_ofs_0_iff)

text \<open>Rounding up gives the least page boundary that is not below the address, unless the sum wraps.\<close>

lemma unat_pg_round_up:
  assumes "unat va + 4095 < 2 ^ 32"
  shows "unat (pg_round_up va) = (unat va + 4095) div 4096 * 4096"
proof -
  have "unat (va + 4095) = unat va + 4095"
    using assms by (subst unat_add_lem[THEN iffD1]) auto
  then have "unat (va + PGSIZE - 1) = unat va + 4095"
    by (simp add: PGSIZE_eq add.commute)
  then show ?thesis
    by (simp add: pg_round_up_def unat_and_not_PGMASK)
qed

section \<open>Kernel addresses\<close>

lemma unat_PHYS_BASE: "unat PHYS_BASE = 0xc0000000"
  by (simp add: PHYS_BASE_def)

lemma vtop_ptov:
  assumes "paddr < 0x40000000"
  shows "rbind (ptov paddr) vtop = Inr paddr"
proof -
  have "unat (paddr + PHYS_BASE) = unat paddr + unat PHYS_BASE"
    using assms by (subst unat_add_lem[THEN iffD1]) (auto simp: word_less_nat_alt unat_PHYS_BASE)
  then have "PHYS_BASE \<le> paddr + PHYS_BASE"
    by (simp add: word_le_nat_alt)
  moreover have "paddr < PHYS_BASE"
    using assms by (simp add: PHYS_BASE_def word_less_nat_alt)
  ultimately show ?thesis
    by (simp add: ptov_def vtop_def is_kernel_vaddr_def)
qed

lemma vtop_less:
  assumes "vtop va = Inr p"
  shows "unat p = unat va - 0xc0000000" and "unat p < 0x40000000" and "p + PHYS_BASE = va"
proof -
  have "PHYS_BASE \<le> va" and p: "p = va - PHYS_BASE"
    using assms by (auto simp: vtop_def is_kernel_vaddr_def)
  then show "unat p = unat va - 0xc0000000"
    by (simp add: unat_sub unat_PHYS_BASE)
  then show "unat p < 0x40000000"
    using unat_bound32[of va] by simp
  show "p + PHYS_BASE = va" using p by simp
qed

lemma ptov_vtop: "vtop va = Inr p \<Longrightarrow> ptov p = Inr va"
  using vtop_less[of va p] by (simp add: ptov_def word_less_nat_alt unat_PHYS_BASE)

section \<open>Splitting an address\<close>

lemma pt_no_eq: "pt_no va = take_bit 10 (drop_bit 12 va)"
proof -
  have PTMASK: "PTMASK = push_bit 12 (mask 10)"
    by (simp add: PTMASK_def BITMASK_def PGBITS_def PTBITS_def mask_eq_exp_minus_1)
  show ?thesis
    unfolding pt_no_def PTMASK PGBITS_def by (rule bit_word_eqI) (auto simp: bit_simps)
qed

lemma unat_pt_no: "unat (pt_no va) = unat va div 4096 mod 1024"
  by (simp add: pt_no_eq take_bit_eq_mod drop_bit_eq_div unat_div_distrib unat_mod_distrib)

lemma unat_pd_no: "unat (pd_no va) = unat va div 4194304"
  by (simp add: pd_no_def PDSHIFT_def PGBITS_def PTBITS_def drop_bit_eq_div unat_div_distrib)

lemma vaddr_split: "unat va = unat (pd_no va) * 4194304 + unat (pt_no va) * 4096 + unat (pg_ofs va)"
proof -
  let ?q = "unat va div 4096"
  have "unat va div 4194304 = ?q div 1024"
    using div_mult2_eq[of "unat va" 4096 1024] by simp
  moreover have "unat va = ?q * 4096 + unat va mod 4096" and "?q = ?q div 1024 * 1024 + ?q mod 1024"
    by simp_all
  ultimately show ?thesis
    unfolding unat_pd_no unat_pt_no unat_pg_ofs by linarith
qed

lemma pt_no_bound: "unat (pt_no va) < 1024"
  and pd_no_bound: "unat (pd_no va) < 1024"
  using unat_bound32[of va] by (simp_all add: unat_pt_no unat_pd_no)

text \<open>Two addresses with the same page number use the same directory and table entry.\<close>

lemma pg_no_eq_iff: "pg_no va = pg_no va' \<longleftrightarrow> pd_no va = pd_no va' \<and> pt_no va = pt_no va'"
proof -
  let ?q = "unat va div 4096" and ?r = "unat va' div 4096"
  have "?q = ?r \<longleftrightarrow> ?q div 1024 = ?r div 1024 \<and> ?q mod 1024 = ?r mod 1024"
    by (metis div_mult_mod_eq)
  moreover have "n div 4194304 = n div 4096 div 1024" for n :: nat
    using div_mult2_eq[of n 4096 1024] by simp
  ultimately show ?thesis
    by (simp add: word_unat_eq_iff unat_pg_no unat_pd_no unat_pt_no)
qed

section \<open>Entries\<close>

lemma aligned_low_bits:
  assumes "pg_ofs p = 0"
  shows "n < 12 \<Longrightarrow> \<not> bit p n"
  using assms by (metis bit_take_bit_iff pg_ofs_take_bit bit_0_eq bot_apply bot_bool_def)

lemma entry_addr:
  assumes "pg_ofs p = 0" and "f AND PTE_ADDR = 0"
  shows "(p OR f) AND PTE_ADDR = p"
proof -
  have PTE_ADDR: "PTE_ADDR = NOT (mask 12)" by (simp add: PTE_ADDR_def mask_eq_exp_minus_1)
  have "p AND PTE_ADDR = p"
    unfolding PTE_ADDR using aligned_low_bits[OF assms(1)]
    by (intro bit_word_eqI) (auto simp: bit_simps)
  then show ?thesis using assms(2) by (simp add: bit.conj_disj_distrib2)
qed

lemma vtop_aligned: "pg_ofs va = 0 \<Longrightarrow> vtop va = Inr p \<Longrightarrow> pg_ofs p = 0"
  using vtop_less[of va p] by (auto simp: pg_ofs_0_iff dvd_diff_nat)

lemma flags_addr [simp]:
  "PTE_P AND PTE_ADDR = 0" "PTE_W AND PTE_ADDR = 0" "PTE_U AND PTE_ADDR = 0"
  "PTE_A AND PTE_ADDR = 0" "PTE_D AND PTE_ADDR = 0"
  by (simp_all add: PTE_P_def PTE_W_def PTE_U_def PTE_A_def PTE_D_def PTE_ADDR_def)

lemma pte_create_kernel_ok:
  assumes "pte_create_kernel page w = Inr pte"
  shows "\<exists>p. vtop page = Inr p \<and> pte = p OR PTE_P OR (if w then PTE_W else 0) \<and> pg_ofs p = 0"
  using assms vtop_aligned[of page] by (auto simp: pte_create_kernel_def)

lemma pte_create_user_get:
  assumes "pte_create_user page w = Inr pte"
  shows "pte_get_page pte = Inr page"
proof -
  obtain p where p: "vtop page = Inr p" "pg_ofs p = 0"
      and pte: "pte = p OR (PTE_P OR (if w then PTE_W else 0) OR PTE_U)"
    using assms pte_create_kernel_ok[of page w] by (auto simp: pte_create_user_def or.assoc)
  have "pte AND PTE_ADDR = p"
    unfolding pte by (rule entry_addr) (auto simp: p(2) bit.conj_disj_distrib2)
  then show ?thesis using ptov_vtop[OF p(1)] by (simp add: pte_get_page_def)
qed

lemma pde_create_get:
  assumes "pde_create pt = Inr pde"
  shows "pde_get_pt pde = Inr pt"
proof -
  obtain p where p: "vtop pt = Inr p" "pg_ofs p = 0" and pde: "pde = p OR (PTE_U OR PTE_P OR PTE_W)"
    using assms vtop_aligned[of pt] by (auto simp: pde_create_def or.assoc)
  have "pde AND PTE_ADDR = p"
    unfolding pde by (rule entry_addr) (auto simp: p(2) bit.conj_disj_distrib2)
  moreover have "bit (pde AND PTE_P) 0"
    by (simp add: pde bit_simps PTE_P_def bit_1_iff)
  then have "pde AND PTE_P \<noteq> 0" by auto
  ultimately show ?thesis using ptov_vtop[OF p(1)] by (simp add: pde_get_pt_def)
qed

end
