(* ===== verification/Memory.thy ===== *)
theory Memory
  imports Vaddr
begin

text \<open>
  Byte-addressed memory and the block functions of \<open>src/lib/string.c\<close>: \<open>memcpy\<close>,
  \<open>memmove\<close>, \<open>memcmp\<close>, \<open>memchr\<close> and \<open>memset\<close>, each as the loop of the source over 32-bit
  pointers. The lemmas give the memory after each call as a function of the memory before
  it, for overlapping blocks too.
\<close>

type_synonym byte = "8 word"
type_synonym memory = "addr \<Rightarrow> byte"

definition NULL :: addr where
  "NULL = 0"

section \<open>The loops of string.c\<close>

text \<open>\<open>while (size-- > 0) *dst++ = *src++;\<close>\<close>

primrec copy_up :: "memory \<Rightarrow> addr \<Rightarrow> addr \<Rightarrow> nat \<Rightarrow> memory" where
  "copy_up m dst src 0 = m"
| "copy_up m dst src (Suc n) = copy_up (m(dst := m src)) (dst + 1) (src + 1) n"

text \<open>\<open>while (size-- > 0) *--dst = *--src;\<close>\<close>

primrec copy_down :: "memory \<Rightarrow> addr \<Rightarrow> addr \<Rightarrow> nat \<Rightarrow> memory" where
  "copy_down m dst src 0 = m"
| "copy_down m dst src (Suc n) = copy_down (m(dst - 1 := m (src - 1))) (dst - 1) (src - 1) n"

definition memcpy :: "memory \<Rightarrow> addr \<Rightarrow> addr \<Rightarrow> nat \<Rightarrow> (addr \<times> memory) result" where
  "memcpy m dst src sz =
     rbind (rassert (dst \<noteq> NULL \<or> sz = 0)) (\<lambda>_.
     rbind (rassert (src \<noteq> NULL \<or> sz = 0)) (\<lambda>_.
     Inr (dst, copy_up m dst src sz)))"

text \<open>
  The function returns \<open>dst\<close>, which the first loop has moved past the copied bytes and the
  second has moved back to the start.
\<close>

definition memmove :: "memory \<Rightarrow> addr \<Rightarrow> addr \<Rightarrow> nat \<Rightarrow> (addr \<times> memory) result" where
  "memmove m dst src sz =
     rbind (rassert (dst \<noteq> NULL \<or> sz = 0)) (\<lambda>_.
     rbind (rassert (src \<noteq> NULL \<or> sz = 0)) (\<lambda>_.
     if dst < src then Inr (dst + of_nat sz, copy_up m dst src sz)
     else Inr (dst, copy_down m (dst + of_nat sz) (src + of_nat sz) sz)))"

primrec memcmp_loop :: "memory \<Rightarrow> addr \<Rightarrow> addr \<Rightarrow> nat \<Rightarrow> int" where
  "memcmp_loop m a b 0 = 0"
| "memcmp_loop m a b (Suc n) =
     (if m a \<noteq> m b then (if m a > m b then 1 else -1) else memcmp_loop m (a + 1) (b + 1) n)"

definition memcmp :: "memory \<Rightarrow> addr \<Rightarrow> addr \<Rightarrow> nat \<Rightarrow> int result" where
  "memcmp m a b sz =
     rbind (rassert (a \<noteq> NULL \<or> sz = 0)) (\<lambda>_.
     rbind (rassert (b \<noteq> NULL \<or> sz = 0)) (\<lambda>_.
     Inr (memcmp_loop m a b sz)))"

primrec memchr_loop :: "memory \<Rightarrow> addr \<Rightarrow> byte \<Rightarrow> nat \<Rightarrow> addr" where
  "memchr_loop m block ch 0 = NULL"
| "memchr_loop m block ch (Suc n) = (if m block = ch then block else memchr_loop m (block + 1) ch n)"

definition memchr :: "memory \<Rightarrow> addr \<Rightarrow> byte \<Rightarrow> nat \<Rightarrow> addr result" where
  "memchr m block ch sz =
     rbind (rassert (block \<noteq> NULL \<or> sz = 0)) (\<lambda>_. Inr (memchr_loop m block ch sz))"

primrec fill_up :: "memory \<Rightarrow> addr \<Rightarrow> byte \<Rightarrow> nat \<Rightarrow> memory" where
  "fill_up m dst v 0 = m"
| "fill_up m dst v (Suc n) = fill_up (m(dst := v)) (dst + 1) v n"

definition memset :: "memory \<Rightarrow> addr \<Rightarrow> byte \<Rightarrow> nat \<Rightarrow> (addr \<times> memory) result" where
  "memset m dst v sz =
     rbind (rassert (dst \<noteq> NULL \<or> sz = 0)) (\<lambda>_. Inr (dst, fill_up m dst v sz))"

section \<open>Blocks\<close>

text \<open>\<open>x\<close> lies in the \<open>n\<close> bytes at \<open>a\<close>; the distance \<open>x - a\<close> wraps like the pointers.\<close>

definition in_block :: "addr \<Rightarrow> nat \<Rightarrow> addr \<Rightarrow> bool" where
  "in_block a n x \<longleftrightarrow> unat (x - a) < n"

lemma in_block_0 [simp]: "\<not> in_block a 0 x"
  by (simp add: in_block_def)

lemma in_block_offset: "i < n \<Longrightarrow> n \<le> 2 ^ 32 \<Longrightarrow> in_block a n (a + of_nat i)"
  by (simp add: in_block_def unat_of_nat)

lemma in_block_iff:
  assumes "n \<le> 2 ^ 32"
  shows "in_block a n x \<longleftrightarrow> (\<exists>i<n. x = a + of_nat i)"
proof
  assume "in_block a n x"
  then show "\<exists>i<n. x = a + of_nat i"
    by (intro exI[of _ "unat (x - a)"]) (simp add: in_block_def)
qed (use assms in_block_offset in auto)

lemma unat_minus_step: "x \<noteq> d \<Longrightarrow> unat (x - d) = Suc (unat (x - (d + 1)))" for x d :: addr
  using unat_minus_one[of "x - d"] unat_gt_0[of "x - d"] by (simp add: diff_diff_eq)

lemma in_block_Suc:
  assumes "Suc n \<le> 2 ^ 32"
  shows "in_block a (Suc n) x \<longleftrightarrow> x = a \<or> in_block (a + 1) n x"
  using assms unat_minus_step[of x a] by (cases "x = a") (auto simp: in_block_def)

lemma in_block_self: "n < 2 ^ 32 \<Longrightarrow> \<not> in_block (a + 1) n a"
  by (simp add: in_block_def unsigned_minus_1_eq_mask mask_eq_exp_minus_1)

section \<open>What the loops do\<close>

lemma fill_up_eq:
  assumes "n \<le> 2 ^ 32"
  shows "fill_up m a v n = (\<lambda>x. if in_block a n x then v else m x)"
  using assms
proof (induction n arbitrary: m a)
  case (Suc n)
  then show ?case
    using in_block_Suc[of n a] by (auto simp: fun_eq_iff)
qed (simp add: fun_eq_iff)

text \<open>An upward copy is right when no write lands on a byte that is still to be read.\<close>

lemma copy_up_eq:
  assumes "n \<le> 2 ^ 32" and "\<And>i j. i < j \<Longrightarrow> j < n \<Longrightarrow> d + of_nat i \<noteq> s + of_nat j"
  shows "copy_up m d s n = (\<lambda>x. if in_block d n x then m (s + (x - d)) else m x)"
  using assms
proof (induction n arbitrary: m d s)
  case (Suc n)
  have IH: "copy_up (m(d := m s)) (d + 1) (s + 1) n =
      (\<lambda>x. if in_block (d + 1) n x then (m(d := m s)) (s + 1 + (x - (d + 1))) else (m(d := m s)) x)"
    using Suc.prems(2)[of "Suc i" "Suc j" for i j] Suc.prems(1) by (intro Suc.IH) (auto simp: algebra_simps)
  have safe: "s + (x - d) \<noteq> d" if "in_block (d + 1) n x" for x
  proof -
    have "x \<noteq> d" using in_block_self[of n d] that Suc.prems(1) by auto
    then have "unat (x - d) < Suc n" "0 < unat (x - d)"
      using that unat_minus_step[of x d] by (auto simp: in_block_def)
    then show ?thesis using Suc.prems(2)[of 0 "unat (x - d)"] by auto
  qed
  show ?case
    using IH safe in_block_Suc[OF Suc.prems(1), of d] in_block_self[of n d] Suc.prems(1)
    by (auto simp: fun_eq_iff)
qed (simp add: fun_eq_iff)

lemma copy_down_eq:
  assumes "n \<le> 2 ^ 32" and "\<And>i j. j < i \<Longrightarrow> i < n \<Longrightarrow> d + of_nat i \<noteq> s + of_nat j"
  shows "copy_down m (d + of_nat n) (s + of_nat n) n = (\<lambda>x. if in_block d n x then m (s + (x - d)) else m x)"
  using assms
proof (induction n arbitrary: m)
  case (Suc n)
  let ?m = "m(d + of_nat n := m (s + of_nat n))"
  have IH: "copy_down ?m (d + of_nat n) (s + of_nat n) n = (\<lambda>x. if in_block d n x then ?m (s + (x - d)) else ?m x)"
    using Suc.prems by (intro Suc.IH) auto
  have last_i: "in_block d (Suc n) x \<longleftrightarrow> in_block d n x \<or> x = d + of_nat n" for x
    using in_block_iff[of n d x] in_block_iff[of "Suc n" d x] Suc.prems(1) by (auto simp: less_Suc_eq)
  have safe: "s + (x - d) \<noteq> d + of_nat n" if "in_block d n x" for x
    using that Suc.prems(2)[of "unat (x - d)" n] by (auto simp: in_block_def)
  have "\<not> in_block d n (d + of_nat n)"
    using Suc.prems(1) by (simp add: in_block_def unat_of_nat)
  then show ?case
    using IH safe last_i by (auto simp: fun_eq_iff)
qed (simp add: fun_eq_iff)

lemma unat_add_of_nat: "unat p + i < 2 ^ 32 \<Longrightarrow> unat (p + of_nat i) = unat p + i" for p :: addr
  by (simp add: unat_word_ariths unat_of_nat)

lemma memset_ok:
  assumes "p \<noteq> NULL" and "n \<le> 2 ^ 32"
  shows "memset m p v n = Inr (p, \<lambda>x. if in_block p n x then v else m x)"
  using assms by (simp add: memset_def fill_up_eq)

lemma memcpy_ok:
  assumes "d \<noteq> NULL" "s \<noteq> NULL" and "n \<le> 2 ^ 32" and "\<And>x. \<not> (in_block d n x \<and> in_block s n x)"
  shows "memcpy m d s n = Inr (d, \<lambda>x. if in_block d n x then m (s + (x - d)) else m x)"
proof -
  have "d + of_nat i \<noteq> s + of_nat j" if "i < j" "j < n" for i j
    using that in_block_offset[of i n d] in_block_offset[of j n s] assms(3,4) by (metis order.strict_trans)
  then show ?thesis using assms by (simp add: memcpy_def copy_up_eq)
qed

text \<open>The bytes moved by \<open>memmove\<close> are right for every overlap of blocks that do not wrap.\<close>

lemma memmove_bytes:
  assumes "d \<noteq> NULL" "s \<noteq> NULL" and d: "unat d + n \<le> 2 ^ 32" and s: "unat s + n \<le> 2 ^ 32"
  shows "memmove m d s n =
    Inr (if d < s then d + of_nat n else d, \<lambda>x. if in_block d n x then m (s + (x - d)) else m x)"
proof (cases "d < s")
  case True
  have "d + of_nat i \<noteq> s + of_nat j" if "i < j" "j < n" for i j
    using that True d s unat_add_of_nat[of d i] unat_add_of_nat[of s j]
    by (auto simp: word_unat_eq_iff word_less_nat_alt)
  then show ?thesis using True assms by (simp add: memmove_def copy_up_eq)
next
  case False
  have "d + of_nat i \<noteq> s + of_nat j" if "j < i" "i < n" for i j
    using that False d s unat_add_of_nat[of d i] unat_add_of_nat[of s j]
    by (auto simp: word_unat_eq_iff word_less_nat_alt)
  then show ?thesis using False assms by (simp add: memmove_def copy_down_eq)
qed

lemma memcmp_loop_0_iff:
  "memcmp_loop m a b n = 0 \<longleftrightarrow> (\<forall>i<n. m (a + of_nat i) = m (b + of_nat i))"
proof (induction n arbitrary: a b)
  case (Suc n)
  then show ?case by (auto simp: All_less_Suc2 algebra_simps)
qed simp

end
