(* ===== verification/Palloc.thy ===== *)
theory Palloc
  imports Bitmap_Scan Memory
begin

text \<open>
  The page allocator of \<open>src/threads/palloc.c\<close>: two pools of pages, each with a bitmap of
  used pages, a lock and a base address. The state of one call is the two pools, the static
  state of \<open>bitmap_scan\<close> and the bytes of memory, which \<open>PAL_ZERO\<close> and the debugging
  \<open>memset\<close> of a free change. The lemmas on allocation are proved once for every scan policy
  that satisfies the contract \<open>scan_policy\<close> and then obtained for first, next and best fit.
\<close>

section \<open>State\<close>

text \<open>
  A call runs to its end with the pool's lock taken and given back inside it; the lock is
  the flag that \<open>lock_acquire\<close> asserts to be clear for the calling thread.
\<close>

record pool =
  pool_lock :: bool
  used_map :: bitmap
  base :: addr

record palloc_state =
  kernel_pool :: pool
  user_pool :: pool
  scan :: scan_state
  ram :: memory

type_synonym palloc_flags = "32 word"

definition PAL_ASSERT :: palloc_flags where
  "PAL_ASSERT = 1"

definition PAL_ZERO :: palloc_flags where
  "PAL_ZERO = 2"

definition PAL_USER :: palloc_flags where
  "PAL_USER = 4"

definition pool_acquire :: "pool \<Rightarrow> pool result" where
  "pool_acquire p = rbind (rassert (\<not> pool_lock p)) (\<lambda>_. Inr (p\<lparr>pool_lock := True\<rparr>))"

definition pool_release :: "pool \<Rightarrow> pool result" where
  "pool_release p = rbind (rassert (pool_lock p)) (\<lambda>_. Inr (p\<lparr>pool_lock := False\<rparr>))"

definition get_pool :: "palloc_state \<Rightarrow> bool \<Rightarrow> pool" where
  "get_pool s user = (if user then user_pool s else kernel_pool s)"

definition put_pool :: "bool \<Rightarrow> pool \<Rightarrow> palloc_state \<Rightarrow> palloc_state" where
  "put_pool user p s = (if user then s\<lparr>user_pool := p\<rparr> else s\<lparr>kernel_pool := p\<rparr>)"

section \<open>Operations\<close>

text \<open>The words that the memory holds at an address, before the bitmap is cleared there.\<close>

definition load32 :: "memory \<Rightarrow> addr \<Rightarrow> 32 word" where
  "load32 m a = ucast (m a) OR push_bit 8 (ucast (m (a + 1)))
     OR push_bit 16 (ucast (m (a + 2))) OR push_bit 24 (ucast (m (a + 3)))"

definition load_words :: "memory \<Rightarrow> addr \<Rightarrow> nat \<Rightarrow> elem_type list" where
  "load_words m a n = map (\<lambda>i. load32 m (a + 4 * of_nat i)) [0..<n]"

definition init_pool :: "memory \<Rightarrow> addr \<Rightarrow> nat \<Rightarrow> pool result" where
  "init_pool m start page_cnt =
     (let bm_pages = DIV_ROUND_UP (bitmap_buf_size page_cnt) (unat PGSIZE)
      in if bm_pages > page_cnt then Inl Panic
         else
           let page_cnt = sz_sub page_cnt bm_pages
           in rbind (bitmap_create_in_buf page_cnt (load_words m (start + 8) (elem_cnt page_cnt))
                       (sz_mul bm_pages (unat PGSIZE))) (\<lambda>bm.
              Inr \<lparr>pool_lock = False, used_map = bm, base = start + of_nat bm_pages * PGSIZE\<rparr>))"

text \<open>\<open>free_end - free_start\<close> is a signed difference, divided towards zero.\<close>

definition palloc_init :: "nat \<Rightarrow> nat \<Rightarrow> scan_state \<Rightarrow> memory \<Rightarrow> palloc_state result" where
  "palloc_init init_ram_pages user_page_limit sc m =
     rbind (ptov (1024 * 1024)) (\<lambda>free_start.
     rbind (ptov (of_nat init_ram_pages * PGSIZE)) (\<lambda>free_end.
     let free_pages =
           (if free_start \<le> free_end then unat (free_end - free_start) div unat PGSIZE
            else sz_sub 0 (unat (free_start - free_end) div unat PGSIZE));
         user_pages = (if free_pages div 2 > user_page_limit then user_page_limit else free_pages div 2);
         kernel_pages = sz_sub free_pages user_pages
     in rbind (init_pool m free_start kernel_pages) (\<lambda>kp.
        rbind (init_pool m (free_start + of_nat kernel_pages * PGSIZE) user_pages) (\<lambda>up.
        Inr \<lparr>kernel_pool = kp, user_pool = up, scan = sc, ram = m\<rparr>))))"

text \<open>The lines after the lock is released: the address of the pages, and their contents.\<close>

definition deliver_pages ::
    "palloc_flags \<Rightarrow> nat \<Rightarrow> addr \<Rightarrow> nat \<Rightarrow> palloc_state \<Rightarrow> (addr \<times> palloc_state) result" where
  "deliver_pages flags page_cnt pool_base page_idx s =
     (let pages = (if page_idx \<noteq> BITMAP_ERROR then pool_base + PGSIZE * of_nat page_idx else NULL)
      in if pages \<noteq> NULL then
           (if flags AND PAL_ZERO \<noteq> 0 then
              rbind (memset (ram s) pages 0 (sz_mul (unat PGSIZE) page_cnt)) (\<lambda>(_, m).
              Inr (pages, s\<lparr>ram := m\<rparr>))
            else Inr (pages, s))
         else if flags AND PAL_ASSERT \<noteq> 0 then Inl Panic
         else Inr (pages, s))"

definition palloc_get_multiple ::
    "palloc_flags \<Rightarrow> nat \<Rightarrow> palloc_state \<Rightarrow> (addr \<times> palloc_state) result option" where
  "palloc_get_multiple flags page_cnt s =
     (let user = (flags AND PAL_USER \<noteq> 0)
      in if page_cnt = 0 then Some (Inr (NULL, s))
         else case pool_acquire (get_pool s user) of
           Inl e \<Rightarrow> Some (Inl e)
         | Inr p \<Rightarrow>
             map_option (\<lambda>r. rbind r (\<lambda>(page_idx, bm, sc).
               rbind (pool_release (p\<lparr>used_map := bm\<rparr>)) (\<lambda>p.
               deliver_pages flags page_cnt (base p) page_idx (put_pool user p (s\<lparr>scan := sc\<rparr>)))))
               (bitmap_scan_and_flip (scan s) (used_map p) 0 page_cnt False))"

definition palloc_get_page :: "palloc_flags \<Rightarrow> palloc_state \<Rightarrow> (addr \<times> palloc_state) result option" where
  "palloc_get_page flags s = palloc_get_multiple flags 1 s"

definition page_from_pool :: "pool \<Rightarrow> addr \<Rightarrow> bool" where
  "page_from_pool p page \<longleftrightarrow>
     (let page_no = pg_no page; start_page = pg_no (base p);
          end_page = start_page + of_nat (bitmap_size (used_map p))
      in start_page \<le> page_no \<and> page_no < end_page)"

text \<open>The lines after the choice of the pool.\<close>

definition free_in_pool :: "bool \<Rightarrow> addr \<Rightarrow> nat \<Rightarrow> palloc_state \<Rightarrow> palloc_state result" where
  "free_in_pool user pages page_cnt s =
     (let p = get_pool s user; page_idx = unat (pg_no pages - pg_no (base p))
      in rbind (memset (ram s) pages 0xcc (sz_mul (unat PGSIZE) page_cnt)) (\<lambda>(_, m).
         rbind (bitmap_all (used_map p) page_idx page_cnt) (\<lambda>a.
         rbind (rassert a) (\<lambda>_.
         rbind (bitmap_set_multiple (used_map p) page_idx page_cnt False) (\<lambda>bm.
         Inr (put_pool user (p\<lparr>used_map := bm\<rparr>) (s\<lparr>ram := m\<rparr>)))))))"

definition palloc_free_multiple :: "addr \<Rightarrow> nat \<Rightarrow> palloc_state \<Rightarrow> palloc_state result" where
  "palloc_free_multiple pages page_cnt s =
     rbind (rassert (pg_ofs pages = 0)) (\<lambda>_.
     if pages = NULL \<or> page_cnt = 0 then Inr s
     else if page_from_pool (kernel_pool s) pages then free_in_pool False pages page_cnt s
     else if page_from_pool (user_pool s) pages then free_in_pool True pages page_cnt s
     else Inl Not_reached)"

definition palloc_free_page :: "addr \<Rightarrow> palloc_state \<Rightarrow> palloc_state result" where
  "palloc_free_page page s = palloc_free_multiple page 1 s"

section \<open>Invariant\<close>

definition pool_ok :: "pool \<Rightarrow> bool list \<Rightarrow> bool" where
  "pool_ok p xs \<longleftrightarrow> represents (used_map p) xs \<and> \<not> pool_lock p \<and> pg_ofs (base p) = 0 \<and> base p \<noteq> NULL
     \<and> unat (base p) + 4096 * length xs \<le> 2 ^ 32"

text \<open>
  \<open>palloc_ok pol s xs\<close>: \<open>xs False\<close> and \<open>xs True\<close> are the used flags of the kernel and the
  user pool, and the pages of the kernel pool come before those of the user pool.
\<close>

definition palloc_ok :: "selector \<Rightarrow> palloc_state \<Rightarrow> (bool \<Rightarrow> bool list) \<Rightarrow> bool" where
  "palloc_ok pol s xs \<longleftrightarrow> Select (scan s) = pol \<and> lastestAlloc (scan s) < 2 ^ 31
     \<and> (\<forall>u. pool_ok (get_pool s u) (xs u))
     \<and> unat (base (kernel_pool s)) + 4096 * length (xs False) \<le> unat (base (user_pool s))"

definition page_addr :: "pool \<Rightarrow> nat \<Rightarrow> addr" where
  "page_addr p i = base p + PGSIZE * of_nat i"

lemma get_put_pool [simp]: "get_pool (put_pool u p s) v = (if u = v then p else get_pool s v)"
  by (simp add: get_pool_def put_pool_def)

lemma get_pool_update [simp]:
  "get_pool (s\<lparr>scan := sc\<rparr>) u = get_pool s u" "get_pool (s\<lparr>ram := m\<rparr>) u = get_pool s u"
  by (simp_all add: get_pool_def)

lemma put_pool_simps [simp]:
  "scan (put_pool u p s) = scan s" "ram (put_pool u p s) = ram s"
  "(put_pool u p s)\<lparr>ram := m\<rparr> = put_pool u p (s\<lparr>ram := m\<rparr>)"
  by (simp_all add: put_pool_def)

lemma get_pool_kernel_user: "kernel_pool s = get_pool s False" "user_pool s = get_pool s True"
  by (simp_all add: get_pool_def)

lemma pool_ok_length: "pool_ok p xs \<Longrightarrow> length xs < 2 ^ 31"
  by (simp add: pool_ok_def)

lemma unat_page_addr:
  assumes "pool_ok p xs" and "i < length xs"
  shows "unat (page_addr p i) = unat (base p) + 4096 * i"
proof -
  have "unat (base p) + 4096 * i < 2 ^ 32" using assms by (simp add: pool_ok_def)
  then show ?thesis
    using unat_add_of_nat[of "base p" "4096 * i"] by (simp add: page_addr_def PGSIZE_eq)
qed

lemma page_addr_nonnull: "pool_ok p xs \<Longrightarrow> i < length xs \<Longrightarrow> page_addr p i \<noteq> NULL"
  using unat_page_addr[of p xs i] by (auto simp: pool_ok_def NULL_def unat_eq_0)

lemma page_addr_aligned: "pool_ok p xs \<Longrightarrow> i < length xs \<Longrightarrow> pg_ofs (page_addr p i) = 0"
  using unat_page_addr[of p xs i] by (simp add: pool_ok_def pg_ofs_0_iff)

lemma unat_pg_no_page_addr:
  "pool_ok p xs \<Longrightarrow> i < length xs \<Longrightarrow> unat (pg_no (page_addr p i)) = unat (pg_no (base p)) + i"
  using unat_page_addr[of p xs i] by (simp add: unat_pg_no)

lemma page_idx_page_addr:
  assumes "pool_ok p xs" and "i < length xs"
  shows "unat (pg_no (page_addr p i) - pg_no (base p)) = i"
proof -
  have "pg_no (base p) \<le> pg_no (page_addr p i)"
    using unat_pg_no_page_addr[OF assms] by (simp add: word_le_nat_alt)
  then show ?thesis using unat_pg_no_page_addr[OF assms] by (simp add: unat_sub)
qed

lemma page_from_pool_iff:
  assumes "pool_ok p xs"
  shows "page_from_pool p page \<longleftrightarrow>
    unat (pg_no (base p)) \<le> unat (pg_no page) \<and> unat (pg_no page) < unat (pg_no (base p)) + length xs"
proof -
  have "unat (pg_no (base p)) + length xs < 2 ^ 32" and "bitmap_size (used_map p) = length xs"
    using assms unat_bound32[of "base p"] represents_length[of "used_map p" xs]
    by (auto simp: pool_ok_def unat_pg_no bitmap_size_def)
  then show ?thesis
    using unat_add_of_nat[of "pg_no (base p)" "length xs"]
    by (simp add: page_from_pool_def Let_def word_le_nat_alt word_less_nat_alt)
qed

lemma page_from_own_pool: "pool_ok p xs \<Longrightarrow> i < length xs \<Longrightarrow> page_from_pool p (page_addr p i)"
  by (simp add: page_from_pool_iff unat_pg_no_page_addr)

lemma palloc_ok_pool: "palloc_ok pol s xs \<Longrightarrow> pool_ok (get_pool s u) (xs u)"
  by (simp add: palloc_ok_def)

lemma user_page_not_kernel:
  assumes "palloc_ok pol s xs" and "i < length (xs True)"
  shows "\<not> page_from_pool (kernel_pool s) (page_addr (user_pool s) i)"
proof -
  have k: "pool_ok (kernel_pool s) (xs False)" and u: "pool_ok (user_pool s) (xs True)"
    using palloc_ok_pool[OF assms(1)] by (simp_all add: get_pool_kernel_user)
  have "unat (pg_no (base (kernel_pool s))) + length (xs False) \<le> unat (pg_no (base (user_pool s)))"
    using assms(1) k u by (auto simp: palloc_ok_def pool_ok_def unat_pg_no pg_ofs_0_iff elim!: dvdE)
  then show ?thesis
    using page_from_pool_iff[OF k] unat_pg_no_page_addr[OF u assms(2)] by simp
qed

lemma palloc_ok_put:
  assumes "palloc_ok pol s xs" and "represents bm ys" and "length ys = length (xs u)"
    and "Select sc = pol" and "lastestAlloc sc < 2 ^ 31"
  shows "palloc_ok pol (put_pool u ((get_pool s u)\<lparr>used_map := bm\<rparr>) (s\<lparr>scan := sc, ram := m\<rparr>)) (xs(u := ys))"
  using assms by (cases u) (simp_all add: palloc_ok_def pool_ok_def get_pool_def put_pool_def all_bool_eq)

lemma pool_bytes:
  assumes "pool_ok p xs" and "i + n \<le> length xs" and "0 < n"
  shows "sz_mul (unat PGSIZE) n = 4096 * n" and "unat (page_addr p i) + 4096 * n \<le> 2 ^ 32"
proof -
  have "0 < unat (base p)" using assms(1) by (auto simp: pool_ok_def NULL_def unat_gt_0)
  then have "4096 * n < 2 ^ 32" using assms by (simp add: pool_ok_def)
  then show "sz_mul (unat PGSIZE) n = 4096 * n" by (simp add: PGSIZE_eq sz_mul_exact)
  show "unat (page_addr p i) + 4096 * n \<le> 2 ^ 32"
    using assms unat_page_addr[OF assms(1), of i] by (simp add: pool_ok_def)
qed

section \<open>Free\<close>

definition filled :: "memory \<Rightarrow> addr \<Rightarrow> nat \<Rightarrow> byte \<Rightarrow> memory" where
  "filled m a n v = (\<lambda>x. if in_block a n x then v else m x)"

lemma memset_filled:
  assumes "pool_ok p xs" and "i + n \<le> length xs" and "0 < n"
  shows "memset m (page_addr p i) v (sz_mul (unat PGSIZE) n) = Inr (page_addr p i, filled m (page_addr p i) (4096 * n) v)"
  using pool_bytes[OF assms] page_addr_nonnull[OF assms(1), of i] assms memset_ok[of "page_addr p i" "4096 * n" m v]
  by (simp add: filled_def)

lemma free_in_pool_ok:
  assumes ok: "palloc_ok pol s xs" and used: "group (xs u) i n True" and n: "0 < n"
  defines "p \<equiv> get_pool s u"
  shows "\<exists>bm. free_in_pool u (page_addr p i) n s =
      Inr (put_pool u (p\<lparr>used_map := bm\<rparr>) (s\<lparr>ram := filled (ram s) (page_addr p i) (4096 * n) 0xcc\<rparr>))
    \<and> represents bm (set_range (xs u) i n False)"
proof -
  have p: "pool_ok p (xs u)" using palloc_ok_pool[OF ok] by (simp add: p_def)
  then have rep: "represents (used_map p) (xs u)" by (simp add: pool_ok_def)
  have i: "i + n \<le> length (xs u)" "i < length (xs u)" using used n by (auto simp: group_def)
  obtain bm where "bitmap_set_multiple (used_map p) i n False = Inr bm" "represents bm (set_range (xs u) i n False)"
    using bitmap_set_multiple_ok[OF rep i(1)] by blast
  moreover have "bitmap_all (used_map p) i n = Inr True"
    using bitmap_all_ok[OF rep i(1)] used by simp
  ultimately show ?thesis
    using memset_filled[OF p i(1) n] page_idx_page_addr[OF p i(2)]
    by (intro exI[of _ bm]) (simp add: free_in_pool_def Let_def p_def)
qed

lemma palloc_free_multiple_pool:
  assumes ok: "palloc_ok pol s xs" and i: "i < length (xs u)" and "0 < n"
  shows "palloc_free_multiple (page_addr (get_pool s u) i) n s = free_in_pool u (page_addr (get_pool s u) i) n s"
proof -
  let ?a = "page_addr (get_pool s u) i"
  note p = palloc_ok_pool[OF ok, of u]
  have "pg_ofs ?a = 0" "?a \<noteq> NULL" using page_addr_aligned[OF p i] page_addr_nonnull[OF p i] by auto
  moreover have "page_from_pool (get_pool s u) ?a" by (rule page_from_own_pool[OF p i])
  moreover have "u \<Longrightarrow> \<not> page_from_pool (kernel_pool s) ?a"
    using user_page_not_kernel[OF ok] i by (simp add: get_pool_def)
  ultimately show ?thesis
    using assms(3) by (cases u) (simp_all add: palloc_free_multiple_def get_pool_def)
qed

text \<open>Freeing pages that are in use succeeds and clears exactly their bits.\<close>

lemma palloc_free_multiple_ok:
  assumes ok: "palloc_ok pol s xs" and used: "group (xs u) i n True" and n: "0 < n"
  shows "\<exists>s'. palloc_free_multiple (page_addr (get_pool s u) i) n s = Inr s'
    \<and> palloc_ok pol s' (xs(u := set_range (xs u) i n False))
    \<and> (\<forall>v. base (get_pool s' v) = base (get_pool s v))
    \<and> ram s' = filled (ram s) (page_addr (get_pool s u) i) (4096 * n) 0xcc"
proof -
  let ?p = "get_pool s u" and ?m = "filled (ram s) (page_addr (get_pool s u) i) (4096 * n) 0xcc"
  have "i < length (xs u)" using used n by (auto simp: group_def)
  note free = palloc_free_multiple_pool[OF ok this n]
  obtain bm where eq: "free_in_pool u (page_addr ?p i) n s = Inr (put_pool u (?p\<lparr>used_map := bm\<rparr>) (s\<lparr>ram := ?m\<rparr>))"
      and bm: "represents bm (set_range (xs u) i n False)"
    using free_in_pool_ok[OF ok used n] by blast
  have "palloc_ok pol (put_pool u (?p\<lparr>used_map := bm\<rparr>) (s\<lparr>scan := scan s, ram := ?m\<rparr>)) (xs(u := set_range (xs u) i n False))"
    using ok by (intro palloc_ok_put[OF ok bm]) (auto simp: palloc_ok_def)
  then show ?thesis using free eq by simp
qed

text \<open>Freeing a page that is not in use is caught: the call asserts.\<close>

lemma palloc_free_multiple_double:
  assumes ok: "palloc_ok pol s xs" and i: "i + n \<le> length (xs u)" and n: "0 < n" and free: "\<not> group (xs u) i n True"
  shows "palloc_free_multiple (page_addr (get_pool s u) i) n s = Inl Assert_fail"
proof -
  note p = palloc_ok_pool[OF ok, of u]
  then have rep: "represents (used_map (get_pool s u)) (xs u)" by (simp add: pool_ok_def)
  have i': "i < length (xs u)" using i n by simp
  have "bitmap_all (used_map (get_pool s u)) i n = Inr False"
    using bitmap_all_ok[OF rep i] free by simp
  then show ?thesis
    using palloc_free_multiple_pool[OF ok i' n] memset_filled[OF p i n] page_idx_page_addr[OF p i']
    by (simp add: free_in_pool_def Let_def)
qed

lemma palloc_free_multiple_foreign:
  assumes "pg_ofs a = 0" "a \<noteq> NULL" "0 < n"
    and "\<not> page_from_pool (kernel_pool s) a" "\<not> page_from_pool (user_pool s) a"
  shows "palloc_free_multiple a n s = Inl Not_reached"
  using assms by (simp add: palloc_free_multiple_def)

section \<open>Allocation\<close>

text \<open>What a call that returns has done, given that the scan found a free group or nothing.\<close>

definition get_outcome :: "palloc_flags \<Rightarrow> nat \<Rightarrow> palloc_state \<Rightarrow> (bool \<Rightarrow> bool list) \<Rightarrow> addr \<Rightarrow> palloc_state \<Rightarrow> bool" where
  "get_outcome flags n s xs pages s' \<longleftrightarrow>
     (let u = (flags AND PAL_USER \<noteq> 0); p = get_pool s u; pol = Select (scan s) in
      (\<forall>v. base (get_pool s' v) = base (get_pool s v))
      \<and> (if pages = NULL then palloc_ok pol s' xs \<and> ram s' = ram s
         else \<exists>i. pages = page_addr p i \<and> group (xs u) i n False
           \<and> palloc_ok pol s' (xs(u := set_range (xs u) i n True))
           \<and> ram s' = (if flags AND PAL_ZERO \<noteq> 0 then filled (ram s) pages (4096 * n) 0 else ram s)))"

lemma palloc_get_outcome:
  assumes ok: "palloc_ok pol s xs" and n: "0 < n"
    and get: "palloc_get_multiple flags n s = Some (Inr (pages, s'))"
  defines "u \<equiv> flags AND PAL_USER \<noteq> 0"
  assumes flip: "\<And>r bm sc. bitmap_scan_and_flip (scan s) (used_map (get_pool s u)) 0 n False = Some (Inr (r, bm, sc)) \<Longrightarrow>
      Select sc = pol \<and> lastestAlloc sc < 2 ^ 31
      \<and> (r = BITMAP_ERROR \<and> bm = used_map (get_pool s u)
         \<or> r \<noteq> BITMAP_ERROR \<and> group (xs u) r n False \<and> represents bm (set_range (xs u) r n True))"
  shows "get_outcome flags n s xs pages s'"
proof -
  let ?p = "get_pool s u"
  note p = palloc_ok_pool[OF ok, of u]
  have pol: "Select (scan s) = pol" using ok by (simp add: palloc_ok_def)
  have unlocked: "\<not> pool_lock ?p" using p by (simp add: pool_ok_def)
  then have relock: "?p\<lparr>used_map := bm, pool_lock := False\<rparr> = ?p\<lparr>used_map := bm\<rparr>" for bm
    by (cases ?p) simp
  obtain r bm sc where scan: "bitmap_scan_and_flip (scan s) (used_map ?p) 0 n False = Some (Inr (r, bm, sc))"
      and res: "deliver_pages flags n (base ?p) r (put_pool u (?p\<lparr>used_map := bm\<rparr>) (s\<lparr>scan := sc\<rparr>)) = Inr (pages, s')"
    using get n unlocked relock
    by (auto simp: palloc_get_multiple_def Let_def pool_acquire_def pool_release_def simp flip: u_def)
  note post = flip[OF scan]
  show ?thesis
  proof (cases "r = BITMAP_ERROR")
    case True
    then have "pages = NULL" "s' = put_pool u (?p\<lparr>used_map := used_map ?p\<rparr>) (s\<lparr>scan := sc, ram := ram s\<rparr>)"
      using res post by (auto simp: deliver_pages_def Let_def split: if_splits)
    moreover have "palloc_ok pol s' xs"
      using palloc_ok_put[OF ok, of "used_map ?p" "xs u" u sc "ram s"] post p calculation(2) by (simp add: pool_ok_def)
    ultimately show ?thesis
      using pol by (simp add: get_outcome_def Let_def)
  next
    case False
    then have grp: "group (xs u) r n False" and bm: "represents bm (set_range (xs u) r n True)" using post by auto
    then have r: "r + n \<le> length (xs u)" "r < length (xs u)" using n by (auto simp: group_def)
    let ?m = "if flags AND PAL_ZERO \<noteq> 0 then filled (ram s) pages (4096 * n) 0 else ram s"
    have "pages = page_addr ?p r" "s' = put_pool u (?p\<lparr>used_map := bm\<rparr>) (s\<lparr>scan := sc, ram := ?m\<rparr>)"
      using res False page_addr_nonnull[OF p r(2)] memset_filled[OF p r(1) n, of "ram s" 0]
      by (auto simp: deliver_pages_def page_addr_def[symmetric] Let_def split: if_splits)
    moreover have "pages \<noteq> NULL" using page_addr_nonnull[OF p r(2)] calculation(1) by simp
    moreover have "palloc_ok pol s' (xs(u := set_range (xs u) r n True))"
      using palloc_ok_put[OF ok bm, of u sc ?m] post calculation(2) by simp
    moreover have "base (get_pool s' v) = base (get_pool s v)" for v
      using calculation(2) by simp
    moreover have "ram s' = ?m" using calculation(2) by simp
    ultimately show ?thesis
      using grp pol by (auto simp: get_outcome_def Let_def simp flip: u_def)
  qed
qed

context scan_policy
begin

lemma flip_post:
  assumes ok: "palloc_ok pol s xs" and n: "0 < n"
    and flip: "bitmap_scan_and_flip (scan s) (used_map (get_pool s u)) 0 n False = Some (Inr (r, bm, sc))"
  shows "Select sc = pol \<and> lastestAlloc sc < 2 ^ 31
    \<and> (r = BITMAP_ERROR \<and> bm = used_map (get_pool s u)
       \<or> r \<noteq> BITMAP_ERROR \<and> group (xs u) r n False \<and> represents bm (set_range (xs u) r n True))"
proof -
  note p = palloc_ok_pool[OF ok, of u]
  have rep: "represents (used_map (get_pool s u)) (xs u)" using p by (simp add: pool_ok_def)
  have st: "Select (scan s) = pol" "lastestAlloc (scan s) < 2 ^ 31" using ok by (auto simp: palloc_ok_def)
  show ?thesis
  proof (cases "n < 2 ^ 31")
    case True
    then show ?thesis
      using scan_and_flip_free[OF st(1) rep pool_ok_length[OF p] st(2) n True flip] by blast
  next
    case False
    then have "bitmap_scan (scan s) (used_map (get_pool s u)) 0 n False = Some (Inr (BITMAP_ERROR, enter_scan n (scan s)))"
      using pool_ok_length[OF p] by (intro scan_too_many[OF rep]) simp
    then show ?thesis
      using flip st by (auto simp: bitmap_scan_and_flip_def)
  qed
qed

lemma get_multiple_outcome:
  assumes "palloc_ok pol s xs" and "0 < n" and "palloc_get_multiple flags n s = Some (Inr (pages, s'))"
  shows "get_outcome flags n s xs pages s'"
  using palloc_get_outcome[OF assms] flip_post[OF assms(1,2)] by blast

text \<open>A call that may fail with \<open>NULL\<close> returns whenever the scan does.\<close>

lemma get_multiple_returns:
  assumes ok: "palloc_ok pol s xs" and n: "0 < n" "n < 2 ^ 31" and "flags AND PAL_ASSERT = 0"
    and "fits (scan s) (xs (flags AND PAL_USER \<noteq> 0)) n"
  shows "\<exists>pages s'. palloc_get_multiple flags n s = Some (Inr (pages, s'))"
proof -
  let ?u = "flags AND PAL_USER \<noteq> 0"
  let ?p = "get_pool s ?u"
  note p = palloc_ok_pool[OF ok, of ?u]
  have rep: "represents (used_map ?p) (xs ?u)" and unlocked: "\<not> pool_lock ?p" using p by (auto simp: pool_ok_def)
  have st: "Select (scan s) = pol" "lastestAlloc (scan s) < 2 ^ 31" using ok by (auto simp: palloc_ok_def)
  obtain r bm sc where "bitmap_scan_and_flip (scan s) (used_map ?p) 0 n False = Some (Inr (r, bm, sc))"
    using scan_and_flip_returns[OF st(1) rep pool_ok_length[OF p] st(2) n assms(5)] by blast
  then show ?thesis
    using unlocked n(1) assms(4)
    by (auto simp: palloc_get_multiple_def deliver_pages_def Let_def pool_acquire_def pool_release_def memset_def)
qed

end

section \<open>Initialisation\<close>

lemma bitmap_buf_size_exact: "n \<le> 2 ^ 20 \<Longrightarrow> bitmap_buf_size n = 8 + 4 * ((n + 31) div 32)"
  by (simp add: bitmap_buf_size_def byte_cnt_exact elem_cnt_def DIV_ROUND_UP_exact sz_add_exact)

lemma bitmap_buf_size_mono: "m \<le> n \<Longrightarrow> n \<le> 2 ^ 20 \<Longrightarrow> bitmap_buf_size m \<le> bitmap_buf_size n"
  using div_le_mono[of "m + 31" "n + 31" 32] by (simp add: bitmap_buf_size_exact)

text \<open>The bitmap of a pool occupies its first pages; the rest are free.\<close>

lemma init_pool_ok:
  assumes n: "0 < n" "n < 2 ^ 20" and start: "pg_ofs start = 0" "start \<noteq> NULL" "unat start + 4096 * n < 2 ^ 32"
  shows "\<exists>p k. init_pool m start n = Inr p \<and> pool_ok p (replicate (n - k) False)
    \<and> unat (base p) = unat start + 4096 * k \<and> 0 < k \<and> k \<le> n"
proof -
  define k where "k = DIV_ROUND_UP (bitmap_buf_size n) 4096"
  have size: "bitmap_buf_size n = 8 + 4 * ((n + 31) div 32)" using n by (simp add: bitmap_buf_size_exact)
  then have k: "k = (8 + 4 * ((n + 31) div 32) + 4095) div 4096"
    using n unfolding k_def by (subst DIV_ROUND_UP_exact) auto
  have "0 < k" unfolding k by simp
  moreover have "k \<le> n" using n unfolding k by linarith
  moreover have fits: "bitmap_buf_size n \<le> k * 4096"
    using DIV_ROUND_UP_ge[of 4096 "bitmap_buf_size n"] size n unfolding k_def by simp
  moreover have "n - k < 2 ^ 32" "n - k + 32 < 2 ^ 32" "n - k \<le> n" "n \<le> 2 ^ 20" using n by auto
  note nk = this elem_cnt_enough[OF this(2)] order.trans[OF bitmap_buf_size_mono[OF this(3,4)] fits]
  ultimately obtain bm where bm: "bitmap_create_in_buf (n - k) (load_words m (start + 8) (elem_cnt (n - k))) (k * 4096) = Inr bm"
      "represents bm (replicate (n - k) False)"
    using bitmap_create_in_buf_ok[of "n - k" "load_words m (start + 8) (elem_cnt (n - k))" "k * 4096"]
      nk by (auto simp: load_words_def)
  let ?p = "\<lparr>pool_lock = False, used_map = bm, base = start + of_nat k * PGSIZE\<rparr>"
  have init: "init_pool m start n = Inr ?p"
    using \<open>k \<le> n\<close> n bm(1) by (simp add: init_pool_def Let_def PGSIZE_eq sz_sub_exact sz_mul_exact flip: k_def)
  have base: "unat (start + of_nat k * PGSIZE) = unat start + 4096 * k"
    using unat_add_of_nat[of start "4096 * k"] start(3) \<open>k \<le> n\<close> by (simp add: PGSIZE_eq mult.commute)
  then have "start + of_nat k * PGSIZE \<noteq> NULL"
    using \<open>0 < k\<close> by (auto simp: NULL_def)
  then have "pool_ok ?p (replicate (n - k) False)"
    using base bm(2) start \<open>k \<le> n\<close> by (simp add: pool_ok_def pg_ofs_0_iff)
  then show ?thesis using init base \<open>0 < k\<close> \<open>k \<le> n\<close> by (intro exI[of _ ?p] exI[of _ k]) simp
qed

lemma ptov_ok: "unat pa < 0x40000000 \<Longrightarrow> ptov pa = Inr (pa + PHYS_BASE) \<and> unat (pa + PHYS_BASE) = unat pa + 0xc0000000"
  using unat_add_lem[of pa PHYS_BASE] by (simp add: ptov_def word_less_nat_alt unat_PHYS_BASE)

definition all_free :: "(bool \<Rightarrow> bool list) \<Rightarrow> bool" where
  "all_free xs \<longleftrightarrow> (\<forall>u. True \<notin> set (xs u))"

lemma palloc_init_ok:
  assumes ram: "258 \<le> init_ram_pages" "init_ram_pages < 2 ^ 18" and lim: "0 < user_page_limit"
    and sc: "lastestAlloc sc < 2 ^ 31"
  shows "\<exists>s xs. palloc_init init_ram_pages user_page_limit sc m = Inr s
    \<and> palloc_ok (Select sc) s xs \<and> all_free xs \<and> scan s = sc \<and> ram s = m"
proof -
  define fs fe where "fs = (1024 * 1024 + PHYS_BASE :: addr)" and "fe = of_nat init_ram_pages * PGSIZE + PHYS_BASE"
  define free up kp where "free = init_ram_pages - 256" and "up = min (free div 2) user_page_limit" and "kp = free - up"
  have fs: "ptov (1024 * 1024) = Inr fs" "unat fs = 0xc0100000"
    using ptov_ok[of "1024 * 1024"] by (simp_all add: fs_def)
  have "unat (of_nat init_ram_pages * PGSIZE) = init_ram_pages * 4096"
    using ram by (simp add: PGSIZE_eq unat_word_ariths unat_of_nat)
  then have fe: "ptov (of_nat init_ram_pages * PGSIZE) = Inr fe" "unat fe = init_ram_pages * 4096 + 0xc0000000"
    using ram ptov_ok[of "of_nat init_ram_pages * PGSIZE"] by (simp_all add: fe_def)
  have le: "fs \<le> fe" using fs fe ram by (simp add: word_le_nat_alt)
  have free: "unat (fe - fs) div 4096 = free"
    using fs fe ram le by (simp add: unat_sub free_def)
  have pos: "0 < up" "0 < kp" "up + kp = free" "free < 261888" using ram lim by (auto simp: up_def kp_def free_def)
  have aligned: "pg_ofs fs = 0" "fs \<noteq> NULL" using fs by (auto simp: pg_ofs_0_iff NULL_def)
  obtain kpool j where k: "init_pool m fs kp = Inr kpool" "pool_ok kpool (replicate (kp - j) False)"
      "unat (base kpool) = unat fs + 4096 * j" "j \<le> kp"
    using init_pool_ok[of kp fs m] aligned pos fs by auto
  have us: "unat (fs + of_nat kp * PGSIZE) = unat fs + 4096 * kp"
    using unat_add_of_nat[of fs "4096 * kp"] fs pos by (simp add: PGSIZE_eq mult.commute)
  then have us': "pg_ofs (fs + of_nat kp * PGSIZE) = 0" "fs + of_nat kp * PGSIZE \<noteq> NULL"
    using fs by (auto simp: pg_ofs_0_iff NULL_def)
  obtain upool l where u: "init_pool m (fs + of_nat kp * PGSIZE) up = Inr upool" "pool_ok upool (replicate (up - l) False)"
      "unat (base upool) = unat (fs + of_nat kp * PGSIZE) + 4096 * l"
    using init_pool_ok[OF pos(1) _ us', of m] us fs pos by auto
  let ?s = "\<lparr>kernel_pool = kpool, user_pool = upool, scan = sc, ram = m\<rparr>"
  let ?xs = "\<lambda>u. if u then replicate (up - l) False else replicate (kp - j) False"
  have "palloc_init init_ram_pages user_page_limit sc m = Inr ?s"
    using fs fe le free k(1) u(1) pos
    by (simp add: palloc_init_def Let_def PGSIZE_eq sz_sub_exact min_def up_def kp_def not_less split: if_splits)
  moreover have "palloc_ok (Select sc) ?s ?xs"
    using k u us sc by (simp add: palloc_ok_def get_pool_def all_bool_eq)
  ultimately show ?thesis by (intro exI[of _ ?s] exI[of _ ?xs]) (auto simp: all_free_def)
qed

section \<open>Runs of the allocator\<close>

text \<open>
  A client takes and returns blocks of pages. \<open>live\<close> lists the blocks it holds, by address
  and number of pages; it frees only blocks it holds, each with the size it asked for.
\<close>

inductive palloc_run :: "selector \<Rightarrow> palloc_state \<Rightarrow> (addr \<times> nat) list \<Rightarrow> bool" for pol where
  run_init: "258 \<le> ram_pages \<Longrightarrow> ram_pages < 2 ^ 18 \<Longrightarrow> 0 < limit \<Longrightarrow>
    palloc_init ram_pages limit (scan_state_init pol) m = Inr s \<Longrightarrow> palloc_run pol s []"
| run_get: "palloc_run pol s live \<Longrightarrow> palloc_get_multiple flags n s = Some (Inr (p, s')) \<Longrightarrow> p \<noteq> NULL \<Longrightarrow>
    palloc_run pol s' ((p, n) # live)"
| run_get_none: "palloc_run pol s live \<Longrightarrow> palloc_get_multiple flags n s = Some (Inr (NULL, s')) \<Longrightarrow>
    palloc_run pol s' live"
| run_free: "palloc_run pol s (l1 @ (p, n) # l2) \<Longrightarrow> palloc_free_multiple p n s = Inr s' \<Longrightarrow>
    palloc_run pol s' (l1 @ l2)"

text \<open>A block is a pool, the index of its first page and its number of pages.\<close>

type_synonym block = "bool \<times> nat \<times> nat"

definition apart :: "block \<Rightarrow> block \<Rightarrow> bool" where
  "apart = (\<lambda>(u, i, n) (v, j, k). u \<noteq> v \<or> i + n \<le> j \<or> j + k \<le> i)"

definition covered :: "block list \<Rightarrow> bool \<Rightarrow> nat \<Rightarrow> bool" where
  "covered bl u k \<longleftrightarrow> (\<exists>i n. (u, i, n) \<in> set bl \<and> i \<le> k \<and> k < i + n)"

text \<open>The used flags are exactly the pages of the blocks, and no two blocks overlap.\<close>

definition ledger :: "(bool \<Rightarrow> bool list) \<Rightarrow> block list \<Rightarrow> bool" where
  "ledger xs bl \<longleftrightarrow> sorted_wrt apart bl
     \<and> (\<forall>u i n. (u, i, n) \<in> set bl \<longrightarrow> 0 < n \<and> i + n \<le> length (xs u))
     \<and> (\<forall>u k. k < length (xs u) \<longrightarrow> xs u ! k = covered bl u k)"

definition block_addr :: "palloc_state \<Rightarrow> block \<Rightarrow> addr \<times> nat" where
  "block_addr s = (\<lambda>(u, i, n). (page_addr (get_pool s u) i, n))"

lemma groupD: "group xs i n v \<Longrightarrow> i \<le> k \<Longrightarrow> k < i + n \<Longrightarrow> k < length xs \<and> xs ! k = v"
  by (auto simp: group_def dest: spec[of _ "k - i"])

lemma groupI: "i + n \<le> length xs \<Longrightarrow> (\<And>k. i \<le> k \<Longrightarrow> k < i + n \<Longrightarrow> xs ! k = v) \<Longrightarrow> group xs i n v"
  by (simp add: group_def)

lemma ledger_init: "all_free xs \<Longrightarrow> ledger xs []"
  by (auto simp: ledger_def all_free_def covered_def in_set_conv_nth)

lemma ledger_add:
  assumes "ledger xs bl" and free: "group (xs u) i n False" and "0 < n"
  shows "ledger (xs(u := set_range (xs u) i n True)) ((u, i, n) # bl)"
proof -
  have "apart (u, i, n) (v, j, k)" if "(v, j, k) \<in> set bl" for v j k
  proof (rule ccontr)
    assume "\<not> apart (u, i, n) (v, j, k)"
    then have v: "v = u" and "max i j < i + n" "max i j < j + k"
      using assms(1,3) that by (auto simp: apart_def ledger_def)
    then have "covered bl u (max i j)" using that by (force simp: covered_def)
    moreover have "max i j < length (xs u)" "\<not> xs u ! max i j"
      using groupD[OF free, of "max i j"] \<open>max i j < i + n\<close> by auto
    ultimately show False using assms(1) by (auto simp: ledger_def)
  qed
  moreover have "covered ((u, i, n) # bl) v k = (v = u \<and> i \<le> k \<and> k < i + n \<or> covered bl v k)" for v k
    by (auto simp: covered_def)
  ultimately show ?thesis
    using assms by (auto simp: ledger_def nth_set_range group_def)
qed

lemma ledger_used:
  assumes "ledger xs bl" and "(u, i, n) \<in> set bl"
  shows "group (xs u) i n True"
proof (rule groupI)
  show len: "i + n \<le> length (xs u)" using assms unfolding ledger_def by blast
  fix k assume k: "i \<le> k" "k < i + n"
  then have "covered bl u k" using assms(2) unfolding covered_def by blast
  moreover have "k < length (xs u)" using k len by simp
  ultimately show "xs u ! k = True" using assms(1) by (simp add: ledger_def)
qed

lemma ledger_remove:
  assumes "ledger xs (b1 @ (u, i, n) # b2)"
  shows "ledger (xs(u := set_range (xs u) i n False)) (b1 @ b2)"
proof -
  let ?bl = "b1 @ (u, i, n) # b2"
  have ap: "sorted_wrt apart ?bl" using assms by (simp add: ledger_def)
  have out: "\<not> (i \<le> k \<and> k < i + n)" if "covered (b1 @ b2) u k" for k
    using that ap by (force simp: covered_def sorted_wrt_append apart_def)
  have same: "covered ?bl v k = (v = u \<and> i \<le> k \<and> k < i + n \<or> covered (b1 @ b2) v k)" for v k
    by (auto simp: covered_def)
  have "sorted_wrt apart (b1 @ b2)" using ap by (auto simp: sorted_wrt_append)
  then show ?thesis
    using assms out same by (auto simp: ledger_def nth_set_range)
qed

lemma block_addr_cong: "(\<And>v. base (get_pool s' v) = base (get_pool s v)) \<Longrightarrow> block_addr s' = block_addr s"
  by (auto simp: block_addr_def page_addr_def fun_eq_iff)

definition run_inv :: "selector \<Rightarrow> palloc_state \<Rightarrow> (addr \<times> nat) list \<Rightarrow> (bool \<Rightarrow> bool list) \<Rightarrow> block list \<Rightarrow> bool" where
  "run_inv pol s live xs bl \<longleftrightarrow> palloc_ok pol s xs \<and> ledger xs bl \<and> live = map (block_addr s) bl"

lemma run_inv_get:
  assumes inv: "run_inv pol s live xs bl" and "0 < n" and out: "get_outcome flags n s xs p s'"
  shows "\<exists>xs' bl'. run_inv pol s' (if p = NULL then live else (p, n) # live) xs' bl'"
proof -
  have pol: "Select (scan s) = pol" using inv by (simp add: run_inv_def palloc_ok_def)
  have bases: "block_addr s' = block_addr s"
    using out by (intro block_addr_cong) (simp add: get_outcome_def Let_def)
  show ?thesis
  proof (cases "p = NULL")
    case True
    then have "run_inv pol s' live xs bl"
      using inv out bases pol by (simp add: run_inv_def get_outcome_def Let_def)
    then show ?thesis using True by auto
  next
    case False
    let ?u = "flags AND PAL_USER \<noteq> 0"
    from False out obtain i where "p = page_addr (get_pool s ?u) i" "group (xs ?u) i n False"
        "palloc_ok pol s' (xs(?u := set_range (xs ?u) i n True))"
      using pol by (auto simp: get_outcome_def Let_def)
    then have "run_inv pol s' ((p, n) # live) (xs(?u := set_range (xs ?u) i n True)) ((?u, i, n) # bl)"
      using inv bases ledger_add[of xs bl ?u i n] assms(2) by (simp add: run_inv_def) (simp add: block_addr_def)
    then show ?thesis using False by auto
  qed
qed

lemma run_inv_free:
  assumes inv: "run_inv pol s (l1 @ (p, n) # l2) xs bl"
  shows "\<exists>s' xs' bl'. palloc_free_multiple p n s = Inr s' \<and> run_inv pol s' (l1 @ l2) xs' bl'"
proof -
  have ok: "palloc_ok pol s xs" and led: "ledger xs bl" using inv by (auto simp: run_inv_def)
  have "map (block_addr s) bl = l1 @ (p, n) # l2" using inv by (simp add: run_inv_def)
  then obtain b1 u i b2 where bl: "bl = b1 @ (u, i, n) # b2" and l: "l1 = map (block_addr s) b1" "l2 = map (block_addr s) b2"
      and p: "p = page_addr (get_pool s u) i"
    by (auto simp: map_eq_append_conv map_eq_Cons_conv block_addr_def append_eq_map_conv Cons_eq_map_conv)
  have "group (xs u) i n True" "0 < n" using ledger_used[OF led, of u i n] led bl by (auto simp: ledger_def)
  from palloc_free_multiple_ok[OF ok this] obtain s' where s': "palloc_free_multiple p n s = Inr s'"
      "palloc_ok pol s' (xs(u := set_range (xs u) i n False))" "\<And>v. base (get_pool s' v) = base (get_pool s v)"
    using p by blast
  have "run_inv pol s' (l1 @ l2) (xs(u := set_range (xs u) i n False)) (b1 @ b2)"
    using s'(2) l ledger_remove[of xs b1 u i n b2] led bl block_addr_cong[OF s'(3)] by (simp add: run_inv_def)
  then show ?thesis using s'(1) by blast
qed

lemma in_pages_iff:
  assumes "pool_ok p xs" and "i + n \<le> length xs" and "0 < n"
  shows "in_block (page_addr p i) (4096 * n) x \<longleftrightarrow>
    unat (base p) + 4096 * i \<le> unat x \<and> unat x < unat (base p) + 4096 * (i + n)"
proof -
  let ?a = "page_addr p i"
  have a: "unat ?a = unat (base p) + 4096 * i" using unat_page_addr[OF assms(1), of i] assms(2,3) by simp
  have le: "unat ?a + 4096 * n \<le> 2 ^ 32" using pool_bytes(2)[OF assms] .
  show ?thesis
  proof (cases "?a \<le> x")
    case True
    then show ?thesis using a by (auto simp: in_block_def unat_sub word_le_nat_alt)
  next
    case False
    then have "unat x < unat ?a" by (simp add: word_le_nat_alt)
    moreover have "unat (x - ?a) = 2 ^ 32 + unat x - unat ?a"
      using calculation unat_bound32[of ?a] by (simp add: unat_sub_if_size word_le_nat_alt word_size)
    ultimately show ?thesis using a le by (simp add: in_block_def)
  qed
qed

text \<open>Blocks that do not overlap as page ranges share no byte.\<close>

lemma apart_bytes:
  assumes ok: "palloc_ok pol s xs" and ap: "apart (u, i, n) (v, j, k)"
    and b: "0 < n" "i + n \<le> length (xs u)" "0 < k" "j + k \<le> length (xs v)"
  shows "\<not> (in_block (page_addr (get_pool s u) i) (4096 * n) x \<and> in_block (page_addr (get_pool s v) j) (4096 * k) x)"
proof -
  have gap: "unat (base (get_pool s False)) + 4096 * length (xs False) \<le> unat (base (get_pool s True))"
    using ok by (simp add: palloc_ok_def get_pool_def)
  show ?thesis
    using in_pages_iff[OF palloc_ok_pool[OF ok] b(2,1), of x] in_pages_iff[OF palloc_ok_pool[OF ok] b(4,3), of x]
      ap gap b by (cases u; cases v) (auto simp: apart_def)
qed

context scan_policy
begin

lemma run_invariant: "palloc_run pol s live \<Longrightarrow> \<exists>xs bl. run_inv pol s live xs bl"
proof (induction rule: palloc_run.induct)
  case (run_init ram_pages limit m s)
  then obtain xs where "palloc_ok pol s xs" "all_free xs"
    using palloc_init_ok[of ram_pages limit "scan_state_init pol" m] by (auto simp: scan_state_init_def)
  then show ?case using ledger_init by (auto simp: run_inv_def)
next
  case (run_get s live flags n p s')
  then obtain xs bl where inv: "run_inv pol s live xs bl" by blast
  then have ok: "palloc_ok pol s xs" by (simp add: run_inv_def)
  have n: "0 < n" using run_get.hyps by (cases "n = 0") (auto simp: palloc_get_multiple_def)
  show ?case
    using run_inv_get[OF inv n get_multiple_outcome[OF ok n run_get.hyps(2)]] run_get.hyps(3) by simp
next
  case (run_get_none s live flags n s')
  then obtain xs bl where inv: "run_inv pol s live xs bl" by blast
  then have ok: "palloc_ok pol s xs" by (simp add: run_inv_def)
  show ?case
  proof (cases "n = 0")
    case True
    then show ?thesis using run_get_none.hyps(2) inv by (auto simp: palloc_get_multiple_def)
  next
    case False
    then show ?thesis
      using run_inv_get[OF inv _ get_multiple_outcome[OF ok _ run_get_none.hyps(2)]] by simp
  qed
next
  case (run_free s l1 p n l2 s')
  then obtain xs bl where "run_inv pol s (l1 @ (p, n) # l2) xs bl" by blast
  from run_inv_free[OF this] show ?case using run_free.hyps(2) by auto
qed

lemma live_blocks_disjoint:
  assumes "palloc_run pol s live" and "i < j" "j < length live"
  shows "\<not> (in_block (fst (live ! i)) (4096 * snd (live ! i)) x \<and> in_block (fst (live ! j)) (4096 * snd (live ! j)) x)"
proof -
  obtain xs bl where ok: "palloc_ok pol s xs" and led: "ledger xs bl" and live: "live = map (block_addr s) bl"
    using run_invariant[OF assms(1)] by (auto simp: run_inv_def)
  obtain u a n where bi: "bl ! i = (u, a, n)" by (cases "bl ! i") auto
  obtain v b k where bj: "bl ! j = (v, b, k)" by (cases "bl ! j") auto
  have len: "i < length bl" "j < length bl" using assms live by auto
  then have "(u, a, n) \<in> set bl" "(v, b, k) \<in> set bl" using bi bj nth_mem by metis+
  moreover have "apart (bl ! i) (bl ! j)"
    using led assms(2) len by (auto simp: ledger_def sorted_wrt_iff_nth_less)
  then have "apart (u, a, n) (v, b, k)" using bi bj by simp
  ultimately show ?thesis
    using apart_bytes[OF ok, of u a n v b k x] led live len bi bj by (auto simp: ledger_def block_addr_def)
qed

lemma live_block_free:
  assumes "palloc_run pol s (l1 @ (p, n) # l2)"
  shows "\<exists>s'. palloc_free_multiple p n s = Inr s'"
  using run_invariant[OF assms] run_inv_free by blast

end

section \<open>Example state\<close>

text \<open>Memory of 262 pages gives each pool a page for its bitmap and two pages to hand out.\<close>

definition ex_pool :: "addr \<Rightarrow> elem_type \<Rightarrow> pool" where
  "ex_pool a w = \<lparr>pool_lock = False, used_map = \<lparr>bit_cnt = 2, bits = [w]\<rparr>, base = a\<rparr>"

definition ex_state :: "selector \<Rightarrow> elem_type \<Rightarrow> nat \<Rightarrow> palloc_state" where
  "ex_state pol w chk = \<lparr>kernel_pool = ex_pool 0xc0101000 w, user_pool = ex_pool 0xc0104000 0,
     scan = (scan_state_init pol)\<lparr>check_size := chk\<rparr>, ram = (\<lambda>_. 0)\<rparr>"

lemmas bitmap_eval =
  DIV_ROUND_UP_def bitmap_buf_size_def byte_cnt_def elem_cnt_def sz_add_def sz_sub_def sz_mul_def
  bitmap_create_in_buf_def bitmap_size_def bitmap_set_all_def bitmap_set_multiple_def bitmap_set_def
  bitmap_reset_def bitmap_mark_def bitmap_test_def bitmap_contains_def elem_idx_def bit_mask_def upt_conv_Cons

lemmas scan_eval =
  bitmap_scan_and_flip_def bitmap_scan_def enter_scan_def print_bits_def scan_state_init_def
  scan_loop.simps BITMAP_ERROR_def SIZE_MAX_def

lemma ex_init_pool: "init_pool (\<lambda>_. 0) a 3 = Inr (ex_pool (a + 0x1000) 0)"
  by (simp add: bitmap_eval PGSIZE_eq init_pool_def Let_def load_words_def load32_def ex_pool_def)

lemma ex_init: "palloc_init 262 3 (scan_state_init pol) (\<lambda>_. 0) = Inr (ex_state pol 0 0)"
proof -
  have ptov: "ptov (1024 * 1024) = Inr 0xc0100000" "ptov (of_nat 262 * PGSIZE) = Inr 0xc0106000"
    by (simp_all add: ptov_def PHYS_BASE_def PGSIZE_eq)
  have pages: "unat (0xc0106000 - 0xc0100000 :: addr) div unat PGSIZE = 6" "(0xc0100000 :: addr) \<le> 0xc0106000"
    "sz_sub 6 3 = 3" "(6 :: nat) div 2 = 3"
    by (simp_all add: PGSIZE_eq sz_sub_def)
  show ?thesis
    unfolding palloc_init_def ptov rbind_Inr Let_def if_P[OF pages(2)] pages(1)
    by (simp add: pages(3) ex_init_pool ex_state_def scan_state_init_def PGSIZE_eq)
qed

lemma ex_flip:
  "bitmap_scan_and_flip \<lparr>Select = FIRST_FIT, lastestAlloc = 0, check_cnt = 0, check_size = 0\<rparr>
     \<lparr>bit_cnt = 2, bits = [0]\<rparr> 0 (Suc 0) False =
   Some (Inr (0, \<lparr>bit_cnt = 2, bits = [1]\<rparr>, \<lparr>Select = FIRST_FIT, lastestAlloc = 0, check_cnt = 0, check_size = 1\<rparr>))"
  "bitmap_scan_and_flip \<lparr>Select = FIRST_FIT, lastestAlloc = 0, check_cnt = 0, check_size = 1\<rparr>
     \<lparr>bit_cnt = 2, bits = [1]\<rparr> 0 (Suc 0) False =
   Some (Inr (1, \<lparr>bit_cnt = 2, bits = [3]\<rparr>, \<lparr>Select = FIRST_FIT, lastestAlloc = 0, check_cnt = 0, check_size = 2\<rparr>))"
  by (simp_all add: bitmap_eval scan_eval Let_def)

lemma ex_get:
  "palloc_get_multiple 0 1 (ex_state FIRST_FIT 0 0) = Some (Inr (0xc0101000, ex_state FIRST_FIT 1 1))"
  "palloc_get_multiple 0 1 (ex_state FIRST_FIT 1 1) = Some (Inr (0xc0102000, ex_state FIRST_FIT 3 2))"
  by (simp_all add: palloc_get_multiple_def Let_def pool_acquire_def pool_release_def get_pool_def put_pool_def
     ex_state_def ex_pool_def scan_state_init_def ex_flip[simplified] deliver_pages_def BITMAP_ERROR_def SIZE_MAX_def NULL_def PGSIZE_eq)

lemma ex_run: "palloc_run FIRST_FIT (ex_state FIRST_FIT 3 2) [(0xc0102000, 1), (0xc0101000, 1)]"
proof -
  have "palloc_run FIRST_FIT (ex_state FIRST_FIT 0 0) []"
    by (rule run_init[OF _ _ _ ex_init]) simp_all
  from run_get[OF this ex_get(1)] have "palloc_run FIRST_FIT (ex_state FIRST_FIT 1 1) [(0xc0101000, 1)]"
    by (simp add: NULL_def)
  from run_get[OF this ex_get(2)] show ?thesis by (simp add: NULL_def)
qed

section \<open>Properties of the page allocator\<close>

text \<open>
  C1. In every state that a client reaches from \<open>palloc_init\<close> by allocating and freeing
  blocks, under first fit, next fit and best fit, no two blocks that it holds share a byte.
\<close>

theorem palloc_live_blocks_disjoint:
  assumes "pol \<in> {FIRST_FIT, NEXT_FIT, BEST_FIT}" and "palloc_run pol s live"
    and "i < j" and "j < length live"
  shows "\<not> (in_block (fst (live ! i)) (4096 * snd (live ! i)) x
           \<and> in_block (fst (live ! j)) (4096 * snd (live ! j)) x)"
  using assms(1) first_fit.live_blocks_disjoint[of s live i j x] next_fit.live_blocks_disjoint[of s live i j x]
    best_fit.live_blocks_disjoint[of s live i j x] assms(2-4)
  by auto

theorem palloc_live_blocks_disjoint_witness:
  "palloc_run FIRST_FIT (ex_state FIRST_FIT 3 2) [(0xc0102000, 1), (0xc0101000, 1)]
   \<and> \<not> (in_block 0xc0102000 4096 0xc0101004 \<and> in_block 0xc0101000 4096 0xc0101004)"
  using palloc_live_blocks_disjoint[OF _ ex_run, of 0 1 "0xc0101004"] ex_run by simp

lemma ex_state_ok: "palloc_ok pol (ex_state pol 1 chk) (\<lambda>u. [\<not> u, False])"
proof -
  have "represents \<lparr>bit_cnt = 2, bits = [1]\<rparr> [True, False]" "represents \<lparr>bit_cnt = 2, bits = [0]\<rparr> [False, False]"
    by (simp_all add: represents_def bitmap_wf_def bits_of_def bit_at_def upt_conv_Cons)
  then show ?thesis
    by (simp add: palloc_ok_def pool_ok_def get_pool_def ex_state_def ex_pool_def all_bool_eq scan_state_init_def
        NULL_def pg_ofs_0_iff)
qed

lemma sound_policy_outcome:
  assumes "pol \<in> {FIRST_FIT, NEXT_FIT, BEST_FIT}" and "palloc_ok pol s xs" and "0 < n"
    and "palloc_get_multiple flags n s = Some (Inr (pages, s'))"
  shows "get_outcome flags n s xs pages s'"
  using assms(1) first_fit.get_multiple_outcome[of s xs n flags pages s'] next_fit.get_multiple_outcome[of s xs n flags pages s']
    best_fit.get_multiple_outcome[of s xs n flags pages s'] assms(2-4) by auto

text \<open>
  C7. A successful \<open>palloc_get_multiple\<close> under first fit, next fit or best fit returns the
  address of \<open>n\<close> pages that were free, marks exactly those pages as used, keeps the invariant
  and both pool bases, and changes no byte outside the pages, which are zero if \<open>PAL_ZERO\<close>
  is set. A failing one returns \<open>NULL\<close> and changes neither pool nor memory.
\<close>

theorem palloc_get_multiple_spec:
  assumes "pol \<in> {FIRST_FIT, NEXT_FIT, BEST_FIT}" and "palloc_ok pol s xs" and "0 < n"
    and "palloc_get_multiple flags n s = Some (Inr (pages, s'))"
  defines "u \<equiv> flags AND PAL_USER \<noteq> 0"
  shows "(\<forall>v. base (get_pool s' v) = base (get_pool s v)) \<and>
    (if pages = NULL then palloc_ok pol s' xs \<and> ram s' = ram s
     else \<exists>i. pages = page_addr (get_pool s u) i \<and> group (xs u) i n False
       \<and> palloc_ok pol s' (xs(u := set_range (xs u) i n True))
       \<and> (\<forall>x. ram s' x = (if in_block pages (4096 * n) x \<and> flags AND PAL_ZERO \<noteq> 0 then 0 else ram s x)))"
proof -
  note out = sound_policy_outcome[OF assms(1-4)]
  have pol: "Select (scan s) = pol" using assms(2) by (simp add: palloc_ok_def)
  have bytes: "ram s' = (if z then filled (ram s) pages k 0 else ram s)
      \<longleftrightarrow> (\<forall>x. ram s' x = (if in_block pages k x \<and> z then 0 else ram s x))" for z k
    by (auto simp: filled_def fun_eq_iff)
  show ?thesis
    using out unfolding get_outcome_def Let_def u_def[symmetric] pol bytes .
qed

theorem palloc_get_multiple_spec_witness:
  "\<exists>i. (0xc0102000 :: addr) = page_addr (get_pool (ex_state FIRST_FIT 1 1) False) i \<and> group [True, False] i 1 False"
  using palloc_get_multiple_spec[OF _ ex_state_ok _ ex_get(2)] by (auto simp: NULL_def)

text \<open>
  C14. \<open>palloc_init\<close> on a machine with between 258 and \<open>2 ^ 18 - 1\<close> pages of memory builds two
  pools with disjoint page ranges and every page free.
\<close>

theorem palloc_init_invariant:
  assumes "258 \<le> init_ram_pages" and "init_ram_pages < 2 ^ 18" and "0 < user_page_limit"
  shows "\<exists>s xs. palloc_init init_ram_pages user_page_limit (scan_state_init pol) m = Inr s
    \<and> palloc_ok pol s xs \<and> (\<forall>u. True \<notin> set (xs u))"
  using palloc_init_ok[OF assms, of "scan_state_init pol" m]
  by (auto simp: all_free_def scan_state_init_def)

theorem palloc_init_invariant_witness:
  "\<exists>s xs. palloc_init 262 3 (scan_state_init NEXT_FIT) (\<lambda>_. 0) = Inr s \<and> palloc_ok NEXT_FIT s xs"
  using palloc_init_invariant[of 262 3 NEXT_FIT "\<lambda>_. 0"] by auto

text \<open>
  C10. In a reachable state a client can free any block it holds: the call does not fail an
  assertion, and the state is again one of a run, in which the block is no longer held.
\<close>

theorem palloc_free_live_block:
  assumes "pol \<in> {FIRST_FIT, NEXT_FIT, BEST_FIT}" and "palloc_run pol s (l1 @ (p, n) # l2)"
  shows "\<exists>s'. palloc_free_multiple p n s = Inr s' \<and> palloc_run pol s' (l1 @ l2)"
  using assms(1) first_fit.live_block_free[of s l1 p n l2] next_fit.live_block_free[of s l1 p n l2]
    best_fit.live_block_free[of s l1 p n l2] assms(2) run_free by blast

theorem palloc_free_live_block_witness:
  "\<exists>s'. palloc_free_multiple 0xc0101000 1 (ex_state FIRST_FIT 3 2) = Inr s' \<and> palloc_run FIRST_FIT s' [(0xc0102000, 1)]"
  using palloc_free_live_block[of FIRST_FIT "ex_state FIRST_FIT 3 2" "[(0xc0102000, 1)]" "0xc0101000" 1 "[]"] ex_run by simp

text \<open>
  C12. Allocating pages and freeing them again restores the used flags of both pools.
\<close>

theorem palloc_get_free_roundtrip:
  assumes "pol \<in> {FIRST_FIT, NEXT_FIT, BEST_FIT}" and "palloc_ok pol s xs" and "0 < n"
    and "palloc_get_multiple flags n s = Some (Inr (pages, s'))" and "pages \<noteq> NULL"
  shows "\<exists>s''. palloc_free_multiple pages n s' = Inr s'' \<and> palloc_ok pol s'' xs"
proof -
  have "get_outcome flags n s xs pages s'"
    using sound_policy_outcome[OF assms(1-4)] .
  moreover have "Select (scan s) = pol" using assms(2) by (simp add: palloc_ok_def)
  ultimately obtain u i where free: "group (xs u) i n False" and ok: "palloc_ok pol s' (xs(u := set_range (xs u) i n True))"
      and "pages = page_addr (get_pool s u) i" "base (get_pool s' u) = base (get_pool s u)"
    using assms(5) by (auto simp: get_outcome_def Let_def)
  then have pages: "pages = page_addr (get_pool s' u) i" by (simp add: page_addr_def)
  have "group ((xs(u := set_range (xs u) i n True)) u) i n True"
    using group_set_range[of i n "xs u" True] free by (simp add: group_def)
  from palloc_free_multiple_ok[OF ok this assms(3)] show ?thesis
    using set_range_undo[OF free] pages fun_upd_triv[of xs u] by (auto simp del: fun_upd_apply) (simp add: fun_upd_def)
qed

theorem palloc_get_free_roundtrip_witness:
  "\<exists>s''. palloc_free_multiple 0xc0102000 1 (ex_state FIRST_FIT 3 2) = Inr s'' \<and> palloc_ok FIRST_FIT s'' (\<lambda>u. [\<not> u, False])"
  using palloc_get_free_roundtrip[OF _ ex_state_ok _ ex_get(2)] by (simp add: NULL_def)

text \<open>
  C16. Freeing pages of a pool that are not all in use, for instance a second time, is caught
  by the assertion on the bitmap.
\<close>

theorem palloc_double_free_asserts:
  assumes "palloc_ok pol s xs" and "i + n \<le> length (xs u)" and "0 < n" and "\<exists>k. i \<le> k \<and> k < i + n \<and> \<not> xs u ! k"
  shows "palloc_free_multiple (page_addr (get_pool s u) i) n s = Inl Assert_fail"
  using assms groupD[of "xs u" i n True] by (intro palloc_free_multiple_double[OF assms(1-3)]) auto

theorem palloc_double_free_asserts_witness:
  "palloc_free_multiple 0xc0102000 1 (ex_state FIRST_FIT 1 1) = Inl Assert_fail"
proof -
  have "page_addr (get_pool (ex_state FIRST_FIT 1 1) False) 1 = 0xc0102000"
    by (simp add: page_addr_def get_pool_def ex_state_def ex_pool_def PGSIZE_eq)
  moreover have "\<exists>k\<ge>1. k < 1 + 1 \<and> \<not> [True, False] ! k" by (intro exI[of _ 1]) simp
  ultimately show ?thesis
    using palloc_double_free_asserts[OF ex_state_ok, of 1 1 False FIRST_FIT 1] by simp
qed

end
