(* ===== verification/KList.thy ===== *)
theory KList
  imports Memory "HOL-Library.Multiset"
begin

text \<open>
  The doubly linked list of \<open>src/lib/kernel/list.c\<close>. A list element is an address with a
  \<open>prev\<close> and a \<open>next\<close> pointer in a heap; a list is the address of its head element, and its
  tail element lies 8 bytes behind. Every function of the file that changes a list is
  translated assignment by assignment, and the loops, which need not end on a heap that does
  not hold a list, return \<open>None\<close> then.
\<close>

section \<open>Elements and lists\<close>

record lheap =
  elem_prev :: "addr \<Rightarrow> addr"
  elem_next :: "addr \<Rightarrow> addr"

definition set_prev :: "addr \<Rightarrow> addr \<Rightarrow> lheap \<Rightarrow> lheap" where
  "set_prev e v h = h\<lparr>elem_prev := (elem_prev h)(e := v)\<rparr>"

definition set_next :: "addr \<Rightarrow> addr \<Rightarrow> lheap \<Rightarrow> lheap" where
  "set_next e v h = h\<lparr>elem_next := (elem_next h)(e := v)\<rparr>"

text \<open>\<open>&list->head\<close> is the address of the list and \<open>&list->tail\<close> the element behind it.\<close>

definition tail_of :: "addr \<Rightarrow> addr" where
  "tail_of l = l + 8"

definition is_head :: "lheap \<Rightarrow> addr \<Rightarrow> bool" where
  "is_head h e \<longleftrightarrow> e \<noteq> NULL \<and> elem_prev h e = NULL \<and> elem_next h e \<noteq> NULL"

definition is_interior :: "lheap \<Rightarrow> addr \<Rightarrow> bool" where
  "is_interior h e \<longleftrightarrow> e \<noteq> NULL \<and> elem_prev h e \<noteq> NULL \<and> elem_next h e \<noteq> NULL"

definition is_tail :: "lheap \<Rightarrow> addr \<Rightarrow> bool" where
  "is_tail h e \<longleftrightarrow> e \<noteq> NULL \<and> elem_prev h e \<noteq> NULL \<and> elem_next h e = NULL"

definition list_init :: "addr \<Rightarrow> lheap \<Rightarrow> lheap result" where
  "list_init l h =
     rbind (rassert (l \<noteq> NULL)) (\<lambda>_.
     Inr (set_next (tail_of l) NULL (set_prev (tail_of l) l (set_next l (tail_of l) (set_prev l NULL h)))))"

definition list_begin :: "lheap \<Rightarrow> addr \<Rightarrow> addr result" where
  "list_begin h l = rbind (rassert (l \<noteq> NULL)) (\<lambda>_. Inr (elem_next h l))"

definition list_next :: "lheap \<Rightarrow> addr \<Rightarrow> addr result" where
  "list_next h e = rbind (rassert (is_head h e \<or> is_interior h e)) (\<lambda>_. Inr (elem_next h e))"

definition list_end :: "addr \<Rightarrow> addr result" where
  "list_end l = rbind (rassert (l \<noteq> NULL)) (\<lambda>_. Inr (tail_of l))"

definition list_rbegin :: "lheap \<Rightarrow> addr \<Rightarrow> addr result" where
  "list_rbegin h l = rbind (rassert (l \<noteq> NULL)) (\<lambda>_. Inr (elem_prev h (tail_of l)))"

definition list_prev :: "lheap \<Rightarrow> addr \<Rightarrow> addr result" where
  "list_prev h e = rbind (rassert (is_interior h e \<or> is_tail h e)) (\<lambda>_. Inr (elem_prev h e))"

definition list_rend :: "addr \<Rightarrow> addr result" where
  "list_rend l = rbind (rassert (l \<noteq> NULL)) (\<lambda>_. Inr l)"

definition list_head :: "addr \<Rightarrow> addr result" where
  "list_head l = rbind (rassert (l \<noteq> NULL)) (\<lambda>_. Inr l)"

definition list_tail :: "addr \<Rightarrow> addr result" where
  "list_tail l = rbind (rassert (l \<noteq> NULL)) (\<lambda>_. Inr (tail_of l))"

section \<open>Insertion and removal\<close>

definition list_insert :: "addr \<Rightarrow> addr \<Rightarrow> lheap \<Rightarrow> lheap result" where
  "list_insert before e h =
     rbind (rassert (is_interior h before \<or> is_tail h before)) (\<lambda>_.
     rbind (rassert (e \<noteq> NULL)) (\<lambda>_.
     let h = set_prev e (elem_prev h before) h;
         h = set_next e before h;
         h = set_next (elem_prev h before) e h
     in Inr (set_prev before e h)))"

definition list_splice :: "addr \<Rightarrow> addr \<Rightarrow> addr \<Rightarrow> lheap \<Rightarrow> lheap result" where
  "list_splice before first last_e h =
     rbind (rassert (is_interior h before \<or> is_tail h before)) (\<lambda>_.
     if first = last_e then Inr h
     else
       rbind (list_prev h last_e) (\<lambda>last_e.
       rbind (rassert (is_interior h first)) (\<lambda>_.
       rbind (rassert (is_interior h last_e)) (\<lambda>_.
       let h = set_next (elem_prev h first) (elem_next h last_e) h;
           h = set_prev (elem_next h last_e) (elem_prev h first) h;
           h = set_prev first (elem_prev h before) h;
           h = set_next last_e before h;
           h = set_next (elem_prev h before) first h
       in Inr (set_prev before last_e h)))))"

definition list_push_front :: "addr \<Rightarrow> addr \<Rightarrow> lheap \<Rightarrow> lheap result" where
  "list_push_front l e h = rbind (list_begin h l) (\<lambda>b. list_insert b e h)"

definition list_push_back :: "addr \<Rightarrow> addr \<Rightarrow> lheap \<Rightarrow> lheap result" where
  "list_push_back l e h = rbind (list_end l) (\<lambda>b. list_insert b e h)"

definition list_remove :: "addr \<Rightarrow> lheap \<Rightarrow> (addr \<times> lheap) result" where
  "list_remove e h =
     rbind (rassert (is_interior h e)) (\<lambda>_.
     let h = set_next (elem_prev h e) (elem_next h e) h;
         h = set_prev (elem_next h e) (elem_prev h e) h
     in Inr (elem_next h e, h))"

definition list_empty :: "lheap \<Rightarrow> addr \<Rightarrow> bool result" where
  "list_empty h l = rbind (list_begin h l) (\<lambda>b. rbind (list_end l) (\<lambda>e. Inr (b = e)))"

definition list_front :: "lheap \<Rightarrow> addr \<Rightarrow> addr result" where
  "list_front h l =
     rbind (list_empty h l) (\<lambda>e. rbind (rassert (\<not> e)) (\<lambda>_. Inr (elem_next h l)))"

definition list_back :: "lheap \<Rightarrow> addr \<Rightarrow> addr result" where
  "list_back h l =
     rbind (list_empty h l) (\<lambda>e. rbind (rassert (\<not> e)) (\<lambda>_. Inr (elem_prev h (tail_of l))))"

definition list_pop_front :: "addr \<Rightarrow> lheap \<Rightarrow> (addr \<times> lheap) result" where
  "list_pop_front l h =
     rbind (list_front h l) (\<lambda>front. rbind (list_remove front h) (\<lambda>(_, h). Inr (front, h)))"

definition list_pop_back :: "addr \<Rightarrow> lheap \<Rightarrow> (addr \<times> lheap) result" where
  "list_pop_back l h =
     rbind (list_back h l) (\<lambda>back. rbind (list_remove back h) (\<lambda>(_, h). Inr (back, h)))"

section \<open>Traversals\<close>

partial_function (option) size_loop :: "lheap \<Rightarrow> addr \<Rightarrow> addr \<Rightarrow> nat \<Rightarrow> nat result option" where
  "size_loop h e tlp cnt =
     (if e = tlp then Some (Inr cnt)
      else obind (Some (list_next h e)) (\<lambda>e. size_loop h e tlp (sz_add cnt 1)))"

definition list_size :: "lheap \<Rightarrow> addr \<Rightarrow> nat result option" where
  "list_size h l =
     obind (Some (list_begin h l)) (\<lambda>b. obind (Some (list_end l)) (\<lambda>e. size_loop h b e 0))"

text \<open>The body of the first loop of \<open>list_reverse\<close> exchanges the two pointers of an element.\<close>

definition swap_links :: "addr \<Rightarrow> lheap \<Rightarrow> lheap" where
  "swap_links e h = set_next e (elem_prev h e) (set_prev e (elem_next h e) h)"

partial_function (option) reverse_loop :: "addr \<Rightarrow> addr \<Rightarrow> lheap \<Rightarrow> lheap option" where
  "reverse_loop e tlp h =
     (if e = tlp then Some h
      else let h = swap_links e h in reverse_loop (elem_prev h e) tlp h)"

definition list_reverse :: "addr \<Rightarrow> lheap \<Rightarrow> lheap result option" where
  "list_reverse l h =
     obind (Some (list_empty h l)) (\<lambda>emp.
     if emp then Some (Inr h)
     else
       obind (map_option Inr (reverse_loop (elem_next h l) (tail_of l) h)) (\<lambda>h.
       let a = elem_next h l; b = elem_prev h (tail_of l);
           h = set_prev (tail_of l) a (set_next l b h);
           x = elem_next h l; y = elem_prev h (tail_of l);
           a = elem_prev h x; b = elem_next h y
       in Some (Inr (set_next y a (set_prev x b h)))))"

type_synonym less_func = "addr \<Rightarrow> addr \<Rightarrow> bool"

partial_function (option) sorted_loop :: "less_func \<Rightarrow> lheap \<Rightarrow> addr \<Rightarrow> addr \<Rightarrow> bool result option" where
  "sorted_loop lessf h a b =
     obind (Some (list_next h a)) (\<lambda>a.
     if a = b then Some (Inr True)
     else obind (Some (list_prev h a)) (\<lambda>p.
          if lessf a p then Some (Inr False) else sorted_loop lessf h a b))"

definition is_sorted :: "less_func \<Rightarrow> lheap \<Rightarrow> addr \<Rightarrow> addr \<Rightarrow> bool result option" where
  "is_sorted lessf h a b = (if a \<noteq> b then sorted_loop lessf h a b else Some (Inr True))"

partial_function (option) run_loop :: "less_func \<Rightarrow> lheap \<Rightarrow> addr \<Rightarrow> addr \<Rightarrow> addr result option" where
  "run_loop lessf h a b =
     obind (Some (list_next h a)) (\<lambda>a.
     if a = b then Some (Inr a)
     else obind (Some (list_prev h a)) (\<lambda>p.
          if \<not> lessf a p then run_loop lessf h a b else Some (Inr a)))"

definition find_end_of_run :: "less_func \<Rightarrow> lheap \<Rightarrow> addr \<Rightarrow> addr \<Rightarrow> addr result option" where
  "find_end_of_run lessf h a b =
     obind (oassert (a \<noteq> NULL)) (\<lambda>_.
     obind (oassert (b \<noteq> NULL)) (\<lambda>_.
     obind (oassert (a \<noteq> b)) (\<lambda>_. run_loop lessf h a b)))"

partial_function (option) merge_loop :: "less_func \<Rightarrow> addr \<Rightarrow> addr \<Rightarrow> addr \<Rightarrow> lheap \<Rightarrow> lheap result option" where
  "merge_loop lessf a0 a1b0 b1 h =
     (if a0 \<noteq> a1b0 \<and> a1b0 \<noteq> b1 then
        (if \<not> lessf a1b0 a0 then obind (Some (list_next h a0)) (\<lambda>a0. merge_loop lessf a0 a1b0 b1 h)
         else
           obind (Some (list_next h a1b0)) (\<lambda>a1b0.
           obind (Some (list_prev h a1b0)) (\<lambda>p.
           obind (Some (list_splice a0 p a1b0 h)) (\<lambda>h. merge_loop lessf a0 a1b0 b1 h))))
      else Some (Inr h))"

definition inplace_merge :: "less_func \<Rightarrow> addr \<Rightarrow> addr \<Rightarrow> addr \<Rightarrow> lheap \<Rightarrow> lheap result option" where
  "inplace_merge lessf a0 a1b0 b1 h =
     obind (oassert (a0 \<noteq> NULL)) (\<lambda>_.
     obind (oassert (a1b0 \<noteq> NULL)) (\<lambda>_.
     obind (oassert (b1 \<noteq> NULL)) (\<lambda>_.
     obind (is_sorted lessf h a0 a1b0) (\<lambda>s1.
     obind (oassert s1) (\<lambda>_.
     obind (is_sorted lessf h a1b0 b1) (\<lambda>s2.
     obind (oassert s2) (\<lambda>_. merge_loop lessf a0 a1b0 b1 h)))))))"

text \<open>One pass of \<open>list_sort\<close> from \<open>a0\<close> with the number of output runs so far, then the passes.\<close>

partial_function (option) sort_pass :: "less_func \<Rightarrow> addr \<Rightarrow> addr \<Rightarrow> nat \<Rightarrow> lheap \<Rightarrow> (nat \<times> lheap) result option" where
  "sort_pass lessf tlp a0 cnt h =
     (if a0 = tlp then Some (Inr (cnt, h))
      else
        obind (find_end_of_run lessf h a0 tlp) (\<lambda>a1b0.
        if a1b0 = tlp then Some (Inr (sz_add cnt 1, h))
        else
          obind (find_end_of_run lessf h a1b0 tlp) (\<lambda>b1.
          obind (inplace_merge lessf a0 a1b0 b1 h) (\<lambda>h.
          sort_pass lessf tlp b1 (sz_add cnt 1) h))))"

partial_function (option) sort_loop :: "less_func \<Rightarrow> addr \<Rightarrow> lheap \<Rightarrow> lheap result option" where
  "sort_loop lessf l h =
     obind (sort_pass lessf (tail_of l) (elem_next h l) 0 h) (\<lambda>(cnt, h).
     if cnt > 1 then sort_loop lessf l h else Some (Inr h))"

definition list_sort :: "less_func \<Rightarrow> addr \<Rightarrow> lheap \<Rightarrow> lheap result option" where
  "list_sort lessf l h =
     obind (oassert (l \<noteq> NULL)) (\<lambda>_.
     obind (sort_loop lessf l h) (\<lambda>h.
     obind (is_sorted lessf h (elem_next h l) (tail_of l)) (\<lambda>s.
     obind (oassert s) (\<lambda>_. Some (Inr h)))))"

partial_function (option) ordered_loop :: "less_func \<Rightarrow> lheap \<Rightarrow> addr \<Rightarrow> addr \<Rightarrow> addr \<Rightarrow> addr result option" where
  "ordered_loop lessf h e tlp x =
     (if e = tlp \<or> lessf x e then Some (Inr e)
      else obind (Some (list_next h e)) (\<lambda>e. ordered_loop lessf h e tlp x))"

definition list_insert_ordered :: "less_func \<Rightarrow> addr \<Rightarrow> addr \<Rightarrow> lheap \<Rightarrow> lheap result option" where
  "list_insert_ordered lessf l x h =
     obind (oassert (l \<noteq> NULL)) (\<lambda>_.
     obind (oassert (x \<noteq> NULL)) (\<lambda>_.
     obind (ordered_loop lessf h (elem_next h l) (tail_of l) x) (\<lambda>e. Some (list_insert e x h))))"

partial_function (option) unique_loop :: "less_func \<Rightarrow> addr \<Rightarrow> addr \<Rightarrow> addr \<Rightarrow> lheap \<Rightarrow> lheap result option" where
  "unique_loop lessf tlp dup e h =
     obind (Some (list_next h e)) (\<lambda>nx.
     if nx = tlp then Some (Inr h)
     else if \<not> lessf e nx \<and> \<not> lessf nx e then
       obind (Some (list_remove nx h)) (\<lambda>(_, h).
       if dup \<noteq> NULL then obind (Some (list_push_back dup nx h)) (\<lambda>h. unique_loop lessf tlp dup e h)
       else unique_loop lessf tlp dup e h)
     else unique_loop lessf tlp dup nx h)"

definition list_unique :: "less_func \<Rightarrow> addr \<Rightarrow> addr \<Rightarrow> lheap \<Rightarrow> lheap result option" where
  "list_unique lessf l dup h =
     obind (oassert (l \<noteq> NULL)) (\<lambda>_.
     obind (Some (list_empty h l)) (\<lambda>emp.
     if emp then Some (Inr h) else unique_loop lessf (tail_of l) dup (elem_next h l) h))"

partial_function (option) max_loop :: "less_func \<Rightarrow> lheap \<Rightarrow> addr \<Rightarrow> addr \<Rightarrow> addr \<Rightarrow> addr result option" where
  "max_loop lessf h e tlp best =
     (if e = tlp then Some (Inr best)
      else obind (Some (list_next h e)) (\<lambda>nx. max_loop lessf h nx tlp (if lessf best e then e else best)))"

definition list_max :: "less_func \<Rightarrow> lheap \<Rightarrow> addr \<Rightarrow> addr result option" where
  "list_max lessf h l =
     obind (Some (list_begin h l)) (\<lambda>b.
     obind (Some (list_end l)) (\<lambda>tlp.
     if b \<noteq> tlp then obind (Some (list_next h b)) (\<lambda>e. max_loop lessf h e tlp b) else Some (Inr b)))"

partial_function (option) min_loop :: "less_func \<Rightarrow> lheap \<Rightarrow> addr \<Rightarrow> addr \<Rightarrow> addr \<Rightarrow> addr result option" where
  "min_loop lessf h e tlp best =
     (if e = tlp then Some (Inr best)
      else obind (Some (list_next h e)) (\<lambda>nx. min_loop lessf h nx tlp (if lessf e best then e else best)))"

definition list_min :: "less_func \<Rightarrow> lheap \<Rightarrow> addr \<Rightarrow> addr result option" where
  "list_min lessf h l =
     obind (Some (list_begin h l)) (\<lambda>b.
     obind (Some (list_end l)) (\<lambda>tlp.
     if b \<noteq> tlp then obind (Some (list_next h b)) (\<lambda>e. min_loop lessf h e tlp b) else Some (Inr b)))"

section \<open>Lists of nodes in the heap\<close>

definition link :: "lheap \<Rightarrow> addr \<Rightarrow> addr \<Rightarrow> bool" where
  "link h a b \<longleftrightarrow> elem_next h a = b \<and> elem_prev h b = a"

fun linked :: "lheap \<Rightarrow> addr list \<Rightarrow> bool" where
  "linked h (a # b # ns) \<longleftrightarrow> link h a b \<and> linked h (b # ns)"
| "linked h _ \<longleftrightarrow> True"

text \<open>A whole list with its head and tail elements, and the elements between them.\<close>

definition dll :: "lheap \<Rightarrow> addr list \<Rightarrow> bool" where
  "dll h ns \<longleftrightarrow> distinct ns \<and> NULL \<notin> set ns \<and> linked h ns
     \<and> elem_prev h (hd ns) = NULL \<and> elem_next h (last ns) = NULL"

definition klist :: "lheap \<Rightarrow> addr \<Rightarrow> addr list \<Rightarrow> bool" where
  "klist h l xs \<longleftrightarrow> dll h (l # xs @ [tail_of l])"

lemma in_set_tlD: "x \<in> set (tl xs) \<Longrightarrow> x \<in> set xs"
  by (cases xs) auto

lemma linked_append:
  "xs \<noteq> [] \<Longrightarrow> ys \<noteq> [] \<Longrightarrow> linked h (xs @ ys) \<longleftrightarrow> linked h xs \<and> link h (last xs) (hd ys) \<and> linked h ys"
proof (induction xs)
  case (Cons x xs)
  then show ?case by (cases xs; cases ys) auto
qed simp

lemma linked_Cons: "linked h (x # xs) \<longleftrightarrow> xs = [] \<or> link h x (hd xs) \<and> linked h xs"
  by (cases xs) auto

lemma linked_cong:
  assumes "\<And>x. x \<in> set (butlast ns) \<Longrightarrow> elem_next h' x = elem_next h x"
    and "\<And>x. x \<in> set (tl ns) \<Longrightarrow> elem_prev h' x = elem_prev h x"
  shows "linked h' ns = linked h ns"
  using assms
proof (induction ns)
  case (Cons a ns)
  then show ?case
  proof (cases ns)
    case (Cons b ms)
    have "linked h' ns = linked h ns"
      using Cons.prems Cons by (intro Cons.IH) (auto dest: in_set_tlD)
    then show ?thesis using Cons.prems Cons by (auto simp: link_def)
  qed simp
qed simp

lemma set_links [simp]:
  "elem_prev (set_prev e v h) = (elem_prev h)(e := v)" "elem_next (set_prev e v h) = elem_next h"
  "elem_next (set_next e v h) = (elem_next h)(e := v)" "elem_prev (set_next e v h) = elem_prev h"
  by (simp_all add: set_prev_def set_next_def)

lemma dll_mid:
  assumes "dll h (us @ p # e # q # vs)"
  shows "elem_prev h e = p" "elem_next h e = q" "elem_next h p = e" "elem_prev h q = e" "is_interior h e"
proof -
  have "linked h (p # e # q # vs)"
    using assms linked_append[of us "p # e # q # vs" h] by (cases us) (auto simp: dll_def)
  then show "elem_prev h e = p" "elem_next h e = q" "elem_next h p = e" "elem_prev h q = e"
    by (auto simp: link_def)
  then show "is_interior h e" using assms by (auto simp: dll_def is_interior_def)
qed

lemma dll_before:
  assumes "dll h (us @ p # q # vs)"
  shows "elem_prev h q = p" "elem_next h p = q" "is_interior h q \<or> is_tail h q"
proof -
  have "linked h (p # q # vs)"
    using assms linked_append[of us "p # q # vs" h] by (cases us) (auto simp: dll_def)
  then show "elem_prev h q = p" "elem_next h p = q" by (auto simp: link_def)
  then show "is_interior h q \<or> is_tail h q"
    using assms by (auto simp: dll_def is_interior_def is_tail_def)
qed

lemma dll_after:
  assumes "dll h (us @ p # q # vs)"
  shows "is_head h p \<or> is_interior h p"
proof -
  have "p \<noteq> NULL" "q \<noteq> NULL" using assms by (auto simp: dll_def)
  then show ?thesis using dll_before(2)[OF assms] by (auto simp: is_head_def is_interior_def)
qed

lemma list_next_dll: "dll h (us @ p # q # vs) \<Longrightarrow> list_next h p = Inr q"
  using dll_after[of h us p q vs] dll_before(2)[of h us p q vs] by (simp add: list_next_def)

lemma list_prev_dll: "dll h (us @ p # q # vs) \<Longrightarrow> list_prev h q = Inr p"
  using dll_before[of h us p q vs] by (simp add: list_prev_def)

lemma dll_frame:
  assumes "dll h ns" and "\<And>x. x \<in> set ns \<Longrightarrow> elem_prev h' x = elem_prev h x \<and> elem_next h' x = elem_next h x" and "ns \<noteq> []"
  shows "dll h' ns"
proof -
  have "linked h' ns = linked h ns"
    using assms(2) by (intro linked_cong) (auto dest: in_set_butlastD in_set_tlD)
  then show ?thesis using assms by (auto simp: dll_def)
qed

section \<open>Insertion and removal\<close>

lemma list_insert_dll:
  assumes "dll h (us @ p # q # vs)" and "e \<noteq> NULL" and "e \<notin> set (us @ p # q # vs)"
  shows "\<exists>h'. list_insert q e h = Inr h' \<and> dll h' (us @ p # e # q # vs)
    \<and> (\<forall>x. x \<noteq> e \<and> x \<noteq> p \<and> x \<noteq> q \<longrightarrow> elem_prev h' x = elem_prev h x \<and> elem_next h' x = elem_next h x)"
proof -
  let ?h = "set_prev q e (set_next p e (set_next e q (set_prev e p h)))"
  note q = dll_before[OF assms(1)]
  have d: "distinct (us @ p # q # vs)" "NULL \<notin> set (us @ p # q # vs)" using assms(1) by (auto simp: dll_def)
  have eq: "list_insert q e h = Inr ?h"
    using q assms by (auto simp: list_insert_def Let_def)
  have l: "linked h (us @ [p])" "linked h (q # vs)"
    using assms(1) linked_append[of "us @ [p]" "q # vs" h] by (auto simp: dll_def)
  have "linked ?h (us @ [p])"
    by (rule iffD2[OF linked_cong l(1)]) (use d assms(3) in \<open>auto simp: butlast_append dest: in_set_tlD\<close>)
  moreover have "linked ?h (q # vs)"
    by (rule iffD2[OF linked_cong l(2)]) (use d assms(3) in \<open>auto dest: in_set_butlastD split: if_splits\<close>)
  moreover have "link ?h p e" "link ?h e q"
    using d assms(3) by (auto simp: link_def)
  ultimately have "linked ?h (us @ p # e # q # vs)"
    using linked_append[of "us @ [p]" "e # q # vs" ?h] by (simp add: linked_Cons)
  moreover have "elem_prev ?h (hd (us @ p # e # q # vs)) = NULL"
    using assms d by (cases us) (auto simp: dll_def)
  moreover have "elem_next ?h (last (us @ p # e # q # vs)) = NULL"
    using assms d by (cases vs rule: rev_cases) (auto simp: dll_def)
  ultimately have "dll ?h (us @ p # e # q # vs)"
    using d assms by (auto simp: dll_def)
  then show ?thesis using eq by (intro exI[of _ ?h]) simp
qed

lemma list_remove_dll:
  assumes "dll h (us @ p # e # q # vs)"
  shows "\<exists>h'. list_remove e h = Inr (q, h') \<and> dll h' (us @ p # q # vs)
    \<and> (\<forall>x. x \<noteq> p \<and> x \<noteq> q \<longrightarrow> elem_prev h' x = elem_prev h x \<and> elem_next h' x = elem_next h x)"
proof -
  let ?h = "set_prev q p (set_next p q h)"
  note e = dll_mid[OF assms]
  have d: "distinct (us @ p # e # q # vs)" "NULL \<notin> set (us @ p # e # q # vs)" using assms by (auto simp: dll_def)
  have eq: "list_remove e h = Inr (q, ?h)"
    using e d by (auto simp: list_remove_def Let_def)
  have l: "linked h (us @ [p])" "linked h (q # vs)"
    using assms linked_append[of "us @ [p]" "e # q # vs" h] by (auto simp: dll_def)
  have "linked ?h (us @ [p])"
    by (rule iffD2[OF linked_cong l(1)]) (use d in \<open>auto simp: butlast_append dest: in_set_tlD\<close>)
  moreover have "linked ?h (q # vs)"
    by (rule iffD2[OF linked_cong l(2)]) (use d in \<open>auto dest: in_set_butlastD split: if_splits\<close>)
  moreover have "link ?h p q" using d by (auto simp: link_def)
  ultimately have "linked ?h (us @ p # q # vs)"
    using linked_append[of "us @ [p]" "q # vs" ?h] by simp
  moreover have "elem_prev ?h (hd (us @ p # q # vs)) = NULL"
    using assms d by (cases us) (auto simp: dll_def)
  moreover have "elem_next ?h (last (us @ p # q # vs)) = NULL"
    using assms d by (cases vs rule: rev_cases) (auto simp: dll_def)
  ultimately have "dll ?h (us @ p # q # vs)"
    using d by (auto simp: dll_def)
  then show ?thesis using eq by (intro exI[of _ ?h]) simp
qed

definition nodes :: "addr \<Rightarrow> addr list \<Rightarrow> addr set" where
  "nodes l xs = set (l # xs @ [tail_of l])"

text \<open>The element that follows the first \<open>length xs\<close> elements is the head of \<open>ys @ [tail]\<close>.\<close>

definition first_of :: "addr \<Rightarrow> addr list \<Rightarrow> addr" where
  "first_of l ys = hd (ys @ [tail_of l])"

lemma first_of_simps [simp]: "first_of l [] = tail_of l" "first_of l (y # ys) = y"
  by (simp_all add: first_of_def)

definition same_links :: "lheap \<Rightarrow> lheap \<Rightarrow> addr set \<Rightarrow> bool" where
  "same_links h h' A \<longleftrightarrow> (\<forall>x. x \<notin> A \<longrightarrow> elem_prev h' x = elem_prev h x \<and> elem_next h' x = elem_next h x)"

lemma klist_nodes:
  "l # (xs @ ys) @ [tail_of l] = butlast (l # xs) @ last (l # xs) # first_of l ys # tl (ys @ [tail_of l])"
proof -
  have "butlast (l # xs) @ [last (l # xs)] = l # xs" by (rule append_butlast_last_id) simp
  moreover have "first_of l ys # tl (ys @ [tail_of l]) = ys @ [tail_of l]" by (simp add: first_of_def)
  ultimately show ?thesis by (metis append.assoc append_Cons append_Nil)
qed

lemma klist_dll:
  "klist h l (xs @ ys) \<longleftrightarrow> dll h (butlast (l # xs) @ last (l # xs) # first_of l ys # tl (ys @ [tail_of l]))"
  unfolding klist_def klist_nodes[symmetric] ..

lemma klist_distinct: "klist h l xs \<Longrightarrow> distinct (l # xs @ [tail_of l])" "klist h l xs \<Longrightarrow> NULL \<notin> nodes l xs"
  by (auto simp: klist_def dll_def nodes_def)

lemma klist_frame:
  assumes "klist h k zs" and "same_links h h' A" and "A \<inter> nodes k zs = {}"
  shows "klist h' k zs"
  unfolding klist_def
  by (rule dll_frame[OF assms(1)[unfolded klist_def]]) (use assms(2,3) in \<open>auto simp: same_links_def nodes_def\<close>)

lemma last_in_nodes: "last (l # xs) \<in> nodes l (xs @ ys)"
  by (auto simp: nodes_def)

lemma first_in_nodes: "first_of l ys \<in> nodes l (xs @ ys)"
  by (cases ys) (auto simp: nodes_def)

lemma list_init_klist:
  assumes "l \<noteq> NULL" and "tail_of l \<noteq> NULL"
  shows "\<exists>h'. list_init l h = Inr h' \<and> klist h' l [] \<and> same_links h h' (nodes l [])"
proof -
  have "l \<noteq> tail_of l" by (simp add: tail_of_def)
  then show ?thesis
    using assms by (auto simp: list_init_def klist_def dll_def link_def same_links_def nodes_def)
qed

lemma list_insert_klist:
  assumes "klist h l (xs @ ys)" and "e \<noteq> NULL" and "e \<notin> nodes l (xs @ ys)"
  shows "\<exists>h'. list_insert (first_of l ys) e h = Inr h' \<and> klist h' l (xs @ e # ys)
    \<and> same_links h h' (insert e (nodes l (xs @ ys)))"
proof -
  have "e \<notin> set (butlast (l # xs) @ last (l # xs) # first_of l ys # tl (ys @ [tail_of l]))"
    using assms(3) unfolding nodes_def klist_nodes .
  from list_insert_dll[OF assms(1)[unfolded klist_dll] assms(2) this]
  obtain h' where h': "list_insert (first_of l ys) e h = Inr h'"
      "dll h' (butlast (l # xs) @ last (l # xs) # e # first_of l ys # tl (ys @ [tail_of l]))"
      "\<And>x. x \<noteq> e \<Longrightarrow> x \<noteq> last (l # xs) \<Longrightarrow> x \<noteq> first_of l ys \<Longrightarrow>
        elem_prev h' x = elem_prev h x \<and> elem_next h' x = elem_next h x"
    by blast
  have "klist h' l (xs @ e # ys)"
    using h'(2) unfolding klist_dll by (simp add: first_of_def)
  moreover have "same_links h h' (insert e (nodes l (xs @ ys)))"
    using h'(3) last_in_nodes[of l xs ys] first_in_nodes[of l ys xs] by (auto simp: same_links_def)
  ultimately show ?thesis using h'(1) by blast
qed

lemma list_remove_klist:
  assumes "klist h l (xs @ e # ys)"
  shows "\<exists>h'. list_remove e h = Inr (first_of l ys, h') \<and> klist h' l (xs @ ys)
    \<and> same_links h h' (nodes l (xs @ ys))"
proof -
  have "dll h (butlast (l # xs) @ last (l # xs) # e # first_of l ys # tl (ys @ [tail_of l]))"
    using assms unfolding klist_dll by (simp add: first_of_def)
  from list_remove_dll[OF this]
  obtain h' where h': "list_remove e h = Inr (first_of l ys, h')"
      "dll h' (butlast (l # xs) @ last (l # xs) # first_of l ys # tl (ys @ [tail_of l]))"
      "\<And>x. x \<noteq> last (l # xs) \<Longrightarrow> x \<noteq> first_of l ys \<Longrightarrow>
        elem_prev h' x = elem_prev h x \<and> elem_next h' x = elem_next h x"
    by blast
  moreover have "same_links h h' (nodes l (xs @ ys))"
    unfolding same_links_def using h'(3) last_in_nodes[of l xs ys] first_in_nodes[of l ys xs] by metis
  ultimately show ?thesis by (auto simp: klist_dll)
qed

lemma list_begin_klist: "klist h l xs \<Longrightarrow> list_begin h l = Inr (first_of l xs)"
  using dll_before(2)[of h "[]" l "first_of l xs" "tl (xs @ [tail_of l])"] klist_dll[of h l "[]" xs] klist_distinct(2)[of h l xs]
  by (auto simp: list_begin_def nodes_def)

lemma list_end_klist: "klist h l xs \<Longrightarrow> list_end l = Inr (tail_of l)"
  using klist_distinct(2)[of h l xs] by (auto simp: list_end_def nodes_def)

lemma first_of_tail: "klist h l (xs @ ys) \<Longrightarrow> first_of l ys = tail_of l \<longleftrightarrow> ys = []"
  using klist_distinct(1)[of h l "xs @ ys"] by (cases ys) auto

lemma list_empty_klist: "klist h l xs \<Longrightarrow> list_empty h l = Inr (xs = [])"
  using first_of_tail[of h l "[]" xs] by (simp add: list_empty_def list_begin_klist list_end_klist)

lemma elem_next_head: "klist h l xs \<Longrightarrow> elem_next h l = first_of l xs"
  using list_begin_klist[of h l xs] klist_distinct(2)[of h l xs] by (auto simp: list_begin_def nodes_def)

lemma elem_prev_tail: "klist h l xs \<Longrightarrow> elem_prev h (tail_of l) = last (l # xs)"
  using dll_before(1)[of h "butlast (l # xs)" "last (l # xs)" "tail_of l" "[]"] klist_dll[of h l xs "[]"] by simp

lemma list_next_klist: "klist h l (xs @ y # ys) \<Longrightarrow> list_next h y = Inr (first_of l ys)"
  using list_next_dll[of h "l # xs" y "first_of l ys" "tl (ys @ [tail_of l])"] klist_dll[of h l "xs @ [y]" ys] by simp

lemma list_prev_klist: "klist h l (xs @ ys) \<Longrightarrow> list_prev h (first_of l ys) = Inr (last (l # xs))"
  using list_prev_dll klist_dll by blast

text \<open>The operations at the two ends.\<close>

lemma list_push_front_klist:
  assumes "klist h l xs" and "e \<noteq> NULL" and "e \<notin> nodes l xs"
  shows "\<exists>h'. list_push_front l e h = Inr h' \<and> klist h' l (e # xs) \<and> same_links h h' (insert e (nodes l xs))"
  using list_insert_klist[of h l "[]" xs e] assms by (simp add: list_push_front_def list_begin_klist)

lemma list_push_back_klist:
  assumes "klist h l xs" and "e \<noteq> NULL" and "e \<notin> nodes l xs"
  shows "\<exists>h'. list_push_back l e h = Inr h' \<and> klist h' l (xs @ [e]) \<and> same_links h h' (insert e (nodes l xs))"
  using list_insert_klist[of h l xs "[]" e] assms by (simp add: list_push_back_def list_end_klist)

lemma list_pop_front_klist:
  assumes "klist h l (x # xs)"
  shows "\<exists>h'. list_pop_front l h = Inr (x, h') \<and> klist h' l xs \<and> same_links h h' (nodes l xs)"
  using list_remove_klist[of h l "[]" x xs] assms
  by (auto simp: list_pop_front_def list_front_def list_empty_klist elem_next_head)

lemma list_pop_back_klist:
  assumes "klist h l (xs @ [x])"
  shows "\<exists>h'. list_pop_back l h = Inr (x, h') \<and> klist h' l xs \<and> same_links h h' (nodes l xs)"
  using list_remove_klist[of h l xs x "[]"] assms
  by (auto simp: list_pop_back_def list_back_def list_empty_klist elem_prev_tail)

lemma list_pop_front_empty: "klist h l [] \<Longrightarrow> list_pop_front l h = Inl Assert_fail"
  by (simp add: list_pop_front_def list_front_def list_empty_klist)

section \<open>Traversals\<close>

lemma size_loop_klist:
  "klist h l (xs @ ys) \<Longrightarrow> cnt + length ys < 2 ^ 32 \<Longrightarrow> size_loop h (first_of l ys) (tail_of l) cnt = Some (Inr (cnt + length ys))"
proof (induction ys arbitrary: xs cnt)
  case Nil
  then show ?case by (simp add: size_loop.simps[of h "tail_of l"])
next
  case (Cons y ys)
  have "size_loop h (first_of l ys) (tail_of l) (Suc cnt) = Some (Inr (Suc cnt + length ys))"
    using Cons.IH[of "xs @ [y]" "Suc cnt"] Cons.prems by simp
  then show ?case
    using list_next_klist[OF Cons.prems(1)] first_of_tail[OF Cons.prems(1)] Cons.prems(2)
    by (simp add: size_loop.simps[of h y] sz_add_exact)
qed

lemma list_size_klist: "klist h l xs \<Longrightarrow> length xs < 2 ^ 32 \<Longrightarrow> list_size h l = Some (Inr (length xs))"
  using size_loop_klist[of h l "[]" xs 0] by (simp add: list_size_def list_begin_klist list_end_klist)

lemma ordered_loop_klist:
  "klist h l (xs @ ys) \<Longrightarrow>
   ordered_loop lessf h (first_of l ys) (tail_of l) x = Some (Inr (first_of l (dropWhile (\<lambda>y. \<not> lessf x y) ys)))"
proof (induction ys arbitrary: xs)
  case Nil
  then show ?case by (simp add: ordered_loop.simps[of lessf h "tail_of l"])
next
  case (Cons y ys)
  then show ?case
    using list_next_klist[OF Cons.prems] first_of_tail[OF Cons.prems] Cons.IH[of "xs @ [y]"]
    by (simp add: ordered_loop.simps[of lessf h y])
qed

lemma list_insert_ordered_klist:
  assumes "klist h l xs" and "x \<noteq> NULL" and "x \<notin> nodes l xs"
  shows "\<exists>h'. list_insert_ordered lessf l x h = Some (Inr h')
    \<and> klist h' l (takeWhile (\<lambda>y. \<not> lessf x y) xs @ x # dropWhile (\<lambda>y. \<not> lessf x y) xs)
    \<and> same_links h h' (insert x (nodes l xs))"
  using ordered_loop_klist[of h l "[]" xs lessf x] assms klist_distinct(2)[OF assms(1)]
    list_insert_klist[of h l "takeWhile (\<lambda>y. \<not> lessf x y) xs" "dropWhile (\<lambda>y. \<not> lessf x y) xs" x]
  by (auto simp: list_insert_ordered_def elem_next_head nodes_def)

text \<open>\<open>list_max\<close> and \<open>list_min\<close> fold the comparison over the elements.\<close>

lemma max_loop_klist:
  "klist h l (xs @ ys) \<Longrightarrow>
   max_loop lessf h (first_of l ys) (tail_of l) best = Some (Inr (foldl (\<lambda>b e. if lessf b e then e else b) best ys))"
proof (induction ys arbitrary: xs best)
  case Nil
  then show ?case by (simp add: max_loop.simps[of lessf h "tail_of l"])
next
  case (Cons y ys)
  then show ?case
    using list_next_klist[OF Cons.prems] first_of_tail[OF Cons.prems] Cons.IH[of "xs @ [y]"]
    by (simp add: max_loop.simps[of lessf h y])
qed

lemma min_loop_klist:
  "klist h l (xs @ ys) \<Longrightarrow>
   min_loop lessf h (first_of l ys) (tail_of l) best = Some (Inr (foldl (\<lambda>b e. if lessf e b then e else b) best ys))"
proof (induction ys arbitrary: xs best)
  case Nil
  then show ?case by (simp add: min_loop.simps[of lessf h "tail_of l"])
next
  case (Cons y ys)
  then show ?case
    using list_next_klist[OF Cons.prems] first_of_tail[OF Cons.prems] Cons.IH[of "xs @ [y]"]
    by (simp add: min_loop.simps[of lessf h y])
qed

lemma list_max_klist:
  "klist h l (x # xs) \<Longrightarrow> list_max lessf h l = Some (Inr (foldl (\<lambda>b e. if lessf b e then e else b) x xs))"
  using max_loop_klist[of h l "[x]" xs lessf x] list_next_klist[of h l "[]" x xs] first_of_tail[of h l "[]" "x # xs"]
  by (simp add: list_max_def list_begin_klist list_end_klist)

lemma list_min_klist:
  "klist h l (x # xs) \<Longrightarrow> list_min lessf h l = Some (Inr (foldl (\<lambda>b e. if lessf e b then e else b) x xs))"
  using min_loop_klist[of h l "[x]" xs lessf x] list_next_klist[of h l "[]" x xs] first_of_tail[of h l "[]" "x # xs"]
  by (simp add: list_min_def list_begin_klist list_end_klist)

section \<open>Splicing and merging\<close>

lemma distinct_hd_tl: "distinct xs \<Longrightarrow> xs \<noteq> [] \<Longrightarrow> hd xs \<notin> set (tl xs)"
  by (cases xs) auto

lemma distinct_butlast_last: "distinct xs \<Longrightarrow> xs \<noteq> [] \<Longrightarrow> last xs \<notin> set (butlast xs)"
  by (cases xs rule: rev_cases) auto

lemma dll_interior:
  assumes "dll h (us @ e # vs)" and "us \<noteq> []" and "vs \<noteq> []"
  shows "is_interior h e"
proof -
  obtain us' p q vs' where "us = us' @ [p]" "vs = q # vs'"
    using assms(2,3) by (metis append_butlast_last_id list.exhaust)
  then show ?thesis using dll_mid(5)[of h us' p e q vs'] assms(1) by simp
qed

lemma list_splice_dll:
  assumes dl: "dll h (us @ p # a # as @ S @ c # vs)" and S: "S \<noteq> []"
  shows "\<exists>h'. list_splice a (hd S) c h = Inr h' \<and> dll h' (us @ p # S @ a # as @ c # vs)
    \<and> same_links h h' (set (us @ p # a # as @ S @ c # vs))"
proof -
  define d where "d = last (a # as)"
  let ?h = "set_prev a (last S) (set_next p (hd S) (set_next (last S) a (set_prev (hd S) p (set_prev c d (set_next d c h)))))"
  let ?ns = "(us @ [p]) @ (a # as) @ S @ (c # vs)"
  have dl': "dll h ?ns" using dl by simp
  have D: "distinct ?ns" "NULL \<notin> set ?ns" using dl' by (auto simp: dll_def)
  have in_S: "hd S \<in> set S" "last S \<in> set S" using S by auto
  have in_d: "d \<in> set (a # as)" by (auto simp: d_def)
  have L: "linked h (us @ [p])" "linked h (a # as)" "linked h S" "linked h (c # vs)"
    and K: "link h p a" "link h d (hd S)" "link h (last S) c"
    using dl' S by (auto simp: dll_def linked_append d_def simp del: append_assoc append_Cons)
  have Seq: "?ns = ((us @ [p]) @ (a # as) @ butlast S) @ last S # c # vs" "?ns = ((us @ [p]) @ (a # as)) @ hd S # tl S @ c # vs"
    using S by simp_all
  have int_S: "is_interior h (hd S)" "is_interior h (last S)"
    using dll_interior[OF dl'[unfolded Seq(2)]] dll_interior[OF dl'[unfolded Seq(1)]] by auto
  have "is_interior h a \<or> is_tail h a" using dll_before(3)[OF dl] .
  moreover have "list_prev h c = Inr (last S)" using list_prev_dll[OF dl'[unfolded Seq(1)]] .
  moreover have "hd S \<noteq> c" using D in_S by auto
  ultimately have eq: "list_splice a (hd S) c h = Inr ?h"
    using int_S K D in_S in_d by (auto simp: list_splice_def Let_def link_def)
  have hn: "elem_next ?h = (elem_next h)(d := c, last S := a, p := hd S)"
    and hp: "elem_prev ?h = (elem_prev h)(c := d, hd S := p, a := last S)" by simp_all
  have dj: "set (us @ [p]) \<inter> {d, last S, c, hd S, a} = {}" "set S \<inter> {d, p, c, a} = {}"
      "set (a # as) \<inter> {last S, p, c, hd S} = {}" "set (c # vs) \<inter> {d, last S, p, hd S, a} = {}"
    using D(1) in_S in_d by auto
  have ends: "p \<notin> set us" "last S \<notin> set (butlast S)" "hd S \<notin> set (tl S)" "d \<notin> set (butlast (a # as))" "a \<notin> set as" "c \<notin> set vs"
    using D(1) distinct_butlast_last[of S] distinct_hd_tl[of S] distinct_butlast_last[of "a # as"] S unfolding d_def by auto
  have "linked ?h (us @ [p])"
    by (rule iffD2[OF linked_cong L(1)]; unfold hn hp) (use dj(1) ends(1) in \<open>auto dest!: in_set_tlD\<close>)
  moreover have "linked ?h S"
    by (rule iffD2[OF linked_cong L(3)]; unfold hn hp)
       (use dj(2) ends(2,3) in \<open>auto dest: in_set_tlD in_set_butlastD\<close>)
  moreover have "linked ?h (a # as)"
    by (rule iffD2[OF linked_cong L(2)]; unfold hn hp) (use dj(3) ends(4,5) in \<open>auto dest: in_set_butlastD split: if_splits\<close>)
  moreover have "linked ?h (c # vs)"
    by (rule iffD2[OF linked_cong L(4)]; unfold hn hp) (use dj(4) ends(6) in \<open>auto dest: in_set_butlastD split: if_splits\<close>)
  moreover have "link ?h p (hd S)" "link ?h (last S) a" "link ?h d c"
    unfolding link_def hn hp using dj in_S in_d by auto
  ultimately have "linked ?h ((us @ [p]) @ S @ (a # as) @ (c # vs))"
    using S by (simp add: linked_append d_def del: append_assoc append_Cons)
  moreover have "elem_prev ?h (hd ((us @ [p]) @ S @ (a # as) @ (c # vs))) = NULL"
    unfolding hp using dl' dj(1) by (cases us) (auto simp: dll_def)
  moreover have "elem_next ?h (last ((us @ [p]) @ S @ (a # as) @ (c # vs))) = NULL"
    unfolding hn using dl' dj(4) by (cases vs rule: rev_cases) (auto simp: dll_def)
  moreover have "distinct ((us @ [p]) @ S @ (a # as) @ (c # vs))" using D(1) by auto
  ultimately have "dll ?h (us @ p # S @ a # as @ c # vs)" using D(2) by (simp add: dll_def)
  moreover have "same_links h ?h (set (us @ p # a # as @ S @ c # vs))"
    using in_S in_d by (auto simp: same_links_def)
  ultimately show ?thesis using eq by blast
qed

lemma list_splice_klist:
  assumes "klist h l (P @ A @ S @ Q)" and "A \<noteq> []" and "S \<noteq> []"
  shows "\<exists>h'. list_splice (first_of l (A @ S @ Q)) (first_of l (S @ Q)) (first_of l Q) h = Inr h'
    \<and> klist h' l (P @ S @ A @ Q) \<and> same_links h h' (nodes l (P @ A @ S @ Q))"
proof -
  obtain a as where A: "A = a # as" using assms(2) by (cases A) auto
  have eq: "l # (P @ A @ S @ Q) @ [tail_of l] = butlast (l # P) @ last (l # P) # a # as @ S @ first_of l Q # tl (Q @ [tail_of l])"
    "l # (P @ S @ A @ Q) @ [tail_of l] = butlast (l # P) @ last (l # P) # S @ a # as @ first_of l Q # tl (Q @ [tail_of l])"
    using A assms(3) klist_nodes[of l P "A @ S @ Q"] klist_nodes[of l P "S @ A @ Q"]
    by (cases S; simp add: first_of_def)+
  have "dll h (butlast (l # P) @ last (l # P) # a # as @ S @ first_of l Q # tl (Q @ [tail_of l]))"
    using assms(1) unfolding klist_def eq .
  from list_splice_dll[OF this assms(3)] show ?thesis
    using A assms(3) unfolding klist_def nodes_def eq by (cases S) auto
qed

section \<open>Sorting\<close>

text \<open>The reference: a merge that takes from the right only what is smaller, and runs.\<close>

fun smerge :: "less_func \<Rightarrow> addr list \<Rightarrow> addr list \<Rightarrow> addr list" where
  "smerge lessf [] B = B"
| "smerge lessf A [] = A"
| "smerge lessf (a # A) (b # B) =
     (if \<not> lessf b a then a # smerge lessf A (b # B) else b # smerge lessf (a # A) B)"

fun nondec :: "less_func \<Rightarrow> addr list \<Rightarrow> bool" where
  "nondec lessf (a # b # xs) \<longleftrightarrow> \<not> lessf b a \<and> nondec lessf (b # xs)"
| "nondec lessf _ \<longleftrightarrow> True"

fun take_run :: "less_func \<Rightarrow> addr \<Rightarrow> addr list \<Rightarrow> addr list" where
  "take_run lessf a [] = []"
| "take_run lessf a (b # xs) = (if \<not> lessf b a then b # take_run lessf b xs else [])"

fun drop_run :: "less_func \<Rightarrow> addr \<Rightarrow> addr list \<Rightarrow> addr list" where
  "drop_run lessf a [] = []"
| "drop_run lessf a (b # xs) = (if \<not> lessf b a then drop_run lessf b xs else b # xs)"

lemma take_drop_run: "take_run lessf a xs @ drop_run lessf a xs = xs"
  by (induction lessf a xs rule: take_run.induct) auto

lemma nondec_take_run: "nondec lessf (a # take_run lessf a xs)"
  by (induction lessf a xs rule: take_run.induct) auto

lemma length_drop_run: "length (drop_run lessf a xs) \<le> length xs"
  by (induction lessf a xs rule: drop_run.induct) auto

lemma mset_smerge: "mset (smerge lessf A B) = mset A + mset B"
  by (induction lessf A B rule: smerge.induct) auto

lemma merge_loop_klist:
  "klist h l (P @ A @ B @ Q) \<Longrightarrow>
   \<exists>h'. merge_loop lessf (first_of l (A @ B @ Q)) (first_of l (B @ Q)) (first_of l Q) h = Some (Inr h')
     \<and> klist h' l (P @ smerge lessf A B @ Q) \<and> same_links h h' (nodes l (P @ A @ B @ Q))"
proof (induction lessf A B arbitrary: P h rule: smerge.induct)
  case (1 lessf B)
  then show ?case by (auto simp: merge_loop.simps[of lessf "first_of l (B @ Q)"] same_links_def)
next
  case (2 lessf a A)
  then show ?case by (auto simp: merge_loop.simps[of lessf a "first_of l Q"] same_links_def)
next
  case (3 lessf a A b B)
  have "distinct (l # (P @ (a # A) @ (b # B) @ Q) @ [tail_of l])" using klist_distinct(1)[OF "3.prems"] .
  then have ne: "a \<noteq> b" "b \<noteq> first_of l Q" by (cases Q; auto)+
  note unf = merge_loop.simps[of lessf a b "first_of l Q" h]
  show ?case
  proof (cases "lessf b a")
    case False
    have "list_next h a = Inr (first_of l (A @ (b # B) @ Q))"
      using list_next_klist[of h l P a "A @ (b # B) @ Q"] "3.prems" by simp
    then have "merge_loop lessf a b (first_of l Q) h = merge_loop lessf (first_of l (A @ (b # B) @ Q)) (first_of l ((b # B) @ Q)) (first_of l Q) h"
      using ne False by (simp add: unf)
    then show ?thesis using "3.IH"(1)[OF False, of h "P @ [a]"] "3.prems" False by simp
  next
    case True
    let ?c = "first_of l (B @ Q)"
    have "list_next h b = Inr ?c" "list_prev h ?c = Inr b"
      using list_next_klist[of h l "P @ a # A" b "B @ Q"] list_prev_klist[of h l "P @ a # A @ [b]" "B @ Q"] "3.prems" by auto
    moreover obtain h1 where h1: "list_splice a b ?c h = Inr h1" "klist h1 l (P @ b # (a # A) @ B @ Q)"
        "same_links h h1 (nodes l (P @ (a # A) @ (b # B) @ Q))"
      using list_splice_klist[of h l P "a # A" "[b]" "B @ Q"] "3.prems" by auto
    ultimately have step: "merge_loop lessf a b (first_of l Q) h = merge_loop lessf a ?c (first_of l Q) h1"
      using ne True by (simp add: unf)
    obtain h2 where h2: "merge_loop lessf a ?c (first_of l Q) h1 = Some (Inr h2)"
        "klist h2 l (P @ b # smerge lessf (a # A) B @ Q)" "same_links h1 h2 (nodes l (P @ b # (a # A) @ B @ Q))"
      using "3.IH"(2)[of h1 "P @ [b]"] True h1(2) by auto
    have "nodes l (P @ b # (a # A) @ B @ Q) = nodes l (P @ (a # A) @ (b # B) @ Q)" by (auto simp: nodes_def)
    then have "same_links h h2 (nodes l (P @ (a # A) @ (b # B) @ Q))"
      using h1(3) h2(3) by (simp add: same_links_def)
    then show ?thesis using step h2 True by auto
  qed
qed

lemma sorted_loop_klist:
  "klist h l (P @ a # A @ Q) \<Longrightarrow> sorted_loop lessf h a (first_of l Q) = Some (Inr (nondec lessf (a # A)))"
proof (induction A arbitrary: P a)
  case Nil
  then show ?case using list_next_klist[of h l P a Q] by (simp add: sorted_loop.simps[of lessf h a])
next
  case (Cons b A)
  have "b \<noteq> first_of l Q" using klist_distinct(1)[OF Cons.prems] by (cases Q) auto
  moreover have "list_next h a = Inr b" "list_prev h b = Inr a"
    using list_next_klist[of h l P a "b # A @ Q"] list_prev_klist[of h l "P @ [a]" "b # A @ Q"] Cons.prems by auto
  ultimately show ?case
    using Cons.IH[of "P @ [a]" b] Cons.prems by (simp add: sorted_loop.simps[of lessf h a])
qed

lemma is_sorted_klist:
  assumes "klist h l (P @ A @ Q)"
  shows "is_sorted lessf h (first_of l (A @ Q)) (first_of l Q) = Some (Inr (nondec lessf A))"
proof (cases A)
  case (Cons a as)
  then have "a \<noteq> first_of l Q" using klist_distinct(1)[OF assms] by (cases Q) auto
  then show ?thesis using sorted_loop_klist[of h l P a as Q] assms Cons by (simp add: is_sorted_def)
qed (simp add: is_sorted_def)

lemma find_end_of_run_klist:
  assumes "klist h l (P @ a # A)"
  shows "find_end_of_run lessf h a (tail_of l) = Some (Inr (first_of l (drop_run lessf a A)))"
proof -
  have "run_loop lessf h a (tail_of l) = Some (Inr (first_of l (drop_run lessf a A)))" if "klist h l (P @ a # A)" for P a A
    using that
  proof (induction A arbitrary: P a)
    case Nil
    then show ?case using list_next_klist[of h l P a "[]"] by (simp add: run_loop.simps[of lessf h a])
  next
    case (Cons b A)
    have "b \<noteq> tail_of l" using klist_distinct(1)[OF Cons.prems] by auto
    moreover have "list_next h a = Inr b" "list_prev h b = Inr a"
      using list_next_klist[of h l P a "b # A"] list_prev_klist[of h l "P @ [a]" "b # A"] Cons.prems by auto
    ultimately show ?case
      using Cons.IH[of "P @ [a]" b] Cons.prems by (simp add: run_loop.simps[of lessf h a])
  qed
  then show ?thesis
    using klist_distinct[OF assms] assms by (auto simp: find_end_of_run_def nodes_def)
qed

lemma first_of_nonnull: "klist h l (P @ Q) \<Longrightarrow> first_of l Q \<noteq> NULL"
  using klist_distinct(2)[of h l "P @ Q"] first_in_nodes[of l Q P] by auto

lemma inplace_merge_klist:
  assumes "klist h l (P @ A @ B @ Q)" and "nondec lessf A" "nondec lessf B"
  shows "\<exists>h'. inplace_merge lessf (first_of l (A @ B @ Q)) (first_of l (B @ Q)) (first_of l Q) h = Some (Inr h')
     \<and> klist h' l (P @ smerge lessf A B @ Q) \<and> same_links h h' (nodes l (P @ A @ B @ Q))"
  using merge_loop_klist[OF assms(1), of lessf] is_sorted_klist[of h l P A "B @ Q" lessf] is_sorted_klist[of h l "P @ A" B Q lessf]
    first_of_nonnull[of h l P "A @ B @ Q"] first_of_nonnull[of h l "P @ A" "B @ Q"] first_of_nonnull[of h l "P @ A @ B" Q] assms
  by (simp add: inplace_merge_def)

text \<open>One pass: merge the runs two by two and count the results.\<close>

function spass :: "less_func \<Rightarrow> addr list \<Rightarrow> addr list \<times> nat" where
  "spass lessf [] = ([], 0)"
| "spass lessf (a # A) =
     (case drop_run lessf a A of
        [] \<Rightarrow> (a # A, 1)
      | b # B \<Rightarrow>
          (let (ys, n) = spass lessf (drop_run lessf b B)
           in (smerge lessf (a # take_run lessf a A) (b # take_run lessf b B) @ ys, Suc n)))"
  by pat_completeness auto
termination
proof (relation "measure (\<lambda>(f, xs). length xs)")
  fix lessf :: less_func and a A b B
  assume "drop_run lessf a A = b # B"
  then have "Suc (length B) \<le> length A" using length_drop_run[of lessf a A] by simp
  then show "((lessf, drop_run lessf b B), lessf, a # A) \<in> measure (\<lambda>(f, xs). length xs)"
    using length_drop_run[of lessf b B] by simp
qed simp

lemma mset_spass: "mset (fst (spass lessf xs)) = mset xs"
proof (induction lessf xs rule: spass.induct)
  case (2 lessf a A)
  show ?case
  proof (cases "drop_run lessf a A")
    case (Cons b B)
    have "mset A = mset (take_run lessf a A) + mset (b # B)" "mset B = mset (take_run lessf b B) + mset (drop_run lessf b B)"
      using take_drop_run[of lessf a A] take_drop_run[of lessf b B] Cons by (metis mset_append)+
    then show ?thesis using 2 Cons by (cases "spass lessf (drop_run lessf b B)") (auto simp: mset_smerge)
  qed simp
qed simp

lemma snd_spass_le: "snd (spass lessf xs) \<le> length xs"
proof (induction lessf xs rule: spass.induct)
  case (2 lessf a A)
  show ?case
  proof (cases "drop_run lessf a A")
    case (Cons b B)
    then show ?thesis
      using 2 length_drop_run[of lessf a A] length_drop_run[of lessf b B] by (auto split: prod.splits)
  qed simp
qed simp

lemma sort_pass_klist:
  "klist h l (P @ xs) \<Longrightarrow> cnt + snd (spass lessf xs) < 2 ^ 32 \<Longrightarrow>
   \<exists>h'. sort_pass lessf (tail_of l) (first_of l xs) cnt h = Some (Inr (cnt + snd (spass lessf xs), h'))
     \<and> klist h' l (P @ fst (spass lessf xs)) \<and> same_links h h' (nodes l (P @ xs))"
proof (induction lessf xs arbitrary: P h cnt rule: spass.induct)
  case (1 lessf)
  then show ?case by (auto simp: sort_pass.simps[of lessf "tail_of l" "tail_of l"] same_links_def)
next
  case (2 lessf a A)
  note unf = sort_pass.simps[of lessf "tail_of l" a cnt h]
  have a: "a \<noteq> tail_of l" using klist_distinct(1)[OF "2.prems"(1)] by auto
  have run: "find_end_of_run lessf h a (tail_of l) = Some (Inr (first_of l (drop_run lessf a A)))"
    using find_end_of_run_klist[OF "2.prems"(1)] .
  show ?case
  proof (cases "drop_run lessf a A")
    case Nil
    then show ?thesis using "2.prems" a run by (auto simp: unf same_links_def sz_add_exact)
  next
    case (Cons b B)
    let ?A = "a # take_run lessf a A" and ?B = "b # take_run lessf b B" and ?Q = "drop_run lessf b B"
    have AB: "a # A = ?A @ ?B @ ?Q" using take_drop_run[of lessf a A] take_drop_run[of lessf b B] Cons by simp
    then have kl: "klist h l (P @ ?A @ ?B @ ?Q)" using "2.prems"(1) by simp
    have b: "b \<noteq> tail_of l" using klist_distinct(1)[OF kl] by auto
    have run2: "find_end_of_run lessf h b (tail_of l) = Some (Inr (first_of l ?Q))"
      using find_end_of_run_klist[of h l "P @ ?A" b B lessf] kl take_drop_run[of lessf b B] by simp
    obtain h1 where h1: "inplace_merge lessf a b (first_of l ?Q) h = Some (Inr h1)"
        "klist h1 l ((P @ smerge lessf ?A ?B) @ ?Q)" "same_links h h1 (nodes l (P @ ?A @ ?B @ ?Q))"
      using inplace_merge_klist[OF kl nondec_take_run nondec_take_run] by auto
    obtain ys n where rec: "spass lessf ?Q = (ys, n)" by fastforce
    then have res: "spass lessf (a # A) = (smerge lessf ?A ?B @ ys, Suc n)" using Cons by simp
    obtain h2 where h2: "sort_pass lessf (tail_of l) (first_of l ?Q) (Suc cnt) h1 = Some (Inr (Suc cnt + n, h2))"
        "klist h2 l ((P @ smerge lessf ?A ?B) @ ys)" "same_links h1 h2 (nodes l ((P @ smerge lessf ?A ?B) @ ?Q))"
      using "2.IH"[OF Cons h1(2), of "Suc cnt"] "2.prems"(2) res rec by auto
    have "set (smerge lessf ?A ?B) = set ?A \<union> set ?B" using mset_smerge[of lessf ?A ?B] by (metis mset_append set_append set_mset_mset)
    then have "nodes l ((P @ smerge lessf ?A ?B) @ ?Q) = nodes l (P @ ?A @ ?B @ ?Q)" by (auto simp: nodes_def)
    then have "same_links h h2 (nodes l (P @ a # A))" using h1(3) h2(3) AB by (simp add: same_links_def)
    then show ?thesis
      using a b run run2 Cons h1(1) h2 res "2.prems"(2) by (auto simp: unf sz_add_exact)
  qed
qed

text \<open>The number of descents bounds the passes.\<close>

fun descents :: "less_func \<Rightarrow> addr list \<Rightarrow> nat" where
  "descents lessf (a # b # xs) = (if lessf b a then 1 else 0) + descents lessf (b # xs)"
| "descents lessf _ = 0"

lemma nondec_descents: "nondec lessf xs \<longleftrightarrow> descents lessf xs = 0"
  by (induction lessf xs rule: nondec.induct) auto

lemma descents_append: "descents lessf (xs @ ys) \<le> descents lessf xs + Suc (descents lessf ys)"
proof (induction xs rule: induct_list012)
  case (2 x)
  then show ?case by (cases ys) auto
qed auto

lemma descents_drop_run:
  "descents lessf (a # A) = (case drop_run lessf a A of [] \<Rightarrow> 0 | B \<Rightarrow> Suc (descents lessf B))"
  by (induction lessf a A rule: drop_run.induct) auto

lemma snd_spass: "xs \<noteq> [] \<Longrightarrow> snd (spass lessf xs) = descents lessf xs div 2 + 1"
proof (induction lessf xs rule: spass.induct)
  case (2 lessf a A)
  show ?case
  proof (cases "drop_run lessf a A")
    case Nil
    then show ?thesis using descents_drop_run[of lessf a A] by simp
  next
    case (Cons b B)
    show ?thesis
    proof (cases "drop_run lessf b B")
      case Nil
      then show ?thesis using Cons descents_drop_run[of lessf a A] descents_drop_run[of lessf b B] by simp
    next
      case (Cons c C)
      then have "snd (spass lessf (drop_run lessf b B)) = descents lessf (c # C) div 2 + 1"
        using "2.IH"[OF \<open>drop_run lessf a A = b # B\<close>] by simp
      then show ?thesis
        using Cons \<open>drop_run lessf a A = b # B\<close> descents_drop_run[of lessf a A] descents_drop_run[of lessf b B]
        by (cases "spass lessf (drop_run lessf b B)") auto
    qed
  qed
qed simp

text \<open>
  The contract of a comparison function: \<open>less a b\<close> is a strict order up to equivalence.
\<close>

locale less_order =
  fixes lessf :: less_func
  assumes less_asym: "lessf a b \<Longrightarrow> \<not> lessf b a"
    and le_trans: "\<not> lessf b a \<Longrightarrow> \<not> lessf c b \<Longrightarrow> \<not> lessf c a"
begin

lemma less_irrefl: "\<not> lessf a a"
  using less_asym by blast

lemma nondec_Cons: "nondec lessf (a # xs) \<longleftrightarrow> (\<forall>x\<in>set xs. \<not> lessf x a) \<and> nondec lessf xs"
proof (induction xs arbitrary: a)
  case (Cons b xs)
  then show ?case using le_trans by auto
qed simp

lemma nondec_sorted: "nondec lessf xs \<longleftrightarrow> sorted_wrt (\<lambda>a b. \<not> lessf b a) xs"
  by (induction xs) (auto simp: nondec_Cons)

lemma set_smerge: "set (smerge lessf A B) = set A \<union> set B"
  using mset_smerge[of lessf A B] by (metis mset_append set_append set_mset_mset)

lemma nondec_smerge: "nondec lessf A \<Longrightarrow> nondec lessf B \<Longrightarrow> nondec lessf (smerge lessf A B)"
proof (induction "length A + length B" arbitrary: A B rule: less_induct)
  case less
  show ?case
  proof (cases A; cases B)
    fix a as b bs assume A: "A = a # as" and B: "B = b # bs"
    note A' = less.prems(1)[unfolded A nondec_Cons] and B' = less.prems(2)[unfolded B nondec_Cons]
    show ?thesis
    proof (cases "lessf b a")
      case True
      then have "\<forall>x\<in>set (a # as). \<not> lessf x b" using A' le_trans[of a b] less_asym[OF True] by auto
      moreover have "nondec lessf (smerge lessf (a # as) bs)"
        using less.hyps[of "a # as" bs] less.prems A B B' by simp
      ultimately show ?thesis using True A B B' by (auto simp: nondec_Cons set_smerge)
    next
      case False
      then have "\<forall>x\<in>set (b # bs). \<not> lessf x a" using B' le_trans[of b a] by auto
      moreover have "nondec lessf (smerge lessf as (b # bs))"
        using less.hyps[of as "b # bs"] less.prems A B A' by simp
      ultimately show ?thesis using False A B A' by (auto simp: nondec_Cons set_smerge)
    qed
  qed (use less.prems in auto)
qed

text \<open>Elements equivalent to \<open>x\<close> keep their order.\<close>

definition eqv :: "addr \<Rightarrow> addr \<Rightarrow> bool" where
  "eqv x y \<longleftrightarrow> \<not> lessf x y \<and> \<not> lessf y x"

lemma smerge_stable:
  "nondec lessf A \<Longrightarrow> filter (eqv x) (smerge lessf A B) = filter (eqv x) A @ filter (eqv x) B"
proof (induction "length A + length B" arbitrary: A B rule: less_induct)
  case less
  show ?case
  proof (cases A; cases B)
    fix a as b bs assume A: "A = a # as" and B: "B = b # bs"
    note A' = less.prems[unfolded A nondec_Cons]
    show ?thesis
    proof (cases "lessf b a")
      case True
      have "\<not> eqv x y" if "eqv x b" "y \<in> set (a # as)" for y
      proof
        assume "eqv x y"
        then have "\<not> lessf b y" using that(1) le_trans[of x y b] by (auto simp: eqv_def)
        moreover have "\<not> lessf y a" using A' that(2) less_irrefl by auto
        ultimately show False using le_trans[of y a b] True by simp
      qed
      then have "eqv x b \<Longrightarrow> filter (eqv x) (a # as) = []" by (intro filter_False) auto
      moreover have "filter (eqv x) (smerge lessf (a # as) bs) = filter (eqv x) (a # as) @ filter (eqv x) bs"
        using less.hyps[of "a # as" bs] less.prems A B by simp
      ultimately show ?thesis using True A B by (simp split: if_splits)
    next
      case False
      have "filter (eqv x) (smerge lessf as (b # bs)) = filter (eqv x) as @ filter (eqv x) (b # bs)"
        using less.hyps[of as "b # bs"] A' A B by simp
      then show ?thesis using False A B by simp
    qed
  qed auto
qed

lemma spass_stable: "filter (eqv x) (fst (spass lessf xs)) = filter (eqv x) xs"
proof (induction "length xs" arbitrary: xs rule: less_induct)
  case less
  show ?case
  proof (cases xs)
    case (Cons a A)
    show ?thesis
    proof (cases "drop_run lessf a A")
      case (Cons b B)
      have "length (drop_run lessf b B) < length xs"
        using length_drop_run[of lessf a A] length_drop_run[of lessf b B] Cons \<open>xs = a # A\<close> by simp
      from less.hyps[OF this] have rec: "filter (eqv x) (fst (spass lessf (drop_run lessf b B))) = filter (eqv x) (drop_run lessf b B)"
        by simp
      have "xs = (a # take_run lessf a A) @ (b # take_run lessf b B) @ drop_run lessf b B"
        using take_drop_run[of lessf a A] take_drop_run[of lessf b B] Cons \<open>xs = a # A\<close> by simp
      then have "filter (eqv x) xs = filter (eqv x) (a # take_run lessf a A) @ filter (eqv x) (b # take_run lessf b B)
          @ filter (eqv x) (drop_run lessf b B)"
        by (metis filter_append)
      moreover have "fst (spass lessf xs) = smerge lessf (a # take_run lessf a A) (b # take_run lessf b B) @ fst (spass lessf (drop_run lessf b B))"
        using Cons \<open>xs = a # A\<close> by (cases "spass lessf (drop_run lessf b B)") simp
      ultimately show ?thesis
        using smerge_stable[OF nondec_take_run, of x a A "b # take_run lessf b B"] rec by (simp del: filter.simps)
    qed (simp add: Cons)
  qed simp
qed

lemma descents_spass: "xs \<noteq> [] \<Longrightarrow> descents lessf (fst (spass lessf xs)) < snd (spass lessf xs)"
proof (induction "length xs" arbitrary: xs rule: less_induct)
  case less
  then obtain a A where xs: "xs = a # A" by (cases xs) auto
  show ?case
  proof (cases "drop_run lessf a A")
    case Nil
    then show ?thesis using xs descents_drop_run[of lessf a A] by simp
  next
    case (Cons b B)
    let ?m = "smerge lessf (a # take_run lessf a A) (b # take_run lessf b B)" and ?r = "drop_run lessf b B"
    have m: "descents lessf ?m = 0"
      using nondec_smerge[OF nondec_take_run nondec_take_run] by (simp only: nondec_descents)
    have eq: "spass lessf xs = (?m @ fst (spass lessf ?r), Suc (snd (spass lessf ?r)))"
      using Cons xs by (cases "spass lessf ?r") simp
    show ?thesis
    proof (cases "?r = []")
      case True
      then show ?thesis using eq m by simp
    next
      case False
      have "length ?r < length xs"
        using length_drop_run[of lessf a A] length_drop_run[of lessf b B] Cons xs by simp
      from less.hyps[OF this False] show ?thesis
        using eq m descents_append[of lessf ?m "fst (spass lessf ?r)"] by simp
    qed
  qed
qed

lemma sort_loop_klist:
  "klist h l xs \<Longrightarrow> length xs < 2 ^ 32 \<Longrightarrow>
   \<exists>h' ys. sort_loop lessf l h = Some (Inr h') \<and> klist h' l ys \<and> mset ys = mset xs \<and> nondec lessf ys
     \<and> (\<forall>x. filter (eqv x) ys = filter (eqv x) xs) \<and> same_links h h' (nodes l xs)"
proof (induction "snd (spass lessf xs)" arbitrary: xs h rule: less_induct)
  case less
  let ?ys = "fst (spass lessf xs)" and ?n = "snd (spass lessf xs)"
  have small: "?n < 2 ^ 32" using snd_spass_le[of lessf xs] less.prems(2) by simp
  obtain h1 where h1: "sort_pass lessf (tail_of l) (first_of l xs) 0 h = Some (Inr (?n, h1))" "klist h1 l ?ys"
      "same_links h h1 (nodes l xs)"
    using sort_pass_klist[of h l "[]" xs 0 lessf] less.prems(1) small by auto
  note unf = sort_loop.simps[of lessf l h] elem_next_head[OF less.prems(1)]
  have ms: "mset ?ys = mset xs" by (rule mset_spass)
  then have sets: "set ?ys = set xs" "length ?ys = length xs" by (metis set_mset_mset, metis size_mset)
  show ?case
  proof (cases "?n > 1")
    case False
    have "nondec lessf ?ys"
      using descents_spass[of xs] False by (cases "xs = []") (auto simp: nondec_descents)
    then show ?thesis
      using h1 ms spass_stable False by (intro exI[of _ h1] exI[of _ ?ys]) (simp add: unf)
  next
    case True
    then have ne: "xs \<noteq> []" by auto
    then have ne': "?ys \<noteq> []" using sets by auto
    have "snd (spass lessf ?ys) < ?n"
      using snd_spass[OF ne', of lessf] descents_spass[OF ne] True by simp
    from less.hyps[OF this h1(2)] obtain h2 ys where h2: "sort_loop lessf l h1 = Some (Inr h2)" "klist h2 l ys"
        "mset ys = mset ?ys" "nondec lessf ys" "\<And>x. filter (eqv x) ys = filter (eqv x) ?ys" "same_links h1 h2 (nodes l ?ys)"
      using sets less.prems(2) by auto
    moreover have "nodes l ?ys = nodes l xs" using sets by (simp add: nodes_def)
    ultimately show ?thesis
      using h1 True ms spass_stable by (intro exI[of _ h2] exI[of _ ys]) (simp add: unf same_links_def)
  qed
qed

lemma list_sort_klist:
  assumes "klist h l xs" and "length xs < 2 ^ 32"
  shows "\<exists>h' ys. list_sort lessf l h = Some (Inr h') \<and> klist h' l ys \<and> mset ys = mset xs
     \<and> sorted_wrt (\<lambda>a b. \<not> lessf b a) ys \<and> (\<forall>x. filter (eqv x) ys = filter (eqv x) xs) \<and> same_links h h' (nodes l xs)"
proof -
  obtain h' ys where h': "sort_loop lessf l h = Some (Inr h')" "klist h' l ys" "mset ys = mset xs" "nondec lessf ys"
      "\<forall>x. filter (eqv x) ys = filter (eqv x) xs" "same_links h h' (nodes l xs)"
    using sort_loop_klist[OF assms] by blast
  then have "is_sorted lessf h' (first_of l ys) (tail_of l) = Some (Inr True)"
    using is_sorted_klist[of h' l "[]" ys "[]" lessf] by simp
  then have "list_sort lessf l h = Some (Inr h')"
    using h' klist_distinct(2)[OF assms(1)] by (auto simp: list_sort_def elem_next_head nodes_def)
  then show ?thesis using h' nondec_sorted by blast
qed

text \<open>Inserting into a sorted list keeps it sorted.\<close>

lemma insert_ordered_sorted:
  assumes "sorted_wrt (\<lambda>a b. \<not> lessf b a) xs"
  shows "sorted_wrt (\<lambda>a b. \<not> lessf b a) (takeWhile (\<lambda>y. \<not> lessf x y) xs @ x # dropWhile (\<lambda>y. \<not> lessf x y) xs)"
  using assms
proof (induction xs)
  case (Cons a xs)
  show ?case
  proof (cases "lessf x a")
    case True
    then have "\<forall>y\<in>set (a # xs). \<not> lessf y x" using Cons.prems less_asym[OF True] le_trans[of a x] by auto
    then show ?thesis using True Cons.prems by simp
  next
    case False
    then show ?thesis using Cons by (auto dest: set_takeWhileD set_dropWhileD)
  qed
qed simp

end

text \<open>
  The comparison that the tests of the lists sort by: the values of the structures that the
  elements lie in.
\<close>

definition value_less :: "(addr \<Rightarrow> int) \<Rightarrow> less_func" where
  "value_less v a b \<longleftrightarrow> v a < v b"

interpretation value_order: less_order "value_less v" for v
  by unfold_locales (auto simp: value_less_def)

section \<open>Removing duplicates\<close>

fun uniq :: "less_func \<Rightarrow> addr \<Rightarrow> addr list \<Rightarrow> addr list \<times> addr list" where
  "uniq lessf e [] = ([], [])"
| "uniq lessf e (x # xs) =
     (if \<not> lessf e x \<and> \<not> lessf x e then let (k, d) = uniq lessf e xs in (k, x # d)
      else let (k, d) = uniq lessf x xs in (x # k, d))"

lemma same_links_trans: "same_links h h1 A \<Longrightarrow> same_links h1 h2 B \<Longrightarrow> A \<subseteq> C \<Longrightarrow> B \<subseteq> C \<Longrightarrow> same_links h h2 C"
proof -
  assume "same_links h h1 A" "same_links h1 h2 B" "A \<subseteq> C" "B \<subseteq> C"
  then have "elem_prev h2 x = elem_prev h x \<and> elem_next h2 x = elem_next h x" if "x \<notin> C" for x
    using that unfolding same_links_def by (metis subsetD)
  then show ?thesis by (simp add: same_links_def)
qed

lemma unique_loop_null:
  "klist h l (P @ e # xs) \<Longrightarrow>
   \<exists>h'. unique_loop lessf (tail_of l) NULL e h = Some (Inr h') \<and> klist h' l (P @ e # fst (uniq lessf e xs))
     \<and> same_links h h' (nodes l (P @ e # xs))"
proof (induction lessf e xs arbitrary: P h rule: uniq.induct)
  case (1 lessf e)
  then show ?case
    using list_next_klist[of h l P e "[]"] by (simp add: unique_loop.simps[of lessf "tail_of l" NULL e h] same_links_def)
next
  case (2 lessf e x xs)
  note unf = unique_loop.simps[of lessf "tail_of l" NULL e h]
  have nx: "list_next h e = Inr x" using list_next_klist[OF "2.prems"] by simp
  have x: "x \<noteq> tail_of l" using klist_distinct(1)[OF "2.prems"] by auto
  show ?case
  proof (cases "\<not> lessf e x \<and> \<not> lessf x e")
    case True
    obtain h1 q where h1: "list_remove x h = Inr (q, h1)" "klist h1 l (P @ e # xs)" "same_links h h1 (nodes l (P @ e # xs))"
      using list_remove_klist[of h l "P @ [e]" x xs] "2.prems" by auto
    obtain h2 where h2: "unique_loop lessf (tail_of l) NULL e h1 = Some (Inr h2)" "klist h2 l (P @ e # fst (uniq lessf e xs))"
        "same_links h1 h2 (nodes l (P @ e # xs))"
      using "2.IH"(1)[OF True h1(2)] by blast
    have "same_links h h2 (nodes l (P @ e # x # xs))"
      by (rule same_links_trans[OF h1(3) h2(3)]) (auto simp: nodes_def)
    moreover have "unique_loop lessf (tail_of l) NULL e h = Some (Inr h2)"
      using nx x True h1(1) h2(1) by (simp add: unf)
    moreover have "fst (uniq lessf e (x # xs)) = fst (uniq lessf e xs)" using True by (simp add: case_prod_beta)
    ultimately show ?thesis using h2(2) by auto
  next
    case False
    obtain h2 where h2: "unique_loop lessf (tail_of l) NULL x h = Some (Inr h2)" "klist h2 l ((P @ [e]) @ x # fst (uniq lessf x xs))"
        "same_links h h2 (nodes l ((P @ [e]) @ x # xs))"
      using "2.IH"(2)[OF False, of h "P @ [e]"] "2.prems" by auto
    moreover have "unique_loop lessf (tail_of l) NULL e h = Some (Inr h2)"
      using nx x False h2(1) unfolding unf by auto
    moreover have "fst (uniq lessf e (x # xs)) = x # fst (uniq lessf x xs)" using False by (auto simp: case_prod_beta)
    ultimately show ?thesis by auto
  qed
qed

lemma klist_frame_nodes:
  "klist h k zs \<Longrightarrow> same_links h h' A \<Longrightarrow> A \<subseteq> B \<Longrightarrow> B \<inter> nodes k zs = {} \<Longrightarrow> klist h' k zs"
  using klist_frame[of h k zs h' A] by blast

text \<open>With a list of duplicates, the removed elements end up there in order.\<close>

lemma unique_loop_dup:
  "klist h l (P @ e # xs) \<Longrightarrow> klist h dup ds \<Longrightarrow> nodes l (P @ e # xs) \<inter> nodes dup ds = {} \<Longrightarrow>
   \<exists>h'. unique_loop lessf (tail_of l) dup e h = Some (Inr h') \<and> klist h' l (P @ e # fst (uniq lessf e xs))
     \<and> klist h' dup (ds @ snd (uniq lessf e xs))
     \<and> same_links h h' (nodes l (P @ e # xs) \<union> nodes dup ds)"
proof (induction lessf e xs arbitrary: P h ds rule: uniq.induct)
  case (1 lessf e)
  then show ?case
    using list_next_klist[of h l P e "[]"] by (simp add: unique_loop.simps[of lessf "tail_of l" dup e h] same_links_def)
next
  case (2 lessf e x xs)
  note unf = unique_loop.simps[of lessf "tail_of l" dup e h]
  have nx: "list_next h e = Inr x" using list_next_klist[OF "2.prems"(1)] by simp
  have D: "distinct (l # (P @ e # x # xs) @ [tail_of l])" using klist_distinct(1)[OF "2.prems"(1)] .
  then have x: "x \<noteq> tail_of l" by auto
  have dup: "dup \<noteq> NULL" using klist_distinct(2)[OF "2.prems"(2)] by (auto simp: nodes_def)
  have x_nn: "x \<noteq> NULL" using klist_distinct(2)[OF "2.prems"(1)] by (auto simp: nodes_def)
  show ?case
  proof (cases "\<not> lessf e x \<and> \<not> lessf x e")
    case True
    obtain h1 q where h1: "list_remove x h = Inr (q, h1)" "klist h1 l (P @ e # xs)" "same_links h h1 (nodes l (P @ e # xs))"
      using list_remove_klist[of h l "P @ [e]" x xs] "2.prems"(1) by auto
    have sub: "nodes l (P @ e # xs) \<subseteq> nodes l (P @ e # x # xs)" by (auto simp: nodes_def)
    have d1: "klist h1 dup ds" using klist_frame_nodes[OF "2.prems"(2) h1(3) sub "2.prems"(3)] .
    have "x \<notin> nodes dup ds" using "2.prems"(3) by (auto simp: nodes_def)
    from list_push_back_klist[OF d1 x_nn this] obtain h2 where h2: "list_push_back dup x h1 = Inr h2" "klist h2 dup (ds @ [x])"
        "same_links h1 h2 (insert x (nodes dup ds))" by blast
    have "insert x (nodes dup ds) \<inter> nodes l (P @ e # xs) = {}" using "2.prems"(3) D by (auto simp: nodes_def)
    then have l2: "klist h2 l (P @ e # xs)" using klist_frame[OF h1(2) h2(3)] by blast
    have "nodes l (P @ e # xs) \<inter> nodes dup (ds @ [x]) = {}" using "2.prems"(3) D by (auto simp: nodes_def)
    from "2.IH"(1)[OF True l2 h2(2) this] obtain h3 where h3: "unique_loop lessf (tail_of l) dup e h2 = Some (Inr h3)"
        "klist h3 l (P @ e # fst (uniq lessf e xs))" "klist h3 dup ((ds @ [x]) @ snd (uniq lessf e xs))"
        "same_links h2 h3 (nodes l (P @ e # xs) \<union> nodes dup (ds @ [x]))" by blast
    have "same_links h h2 (nodes l (P @ e # x # xs) \<union> nodes dup ds)"
      by (rule same_links_trans[OF h1(3) h2(3)]) (auto simp: nodes_def)
    from same_links_trans[OF this h3(4) order_refl] have "same_links h h3 (nodes l (P @ e # x # xs) \<union> nodes dup ds)"
      by (auto simp: nodes_def)
    moreover have "unique_loop lessf (tail_of l) dup e h = Some (Inr h3)"
      using nx x dup True h1(1) h2(1) h3(1) by (simp add: unf)
    moreover have "uniq lessf e (x # xs) = (fst (uniq lessf e xs), x # snd (uniq lessf e xs))"
      using True by (simp add: case_prod_beta)
    ultimately show ?thesis using h3(2,3) by auto
  next
    case False
    obtain h2 where h2: "unique_loop lessf (tail_of l) dup x h = Some (Inr h2)" "klist h2 l ((P @ [e]) @ x # fst (uniq lessf x xs))"
        "klist h2 dup (ds @ snd (uniq lessf x xs))" "same_links h h2 (nodes l ((P @ [e]) @ x # xs) \<union> nodes dup ds)"
      using "2.IH"(2)[OF False, of h "P @ [e]" ds] "2.prems" by auto
    moreover have "unique_loop lessf (tail_of l) dup e h = Some (Inr h2)"
      using nx x False h2(1) unfolding unf by auto
    moreover have "uniq lessf e (x # xs) = (x # fst (uniq lessf x xs), snd (uniq lessf x xs))"
      using False by (auto simp: case_prod_beta)
    ultimately show ?thesis by auto
  qed
qed

section \<open>Reversal\<close>

lemma swap_links_simps [simp]:
  "elem_prev (swap_links e h) = (elem_prev h)(e := elem_next h e)"
  "elem_next (swap_links e h) = (elem_next h)(e := elem_prev h e)"
  by (simp_all add: swap_links_def)

text \<open>The loop exchanges the pointers of every element between the head and the tail.\<close>

lemma reverse_loop_linked:
  assumes "linked h (ys @ [t])" and "distinct (ys @ [t])"
  shows "\<exists>h'. reverse_loop (hd (ys @ [t])) t h = Some h'
    \<and> (\<forall>x. elem_prev h' x = (if x \<in> set ys then elem_next h x else elem_prev h x)
         \<and> elem_next h' x = (if x \<in> set ys then elem_prev h x else elem_next h x))"
  using assms
proof (induction ys arbitrary: h)
  case Nil
  then show ?case by (simp add: reverse_loop.simps[of t t])
next
  case (Cons y ys)
  let ?h = "swap_links y h"
  have l: "link h y (hd (ys @ [t]))" "linked h (ys @ [t])" using Cons.prems(1) by (auto simp: linked_Cons)
  have "linked ?h (ys @ [t])"
    by (rule iffD2[OF linked_cong l(2)]) (use Cons.prems(2) in \<open>auto dest!: in_set_tlD in_set_butlastD\<close>)
  from Cons.IH[OF this] obtain h' where h': "reverse_loop (hd (ys @ [t])) t ?h = Some h'"
      "\<And>x. elem_prev h' x = (if x \<in> set ys then elem_next ?h x else elem_prev ?h x)
         \<and> elem_next h' x = (if x \<in> set ys then elem_prev ?h x else elem_next ?h x)"
    using Cons.prems(2) by auto
  have "reverse_loop y t h = Some h'"
    using h'(1) l(1) Cons.prems(2) by (simp add: reverse_loop.simps[of y t h] Let_def link_def)
  then show ?case using h'(2) Cons.prems(2) by auto
qed

lemma linked_rev:
  assumes "linked h xs" and "\<And>x. x \<in> set (tl xs) \<Longrightarrow> elem_next h' x = elem_prev h x"
    and "\<And>x. x \<in> set (butlast xs) \<Longrightarrow> elem_prev h' x = elem_next h x"
  shows "linked h' (rev xs)"
  using assms
proof (induction xs rule: induct_list012)
  case (3 a b ns)
  have "linked h' (rev (b # ns))"
    using "3.prems" by (intro "3.IH"(2)) (auto dest: in_set_tlD)
  moreover have "link h' b a" using "3.prems"(1) "3.prems"(2)[of b] "3.prems"(3)[of a] by (auto simp: link_def)
  ultimately show ?case using linked_append[of "rev (b # ns)" "[a]" h'] by (simp add: last_rev)
qed auto

lemma list_reverse_klist:
  assumes "klist h l xs"
  shows "\<exists>h'. list_reverse l h = Some (Inr h') \<and> klist h' l (rev xs) \<and> same_links h h' (nodes l xs)"
proof (cases "xs = []")
  case True
  then show ?thesis using assms by (auto simp: list_reverse_def list_empty_klist same_links_def)
next
  case False
  define f g where "f = hd xs" and "g = last xs"
  have D: "distinct (l # xs @ [tail_of l])" "NULL \<notin> set (l # xs @ [tail_of l])" "linked h (l # xs @ [tail_of l])"
      "elem_prev h l = NULL" "elem_next h (tail_of l) = NULL"
    using assms by (auto simp: klist_def dll_def)
  have fg: "f \<in> set xs" "g \<in> set xs" using False by (auto simp: f_def g_def)
  have L: "linked h xs" "link h l f" "link h g (tail_of l)" "linked h (xs @ [tail_of l])"
    using D(3) False linked_append[of xs "[tail_of l]" h] by (auto simp: linked_Cons f_def g_def)
  obtain h1 where h1: "reverse_loop (hd (xs @ [tail_of l])) (tail_of l) h = Some h1"
      "\<And>x. elem_prev h1 x = (if x \<in> set xs then elem_next h x else elem_prev h x)"
      "\<And>x. elem_next h1 x = (if x \<in> set xs then elem_prev h x else elem_next h x)"
    using reverse_loop_linked[OF L(4)] D(1) by auto
  let ?h = "set_next f (tail_of l) (set_prev g l (set_prev (tail_of l) f (set_next l g h1)))"
  have head: "elem_next h l = f" "elem_prev h (tail_of l) = g" using L by (auto simp: link_def)
  have "elem_next h1 l = f" "elem_prev h1 (tail_of l) = g" "elem_prev h1 g = tail_of l" "elem_next h1 f = l"
    using h1(2,3) D(1) fg L by (auto simp: link_def)
  then have eq: "list_reverse l h = Some (Inr ?h)"
    using h1(1) head False assms D(1) fg by (auto simp: list_reverse_def list_empty_klist Let_def f_def[symmetric])
  have "linked ?h (rev xs)"
  proof (rule linked_rev[OF L(1)])
    fix x assume "x \<in> set (tl xs)"
    moreover have "f \<notin> set (tl xs)" using D(1) False distinct_hd_tl[of xs] by (simp add: f_def)
    ultimately show "elem_next ?h x = elem_prev h x"
      using h1(3)[of x] D(1) by (auto dest: in_set_tlD)
  next
    fix x assume "x \<in> set (butlast xs)"
    moreover have "g \<notin> set (butlast xs)" using D(1) False distinct_butlast_last[of xs] by (simp add: g_def)
    ultimately show "elem_prev ?h x = elem_next h x"
      using h1(2)[of x] D(1) by (auto dest: in_set_butlastD)
  qed
  moreover have "link ?h l g" "link ?h f (tail_of l)" using D(1) fg by (auto simp: link_def)
  ultimately have "linked ?h (l # rev xs @ [tail_of l])"
    using False linked_append[of "rev xs" "[tail_of l]" ?h] by (simp add: linked_Cons hd_rev last_rev f_def g_def)
  moreover have "elem_prev ?h l = NULL" "elem_next ?h (tail_of l) = NULL"
    using D h1(2)[of l] h1(3)[of "tail_of l"] fg by auto
  ultimately have "klist ?h l (rev xs)" using D(1,2) by (auto simp: klist_def dll_def)
  moreover have "same_links h ?h (nodes l xs)" using h1(2,3) fg by (auto simp: same_links_def nodes_def)
  ultimately show ?thesis using eq by blast
qed

section \<open>Properties of the kernel list\<close>

text \<open>A list of two elements, for the examples.\<close>

definition ex_heap :: lheap where
  "ex_heap = \<lparr>elem_prev = (\<lambda>x. if x = 0x1008 then 0x30 else if x = 0x30 then 0x20 else if x = 0x20 then 0x1000
       else if x = 0x4008 then 0x4000 else 0),
     elem_next = (\<lambda>x. if x = 0x1000 then 0x20 else if x = 0x20 then 0x30 else if x = 0x30 then 0x1008
       else if x = 0x4000 then 0x4008 else 0)\<rparr>"

lemma ex_klist: "klist ex_heap 0x1000 [0x20, 0x30]" "klist ex_heap 0x4000 []"
  by (simp_all add: klist_def dll_def link_def tail_of_def ex_heap_def NULL_def)

text \<open>
  C23. The doubly linked list implements a sequence: inserting at either end, before an
  element, removing an element and taking the ends off have the effect of the corresponding
  operations on the sequence of elements, \<open>list_size\<close> returns its length, and a list that
  shares no element with the one operated on is not disturbed by any of them.
\<close>

theorem list_operations_refine:
  assumes "klist h l (xs @ x # ys)" and "e \<noteq> NULL" and "e \<notin> nodes l (xs @ x # ys)"
    and "length (xs @ x # ys) < 2 ^ 32"
    and "klist h k zs" and "nodes k zs \<inter> insert e (nodes l (xs @ x # ys)) = {}"
  shows "(\<exists>h'. list_push_front l e h = Inr h' \<and> klist h' l (e # xs @ x # ys) \<and> klist h' k zs)
    \<and> (\<exists>h'. list_push_back l e h = Inr h' \<and> klist h' l (xs @ x # ys @ [e]) \<and> klist h' k zs)
    \<and> (\<exists>h'. list_insert x e h = Inr h' \<and> klist h' l (xs @ e # x # ys) \<and> klist h' k zs)
    \<and> (\<exists>q h'. list_remove x h = Inr (q, h') \<and> q = first_of l ys \<and> klist h' l (xs @ ys) \<and> klist h' k zs)
    \<and> (\<exists>h'. list_pop_front l h = Inr (hd (xs @ [x]), h') \<and> klist h' l (tl (xs @ x # ys)) \<and> klist h' k zs)
    \<and> (\<exists>h'. list_pop_back l h = Inr (last (x # ys), h') \<and> klist h' l (xs @ butlast (x # ys)) \<and> klist h' k zs)
    \<and> (list_size h l = Some (Inr (length (xs @ x # ys))))"
proof (intro conjI)
  let ?all = "xs @ x # ys"
  have frame: "same_links h h' A \<Longrightarrow> A \<subseteq> insert e (nodes l ?all) \<Longrightarrow> klist h' k zs" for h' A
    using klist_frame[OF assms(5)] assms(6) by blast
  have sub: "nodes l (xs @ ys) \<subseteq> nodes l ?all" by (auto simp: nodes_def)
  show "\<exists>h'. list_push_front l e h = Inr h' \<and> klist h' l (e # ?all) \<and> klist h' k zs"
    using list_push_front_klist[OF assms(1-3)] frame by blast
  show "\<exists>h'. list_push_back l e h = Inr h' \<and> klist h' l (xs @ x # ys @ [e]) \<and> klist h' k zs"
    using list_push_back_klist[OF assms(1-3)] frame by fastforce
  show "\<exists>h'. list_insert x e h = Inr h' \<and> klist h' l (xs @ e # x # ys) \<and> klist h' k zs"
    using list_insert_klist[OF assms(1-3)] frame by fastforce
  show "\<exists>q h'. list_remove x h = Inr (q, h') \<and> q = first_of l ys \<and> klist h' l (xs @ ys) \<and> klist h' k zs"
    using list_remove_klist[OF assms(1)] frame sub by blast
  obtain f fs where f: "?all = f # fs" "f = hd (xs @ [x])" "fs = tl ?all" by (cases xs) auto
  have "nodes l fs \<subseteq> nodes l ?all" using f(1) by (auto simp: nodes_def)
  then show "\<exists>h'. list_pop_front l h = Inr (hd (xs @ [x]), h') \<and> klist h' l (tl ?all) \<and> klist h' k zs"
    using list_pop_front_klist[of h l f fs] assms(1) frame f by fastforce
  have b: "?all = (xs @ butlast (x # ys)) @ [last (x # ys)]" by simp
  have "nodes l (xs @ butlast (x # ys)) \<subseteq> nodes l ?all" by (auto simp: nodes_def dest: in_set_butlastD split: if_splits)
  then show "\<exists>h'. list_pop_back l h = Inr (last (x # ys), h') \<and> klist h' l (xs @ butlast (x # ys)) \<and> klist h' k zs"
    using list_pop_back_klist[OF assms(1)[unfolded b]] frame by blast
  show "list_size h l = Some (Inr (length ?all))" using list_size_klist[OF assms(1,4)] .
qed

theorem list_operations_refine_witness:
  "\<exists>h'. list_push_back 0x1000 0x40 ex_heap = Inr h' \<and> klist h' 0x1000 [0x20, 0x30, 0x40] \<and> klist h' 0x4000 []"
  using list_operations_refine[of ex_heap "0x1000" "[]" "0x20" "[0x30]" "0x40" "0x4000" "[]"] ex_klist
  by (simp add: NULL_def nodes_def tail_of_def)

text \<open>
  C13. \<open>list_sort\<close> with a comparison function that is a strict weak order ends without a
  failed assertion, and the list then holds the same elements in nondecreasing order, with
  equivalent elements in their old order. Other lists are not disturbed.
\<close>

theorem list_sort_stable:
  assumes "\<And>a b. lessf a b \<Longrightarrow> \<not> lessf b a" and "\<And>a b c. \<not> lessf b a \<Longrightarrow> \<not> lessf c b \<Longrightarrow> \<not> lessf c a"
    and "klist h l xs" and "length xs < 2 ^ 32"
  shows "\<exists>h' ys. list_sort lessf l h = Some (Inr h') \<and> klist h' l ys \<and> mset ys = mset xs
    \<and> sorted_wrt (\<lambda>a b. \<not> lessf b a) ys
    \<and> (\<forall>x. filter (\<lambda>y. \<not> lessf x y \<and> \<not> lessf y x) ys = filter (\<lambda>y. \<not> lessf x y \<and> \<not> lessf y x) xs)
    \<and> (\<forall>k zs. klist h k zs \<and> nodes k zs \<inter> nodes l xs = {} \<longrightarrow> klist h' k zs)"
proof -
  have lo: "less_order lessf" by (rule less_order.intro) (use assms(1,2) in blast)+
  obtain h' ys where h': "list_sort lessf l h = Some (Inr h')" "klist h' l ys" "mset ys = mset xs"
      "sorted_wrt (\<lambda>a b. \<not> lessf b a) ys" "\<And>x. filter (less_order.eqv lessf x) ys = filter (less_order.eqv lessf x) xs"
      "same_links h h' (nodes l xs)"
    using less_order.list_sort_klist[OF lo assms(3,4)] by blast
  have "klist h' k zs" if "klist h k zs" "nodes k zs \<inter> nodes l xs = {}" for k zs
    using klist_frame[OF that(1) h'(6)] that(2) by blast
  moreover have "less_order.eqv lessf = (\<lambda>x y. \<not> lessf x y \<and> \<not> lessf y x)"
    by (simp add: fun_eq_iff less_order.eqv_def[OF lo])
  ultimately show ?thesis
    using h'(1-5) by (intro exI[of _ h'] exI[of _ ys]) simp
qed

theorem list_sort_stable_witness:
  "\<exists>h' ys. list_sort (\<lambda>a b. b < a) 0x1000 ex_heap = Some (Inr h') \<and> klist h' 0x1000 ys
     \<and> mset ys = mset [0x20, 0x30] \<and> sorted_wrt (\<lambda>a b. \<not> a < b) ys"
proof -
  have "\<exists>h' ys. list_sort (\<lambda>a b. b < a) 0x1000 ex_heap = Some (Inr h') \<and> klist h' 0x1000 ys \<and> mset ys = mset [0x20, 0x30]
    \<and> sorted_wrt (\<lambda>a b. \<not> a < b) ys
    \<and> (\<forall>x. filter (\<lambda>y. \<not> y < x \<and> \<not> x < y) ys = filter (\<lambda>y. \<not> y < x \<and> \<not> x < y) [0x20, 0x30])
    \<and> (\<forall>k zs. klist ex_heap k zs \<and> nodes k zs \<inter> nodes 0x1000 [0x20, 0x30] = {} \<longrightarrow> klist h' k zs)"
    by (rule list_sort_stable[OF _ _ ex_klist(1)]) auto
  then show ?thesis by blast
qed

text \<open>
  C30. \<open>list_insert_ordered\<close> into a list sorted by such a comparison keeps it sorted, with the
  new element behind the elements that are not greater, and \<open>list_reverse\<close> reverses a list.
\<close>

theorem list_insert_ordered_reverse:
  assumes "\<And>a b. lessf a b \<Longrightarrow> \<not> lessf b a" and "\<And>a b c. \<not> lessf b a \<Longrightarrow> \<not> lessf c b \<Longrightarrow> \<not> lessf c a"
    and "klist h l xs" and "sorted_wrt (\<lambda>a b. \<not> lessf b a) xs" and "x \<noteq> NULL" and "x \<notin> nodes l xs"
  shows "\<exists>h' as bs. list_insert_ordered lessf l x h = Some (Inr h') \<and> xs = as @ bs \<and> klist h' l (as @ x # bs)
      \<and> sorted_wrt (\<lambda>a b. \<not> lessf b a) (as @ x # bs) \<and> (\<forall>a\<in>set as. \<not> lessf x a) \<and> (\<forall>b\<in>set bs. lessf x b)
    \<and> (\<exists>h''. list_reverse l h' = Some (Inr h'') \<and> klist h'' l (rev (as @ x # bs)))"
proof -
  have lo: "less_order lessf" by (rule less_order.intro) (use assms(1,2) in blast)+
  let ?as = "takeWhile (\<lambda>y. \<not> lessf x y) xs" and ?bs = "dropWhile (\<lambda>y. \<not> lessf x y) xs"
  obtain h' where h': "list_insert_ordered lessf l x h = Some (Inr h')" "klist h' l (?as @ x # ?bs)"
    using list_insert_ordered_klist[OF assms(3,5,6)] by blast
  have srt: "sorted_wrt (\<lambda>a b. \<not> lessf b a) (?as @ x # ?bs)"
    using less_order.insert_ordered_sorted[OF lo assms(4)] .
  have "\<forall>b\<in>set ?bs. lessf x b"
  proof (cases ?bs)
    case (Cons b bs)
    then have "lessf x b" using hd_dropWhile[of "\<lambda>y. \<not> lessf x y" xs] by simp
    have "sorted_wrt (\<lambda>a b. \<not> lessf b a) ?bs" using srt unfolding sorted_wrt_append sorted_wrt.simps(2) by (elim conjE)
    then have nb: "\<forall>y\<in>set bs. \<not> lessf y b" unfolding Cons by simp
    have "lessf x y" if "y \<in> set bs" for y
      using assms(2)[OF nb[rule_format, OF that], of x] \<open>lessf x b\<close> by argo
    then show ?thesis using Cons \<open>lessf x b\<close> by simp
  qed (simp only: list.set ball_empty)
  moreover have "\<forall>a\<in>set ?as. \<not> lessf x a" using set_takeWhileD[of _ "\<lambda>y. \<not> lessf x y" xs] by blast
  moreover have "xs = ?as @ ?bs" by simp
  moreover have "\<exists>h''. list_reverse l h' = Some (Inr h'') \<and> klist h'' l (rev (?as @ x # ?bs))"
    using list_reverse_klist[OF h'(2)] by (elim exE conjE) (rule exI, rule conjI)
  ultimately show ?thesis
    using h' srt by (intro exI[of _ h'] exI[of _ ?as] exI[of _ ?bs]) (intro conjI)
qed

theorem list_insert_ordered_reverse_witness:
  "\<exists>h'. list_insert_ordered (\<lambda>a b. a < b) 0x1000 0x28 ex_heap = Some (Inr h')"
proof -
  have "\<exists>h' as bs. list_insert_ordered (<) 0x1000 0x28 ex_heap = Some (Inr h') \<and> [0x20, 0x30] = as @ bs \<and> klist h' 0x1000 (as @ 0x28 # bs)
      \<and> sorted_wrt (\<lambda>a b. \<not> b < a) (as @ 0x28 # bs) \<and> (\<forall>a\<in>set as. \<not> 0x28 < a) \<and> (\<forall>b\<in>set bs. 0x28 < b)
    \<and> (\<exists>h''. list_reverse 0x1000 h' = Some (Inr h'') \<and> klist h'' 0x1000 (rev (as @ 0x28 # bs)))"
    by (rule list_insert_ordered_reverse[OF _ _ ex_klist(1)]) (auto simp: NULL_def nodes_def tail_of_def)
  then show ?thesis by blast
qed

end
