(* ===== verification/Malloc.thy ===== *)
theory Malloc
  imports Palloc KList
begin

text \<open>
  The block allocator of \<open>src/threads/malloc.c\<close> on top of the page allocator: descriptors
  with free lists, arenas, big blocks, and \<open>malloc\<close>, \<open>calloc\<close>, \<open>realloc\<close> and \<open>free\<close> as they
  are written; and the contract of the page allocator that it relies on, which the model of
  \<open>palloc.c\<close> meets under every sound scan policy. The invariant is in \<open>Malloc_Safety\<close>.
\<close>

section \<open>State\<close>

text \<open>
  A descriptor is named by its index in \<open>descs\<close>. The header of an arena is stored under the
  address of its first page; a page that holds no arena has no entry, and the check of the
  magic number fails there. The free lists are lists in the heap of list elements, whose
  elements are the first bytes of the free blocks.
\<close>

record desc =
  block_size :: nat
  blocks_per_arena :: nat
  free_list :: addr
  desc_lock :: bool

record arena =
  magic :: "32 word"
  arena_desc :: "nat option"
  free_cnt :: nat

record malloc_state =
  descs :: "desc list"
  arenas :: "addr \<Rightarrow> arena option"
  links :: lheap
  pallocs :: palloc_state

definition ARENA_MAGIC :: "32 word" where
  "ARENA_MAGIC = 0x9a548eed"

definition sizeof_arena :: nat where
  "sizeof_arena = 12"

text \<open>\<open>&descs[i].free_list\<close>: a descriptor has 48 bytes, and its list lies behind two words.\<close>

definition desc_list_addr :: "addr \<Rightarrow> nat \<Rightarrow> addr" where
  "desc_list_addr base_d i = base_d + of_nat (48 * i + 8)"

definition lock_desc :: "nat \<Rightarrow> malloc_state \<Rightarrow> malloc_state result" where
  "lock_desc i s = rbind (rget (descs s) i) (\<lambda>d. rbind (rassert (\<not> desc_lock d)) (\<lambda>_.
     Inr (s\<lparr>descs := (descs s)[i := d\<lparr>desc_lock := True\<rparr>]\<rparr>)))"

definition unlock_desc :: "nat \<Rightarrow> malloc_state \<Rightarrow> malloc_state result" where
  "unlock_desc i s = rbind (rget (descs s) i) (\<lambda>d. rbind (rassert (desc_lock d)) (\<lambda>_.
     Inr (s\<lparr>descs := (descs s)[i := d\<lparr>desc_lock := False\<rparr>]\<rparr>)))"

section \<open>Operations\<close>

partial_function (option) init_descs :: "addr \<Rightarrow> nat \<Rightarrow> desc list \<Rightarrow> lheap \<Rightarrow> (desc list \<times> lheap) result option" where
  "init_descs base_d bsize ds h =
    (if bsize < unat PGSIZE div 2 then
       obind (oassert (Suc (length ds) \<le> 10)) (\<lambda>_.
       let fl = desc_list_addr base_d (length ds) in
       obind (Some (list_init fl h)) (\<lambda>h.
       init_descs base_d (sz_mul bsize 2)
         (ds @ [\<lparr>block_size = bsize, blocks_per_arena = (unat PGSIZE - sizeof_arena) div bsize,
                 free_list = fl, desc_lock = False\<rparr>]) h))
     else Some (Inr (ds, h)))"

definition malloc_init :: "addr \<Rightarrow> malloc_state \<Rightarrow> malloc_state result option" where
  "malloc_init base_d s = obind (init_descs base_d 16 (descs s) (links s)) (\<lambda>(ds, h).
     Some (Inr (s\<lparr>descs := ds, links := h\<rparr>)))"

text \<open>The header of the arena that a block lies in, with the checks of its alignment.\<close>

definition block_to_arena :: "malloc_state \<Rightarrow> addr \<Rightarrow> (addr \<times> arena) result" where
  "block_to_arena s b =
    (let a = pg_round_down b in
     rbind (rassert (a \<noteq> NULL)) (\<lambda>_.
     case arenas s a of None \<Rightarrow> Inl Assert_fail
     | Some ar \<Rightarrow>
       rbind (rassert (magic ar = ARENA_MAGIC)) (\<lambda>_.
       rbind (case arena_desc ar of None \<Rightarrow> Inr ()
              | Some i \<Rightarrow> rbind (rget (descs s) i) (\<lambda>d.
                  rassert (unat (pg_ofs b - of_nat sizeof_arena) mod block_size d = 0))) (\<lambda>_.
       rbind (rassert (arena_desc ar \<noteq> None \<or> pg_ofs b = of_nat sizeof_arena)) (\<lambda>_.
       Inr (a, ar))))))"

definition arena_to_block :: "malloc_state \<Rightarrow> addr \<Rightarrow> nat \<Rightarrow> addr result" where
  "arena_to_block s a idx =
     rbind (rassert (a \<noteq> NULL)) (\<lambda>_.
     case arenas s a of None \<Rightarrow> Inl Assert_fail
     | Some ar \<Rightarrow>
       rbind (rassert (magic ar = ARENA_MAGIC)) (\<lambda>_.
       case arena_desc ar of None \<Rightarrow> Inl Mem_fault
       | Some i \<Rightarrow> rbind (rget (descs s) i) (\<lambda>d.
           rbind (rassert (idx < blocks_per_arena d)) (\<lambda>_.
           Inr (a + of_nat sizeof_arena + of_nat (sz_mul idx (block_size d)))))))"

text \<open>The smallest descriptor that satisfies a request.\<close>

fun find_desc :: "desc list \<Rightarrow> nat \<Rightarrow> nat \<Rightarrow> nat option" where
  "find_desc [] sz i = None"
| "find_desc (d # ds) sz i = (if block_size d \<ge> sz then Some i else find_desc ds sz (Suc i))"

definition set_arena :: "addr \<Rightarrow> arena option \<Rightarrow> malloc_state \<Rightarrow> malloc_state" where
  "set_arena a ar s = s\<lparr>arenas := (arenas s)(a := ar)\<rparr>"

text \<open>A request that is too big for any descriptor.\<close>

definition malloc_big :: "nat \<Rightarrow> malloc_state \<Rightarrow> (addr \<times> malloc_state) result option" where
  "malloc_big sz s =
    (let page_cnt = DIV_ROUND_UP (sz_add sz sizeof_arena) (unat PGSIZE) in
     obind (palloc_get_multiple 0 page_cnt (pallocs s)) (\<lambda>(a, ps).
     let s = s\<lparr>pallocs := ps\<rparr> in
     if a = NULL then Some (Inr (NULL, s))
     else Some (Inr (a + of_nat sizeof_arena,
            set_arena a (Some \<lparr>magic = ARENA_MAGIC, arena_desc = None, free_cnt = page_cnt\<rparr>) s))))"

text \<open>A new arena, all of whose blocks are added to the free list.\<close>

definition add_block :: "nat \<Rightarrow> addr \<Rightarrow> nat \<Rightarrow> malloc_state \<Rightarrow> malloc_state result" where
  "add_block i a k s =
     rbind (arena_to_block s a k) (\<lambda>b.
     rbind (rget (descs s) i) (\<lambda>d.
     rbind (list_push_back (free_list d) b (links s)) (\<lambda>h. Inr (s\<lparr>links := h\<rparr>))))"

definition new_arena :: "nat \<Rightarrow> malloc_state \<Rightarrow> (bool \<times> malloc_state) result option" where
  "new_arena i s =
     obind (palloc_get_page 0 (pallocs s)) (\<lambda>(a, ps).
     let s = s\<lparr>pallocs := ps\<rparr> in
     if a = NULL then Some (Inr (False, s))
     else
       obind (Some (rget (descs s) i)) (\<lambda>d.
       let s = set_arena a (Some \<lparr>magic = ARENA_MAGIC, arena_desc = Some i, free_cnt = blocks_per_arena d\<rparr>) s in
       obind (Some (rfor (add_block i a) [0..<blocks_per_arena d] s)) (\<lambda>s. Some (Inr (True, s)))))"

definition take_block :: "nat \<Rightarrow> malloc_state \<Rightarrow> (addr \<times> malloc_state) result" where
  "take_block i s =
     rbind (rget (descs s) i) (\<lambda>d.
     rbind (list_pop_front (free_list d) (links s)) (\<lambda>(b, h).
     let s = s\<lparr>links := h\<rparr> in
     rbind (block_to_arena s b) (\<lambda>(a, ar).
     let s = set_arena a (Some (ar\<lparr>free_cnt := sz_sub (free_cnt ar) 1\<rparr>)) s in
     rbind (unlock_desc i s) (\<lambda>s. Inr (b, s)))))"

definition malloc :: "nat \<Rightarrow> malloc_state \<Rightarrow> (addr \<times> malloc_state) result option" where
  "malloc sz s =
    (if sz = 0 then Some (Inr (NULL, s))
     else case find_desc (descs s) sz 0 of
       None \<Rightarrow> malloc_big sz s
     | Some i \<Rightarrow>
         obind (Some (lock_desc i s)) (\<lambda>s.
         obind (Some (rbind (rget (descs s) i) (\<lambda>d. list_empty (links s) (free_list d)))) (\<lambda>e.
         obind (if e then new_arena i s else Some (Inr (True, s))) (\<lambda>(ok, s).
         if \<not> ok then obind (Some (unlock_desc i s)) (\<lambda>s. Some (Inr (NULL, s)))
         else Some (take_block i s)))))"

text \<open>The block is cleared in the byte memory, as \<open>memset\<close> does.\<close>

definition put_ram :: "memory \<Rightarrow> malloc_state \<Rightarrow> malloc_state" where
  "put_ram m s = s\<lparr>pallocs := (pallocs s)\<lparr>ram := m\<rparr>\<rparr>"

definition calloc :: "nat \<Rightarrow> nat \<Rightarrow> malloc_state \<Rightarrow> (addr \<times> malloc_state) result option" where
  "calloc a b s =
    (let sz = sz_mul a b in
     if sz < a \<or> sz < b then Some (Inr (NULL, s))
     else obind (malloc sz s) (\<lambda>(p, s).
       if p \<noteq> NULL then
         obind (Some (memset (ram (pallocs s)) p 0 sz)) (\<lambda>(_, m). Some (Inr (p, put_ram m s)))
       else Some (Inr (p, s))))"

definition block_bytes :: "malloc_state \<Rightarrow> addr \<Rightarrow> nat result" where
  "block_bytes s block =
     rbind (block_to_arena s block) (\<lambda>(a, ar).
     case arena_desc ar of
       Some i \<Rightarrow> rbind (rget (descs s) i) (\<lambda>d. Inr (block_size d))
     | None \<Rightarrow> Inr (sz_sub (sz_mul (unat PGSIZE) (free_cnt ar)) (unat (pg_ofs block))))"

definition remove_block :: "addr \<Rightarrow> nat \<Rightarrow> malloc_state \<Rightarrow> malloc_state result" where
  "remove_block a k s =
     rbind (arena_to_block s a k) (\<lambda>b.
     rbind (list_remove b (links s)) (\<lambda>(_, h). Inr (s\<lparr>links := h\<rparr>)))"

text \<open>
  Pages that go back to the page allocator are overwritten, the arena header included.
\<close>

definition free_small :: "nat \<Rightarrow> addr \<Rightarrow> addr \<Rightarrow> arena \<Rightarrow> malloc_state \<Rightarrow> malloc_state result" where
  "free_small i p a ar s =
     rbind (rget (descs s) i) (\<lambda>d.
     rbind (memset (ram (pallocs s)) p 0xcc (block_size d)) (\<lambda>(_, m).
     rbind (lock_desc i (put_ram m s)) (\<lambda>s.
     rbind (list_push_front (free_list d) p (links s)) (\<lambda>h.
     let fc = sz_add (free_cnt ar) 1;
         s = set_arena a (Some (ar\<lparr>free_cnt := fc\<rparr>)) (s\<lparr>links := h\<rparr>) in
     rbind (if fc \<ge> blocks_per_arena d then
              rbind (rassert (fc = blocks_per_arena d)) (\<lambda>_.
              rbind (rfor (remove_block a) [0..<blocks_per_arena d] s) (\<lambda>s.
              rbind (palloc_free_page a (pallocs s)) (\<lambda>ps.
              Inr (set_arena a None (s\<lparr>pallocs := ps\<rparr>)))))
            else Inr s) (\<lambda>s.
     unlock_desc i s)))))"

definition free :: "addr \<Rightarrow> malloc_state \<Rightarrow> malloc_state result" where
  "free p s =
    (if p \<noteq> NULL then
       rbind (block_to_arena s p) (\<lambda>(a, ar).
       case arena_desc ar of
         Some i \<Rightarrow> free_small i p a ar s
       | None \<Rightarrow> rbind (palloc_free_multiple a (free_cnt ar) (pallocs s)) (\<lambda>ps.
           Inr (set_arena a None (s\<lparr>pallocs := ps\<rparr>))))
     else Inr s)"

text \<open>The contents move to the new block, and the old one is freed.\<close>

definition move_block :: "addr \<Rightarrow> addr \<Rightarrow> nat \<Rightarrow> malloc_state \<Rightarrow> malloc_state result" where
  "move_block old_block new_block new_size s =
     rbind (block_bytes s old_block) (\<lambda>old_size.
     let min_size = (if new_size < old_size then new_size else old_size) in
     rbind (memcpy (ram (pallocs s)) new_block old_block min_size) (\<lambda>dm.
     free old_block (put_ram (snd dm) s)))"

definition realloc :: "addr \<Rightarrow> nat \<Rightarrow> malloc_state \<Rightarrow> (addr \<times> malloc_state) result option" where
  "realloc old_block new_size s =
    (if new_size = 0 then obind (Some (free old_block s)) (\<lambda>s. Some (Inr (NULL, s)))
     else obind (malloc new_size s) (\<lambda>(new_block, s).
       if old_block \<noteq> NULL \<and> new_block \<noteq> NULL then
         obind (Some (move_block old_block new_block new_size s)) (\<lambda>s. Some (Inr (new_block, s)))
       else Some (Inr (new_block, s))))"

section \<open>The contract of the page allocator\<close>

text \<open>
  What \<open>malloc\<close> relies on: \<open>held ps L\<close> says that the blocks of pages in \<open>L\<close>, by address
  and number of pages, are held by the clients of the page allocator in state \<open>ps\<close>. All
  pages lie at or above the address \<open>low\<close>.
\<close>

locale page_source =
  fixes held :: "palloc_state \<Rightarrow> (addr \<times> nat) set \<Rightarrow> bool" and low :: nat
  assumes held_get: "held ps L \<Longrightarrow> 0 < n \<Longrightarrow> palloc_get_multiple 0 n ps = Some (Inr (p, ps')) \<Longrightarrow>
      held ps' (if p = NULL then L else insert (p, n) L)"
    and held_new: "held ps L \<Longrightarrow> 0 < n \<Longrightarrow> palloc_get_multiple 0 n ps = Some (Inr (p, ps')) \<Longrightarrow> p \<noteq> NULL \<Longrightarrow>
      (q, k) \<in> L \<Longrightarrow> \<not> (in_block p (4096 * n) x \<and> in_block q (4096 * k) x)"
    and held_put: "held ps L \<Longrightarrow> (p, n) \<in> L \<Longrightarrow> \<exists>ps'. palloc_free_multiple p n ps = Inr ps' \<and> held ps' (L - {(p, n)})"
    and held_block: "held ps L \<Longrightarrow> (p, n) \<in> L \<Longrightarrow>
      0 < n \<and> pg_ofs p = 0 \<and> p \<noteq> NULL \<and> unat p + 4096 * n \<le> 2 ^ 32 \<and> low \<le> unat p"
    and held_disjoint: "held ps L \<Longrightarrow> (p, n) \<in> L \<Longrightarrow> (q, k) \<in> L \<Longrightarrow> (p, n) \<noteq> (q, k) \<Longrightarrow>
      \<not> (in_block p (4096 * n) x \<and> in_block q (4096 * k) x)"
    and held_ram: "held ps L \<Longrightarrow> held (ps\<lparr>ram := m\<rparr>) L"

text \<open>The model of the page allocator meets it under every sound scan policy.\<close>

definition held_by :: "selector \<Rightarrow> nat \<Rightarrow> palloc_state \<Rightarrow> (addr \<times> nat) set \<Rightarrow> bool" where
  "held_by pol low ps L \<longleftrightarrow> (\<exists>xs bl. run_inv pol ps (map (block_addr ps) bl) xs bl \<and> L = block_addr ps ` set bl)
     \<and> low \<le> unat (base (kernel_pool ps))"

lemma in_block_range:
  assumes "unat p + n \<le> 2 ^ 32"
  shows "in_block p n x \<longleftrightarrow> unat p \<le> unat x \<and> unat x < unat p + n"
proof (cases "p \<le> x")
  case True
  then show ?thesis using assms by (auto simp: in_block_def unat_sub word_le_nat_alt)
next
  case False
  then have "unat x < unat p" by (simp add: word_le_nat_alt)
  moreover have "unat (x - p) = 2 ^ 32 + unat x - unat p"
    using calculation unat_bound32[of p] by (simp add: unat_sub_if_size word_le_nat_alt word_size)
  ultimately show ?thesis using assms by (simp add: in_block_def)
qed

lemma block_addr_held:
  assumes "run_inv pol ps live xs bl" and "(u, i, n) \<in> set bl" and "low \<le> unat (base (kernel_pool ps))"
  shows "0 < n" "pg_ofs (page_addr (get_pool ps u) i) = 0" "page_addr (get_pool ps u) i \<noteq> NULL"
    "unat (page_addr (get_pool ps u) i) + 4096 * n \<le> 2 ^ 32" "low \<le> unat (page_addr (get_pool ps u) i)"
proof -
  have ok: "palloc_ok pol ps xs" and led: "ledger xs bl" using assms(1) by (auto simp: run_inv_def)
  note p = palloc_ok_pool[OF ok, of u]
  show n: "0 < n" using led assms(2) unfolding ledger_def by blast
  have i: "i + n \<le> length (xs u)" using led assms(2) unfolding ledger_def by blast
  then have "i < length (xs u)" using n by simp
  then show "pg_ofs (page_addr (get_pool ps u) i) = 0" "page_addr (get_pool ps u) i \<noteq> NULL"
    using page_addr_aligned[OF p] page_addr_nonnull[OF p] by auto
  show "unat (page_addr (get_pool ps u) i) + 4096 * n \<le> 2 ^ 32" using pool_bytes(2)[OF p i n] .
  have "unat (base (kernel_pool ps)) \<le> unat (base (get_pool ps u))"
    using ok by (cases u) (auto simp: palloc_ok_def get_pool_def)
  then show "low \<le> unat (page_addr (get_pool ps u) i)"
    using unat_page_addr[OF p \<open>i < length (xs u)\<close>] assms(3) by linarith
qed

lemma live_block:
  assumes "run_inv pol ps live xs bl" and "(p, n) \<in> set live"
  shows "\<exists>u i. (u, i, n) \<in> set bl \<and> p = page_addr (get_pool ps u) i"
  using assms by (auto simp: run_inv_def block_addr_def)

lemma run_inv_ram: "run_inv pol (ps\<lparr>ram := m\<rparr>) live xs bl = run_inv pol ps live xs bl"
proof -
  have "block_addr (ps\<lparr>ram := m\<rparr>) = block_addr ps" by (rule block_addr_cong) simp
  moreover have "palloc_ok pol (ps\<lparr>ram := m\<rparr>) xs = palloc_ok pol ps xs" by (simp add: palloc_ok_def)
  ultimately show ?thesis by (simp add: run_inv_def)
qed

lemma live_disjoint:
  assumes "run_inv pol ps live xs bl" and "a < b" "b < length live" and "live ! a = (p, n)" "live ! b = (q, k)"
  shows "\<not> (in_block p (4096 * n) x \<and> in_block q (4096 * k) x)"
proof -
  have ok: "palloc_ok pol ps xs" and led: "ledger xs bl" and live: "live = map (block_addr ps) bl"
    using assms(1) by (auto simp: run_inv_def)
  obtain u i m where bi: "bl ! a = (u, i, m)" by (cases "bl ! a") auto
  obtain v j l where bj: "bl ! b = (v, j, l)" by (cases "bl ! b") auto
  have len: "a < length bl" "b < length bl" using assms live by auto
  then have in_bl: "(u, i, m) \<in> set bl" "(v, j, l) \<in> set bl" using bi bj nth_mem by metis+
  have "apart (u, i, m) (v, j, l)"
    using led assms(2) len bi bj by (metis ledger_def sorted_wrt_nth_less)
  moreover have "0 < m" "i + m \<le> length (xs u)" "0 < l" "j + l \<le> length (xs v)"
    using led in_bl unfolding ledger_def by blast+
  moreover have "p = page_addr (get_pool ps u) i" "n = m" "q = page_addr (get_pool ps v) j" "k = l"
    using assms(4,5) live len bi bj by (auto simp: block_addr_def)
  ultimately show ?thesis using apart_bytes[OF ok] by blast
qed

lemma live_disjoint_set:
  assumes "run_inv pol ps live xs bl" and "(p, n) \<in> set live" "(q, k) \<in> set live" and "(p, n) \<noteq> (q, k)"
  shows "\<not> (in_block p (4096 * n) x \<and> in_block q (4096 * k) x)"
proof -
  obtain a b where ab: "a < length live" "live ! a = (p, n)" "b < length live" "live ! b = (q, k)"
    using assms(2,3) by (auto simp: in_set_conv_nth)
  then have "a \<noteq> b" using assms(4) by auto
  then show ?thesis
    using live_disjoint[OF assms(1), of a b] live_disjoint[OF assms(1), of b a] ab by (cases "a < b") auto
qed

lemma live_distinct:
  assumes "run_inv pol ps (l1 @ (p, n) # l2) xs bl"
  shows "(p, n) \<notin> set (l1 @ l2)"
proof
  let ?live = "l1 @ (p, n) # l2" and ?c = "length l1"
  assume "(p, n) \<in> set (l1 @ l2)"
  then obtain b where b: "b < length ?live" "?live ! b = (p, n)" "b \<noteq> ?c"
  proof -
    obtain b where "b < length (l1 @ l2)" "(l1 @ l2) ! b = (p, n)"
      using \<open>(p, n) \<in> set (l1 @ l2)\<close> by (auto simp: in_set_conv_nth simp del: set_append)
    then show ?thesis
      using that[of "if b < ?c then b else Suc b"] by (auto simp: nth_append split: if_splits)
  qed
  have "0 < n" using live_block[OF assms, of p n] assms by (auto simp: run_inv_def ledger_def)
  then have "in_block p (4096 * n) p" by (simp add: in_block_def)
  then show False
    using live_disjoint[OF assms, of b ?c p n p n p] live_disjoint[OF assms, of ?c b p n p n p] b
    by (cases "b < ?c") auto
qed

lemma held_byE:
  assumes "held_by pol low ps L"
  obtains live xs bl where "run_inv pol ps live xs bl" "L = set live" "low \<le> unat (base (kernel_pool ps))"
  using assms by (auto simp: held_by_def)

lemma held_byI:
  assumes "run_inv pol ps live xs bl" "L = set live" "low \<le> unat (base (kernel_pool ps))"
  shows "held_by pol low ps L"
  using assms unfolding held_by_def run_inv_def by (metis set_map)

lemma held_by_put:
  assumes "held_by pol low ps L" "(p, n) \<in> L"
  shows "\<exists>ps'. palloc_free_multiple p n ps = Inr ps' \<and> held_by pol low ps' (L - {(p, n)})"
proof -
  obtain live xs bl where inv: "run_inv pol ps live xs bl" and L: "L = set live"
      and low: "low \<le> unat (base (kernel_pool ps))"
    using held_byE[OF assms(1)] .
  obtain l1 l2 where live: "live = l1 @ (p, n) # l2" using assms(2) L by (metis split_list)
  obtain ps' xs' bl' where ps': "palloc_free_multiple p n ps = Inr ps'" "run_inv pol ps' (l1 @ l2) xs' bl'"
    using run_inv_free[OF inv[unfolded live]] by blast
  have "\<forall>v. base (get_pool ps' v) = base (get_pool ps v)"
  proof -
    obtain u i where b: "(u, i, n) \<in> set bl" "p = page_addr (get_pool ps u) i"
      using live_block[OF inv, of p n] live by auto
    have ok: "palloc_ok pol ps xs" "ledger xs bl" using inv by (auto simp: run_inv_def)
    have "group (xs u) i n True" "0 < n" using ledger_used[OF ok(2) b(1)] ok(2) b(1) unfolding ledger_def by blast+
    then show ?thesis using palloc_free_multiple_ok[OF ok(1), of u i n] ps'(1) b(2) by auto
  qed
  then have "base (kernel_pool ps') = base (kernel_pool ps)" by (simp add: get_pool_kernel_user)
  moreover have "L - {(p, n)} = set (l1 @ l2)" using L live live_distinct[OF inv[unfolded live]] by auto
  ultimately show ?thesis using ps' held_byI low by metis
qed

lemma held_by_block:
  assumes "held_by pol low ps L" "(p, n) \<in> L"
  shows "0 < n \<and> pg_ofs p = 0 \<and> p \<noteq> NULL \<and> unat p + 4096 * n \<le> 2 ^ 32 \<and> low \<le> unat p"
proof -
  obtain live xs bl where inv: "run_inv pol ps live xs bl" and L: "L = set live"
      and low: "low \<le> unat (base (kernel_pool ps))"
    using held_byE[OF assms(1)] .
  obtain u i where b: "(u, i, n) \<in> set bl" "p = page_addr (get_pool ps u) i"
    using live_block[OF inv] assms(2) L by blast
  show ?thesis using block_addr_held[OF inv b(1) low] b(2) by simp
qed

lemma held_by_disjoint:
  assumes "held_by pol low ps L" "(p, n) \<in> L" "(q, k) \<in> L" "(p, n) \<noteq> (q, k)"
  shows "\<not> (in_block p (4096 * n) x \<and> in_block q (4096 * k) x)"
  using held_byE[OF assms(1)] live_disjoint_set assms(2-4) by metis

lemma held_by_ram: "held_by pol low ps L \<Longrightarrow> held_by pol low (ps\<lparr>ram := m\<rparr>) L"
  by (erule held_byE, rule held_byI) (simp_all add: run_inv_ram)

context scan_policy
begin

lemma held_by_get:
  assumes "held_by pol low ps L" "0 < n" "palloc_get_multiple 0 n ps = Some (Inr (p, ps'))"
  shows "held_by pol low ps' (if p = NULL then L else insert (p, n) L)"
    and "p \<noteq> NULL \<Longrightarrow> (q, k) \<in> L \<Longrightarrow> \<not> (in_block p (4096 * n) x \<and> in_block q (4096 * k) x)"
proof -
  obtain live xs bl where inv: "run_inv pol ps live xs bl" and L: "L = set live"
      and low: "low \<le> unat (base (kernel_pool ps))"
    using held_byE[OF assms(1)] .
  have ok: "palloc_ok pol ps xs" using inv by (simp add: run_inv_def)
  note out = get_multiple_outcome[OF ok assms(2,3)]
  have base: "base (kernel_pool ps') = base (kernel_pool ps)"
    using out by (auto simp: get_outcome_def Let_def get_pool_kernel_user)
  obtain xs' bl' where inv': "run_inv pol ps' (if p = NULL then live else (p, n) # live) xs' bl'"
    using run_inv_get[OF inv assms(2) out] by blast
  then show "held_by pol low ps' (if p = NULL then L else insert (p, n) L)"
    using low base L by (intro held_byI[OF inv']) auto
  assume p: "p \<noteq> NULL" "(q, k) \<in> L"
  then obtain b where "b < length live" "live ! b = (q, k)" using L by (auto simp: in_set_conv_nth)
  then show "\<not> (in_block p (4096 * n) x \<and> in_block q (4096 * k) x)"
    using live_disjoint[OF inv', of 0 "Suc b" p n q k x] p by simp
qed

lemma page_source_held: "page_source (held_by pol low) low"
proof (rule page_source.intro, goal_cases)
  case 1
  then show ?case by (rule held_by_get(1))
next
  case 2
  then show ?case by (rule held_by_get(2))
next
  case 3
  then show ?case by (rule held_by_put)
next
  case 4
  then show ?case by (rule held_by_block)
next
  case 5
  then show ?case by (rule held_by_disjoint)
next
  case 6
  then show ?case by (rule held_by_ram)
qed

end

interpretation ff_pages: page_source "held_by FIRST_FIT low" low for low
  by (rule first_fit.page_source_held)

interpretation nf_pages: page_source "held_by NEXT_FIT low" low for low
  by (rule next_fit.page_source_held)

interpretation bf_pages: page_source "held_by BEST_FIT low" low for low
  by (rule best_fit.page_source_held)

end
