(* ===== verification/Malloc_Safety.thy ===== *)
theory Malloc_Safety
  imports Malloc
begin

text \<open>
  The invariant of the block allocator of \<open>src/threads/malloc.c\<close> and the contract that it
  gives its clients. The invariant relates the free lists, the arena headers and the pages
  that are held from the page allocator; every operation keeps it, changes the set of blocks
  in use by exactly the block it hands out or takes back, and never fails an assertion on a
  block in use. The last section states this for runs of a client.
\<close>

section \<open>Blocks of an arena\<close>

definition blk :: "addr \<Rightarrow> nat \<Rightarrow> nat \<Rightarrow> addr" where
  "blk a bs k = a + of_nat sizeof_arena + of_nat (k * bs)"

definition page_at :: "addr \<Rightarrow> bool" where
  "page_at a \<longleftrightarrow> a \<noteq> NULL \<and> pg_ofs a = 0 \<and> unat a + 4096 \<le> 2 ^ 32"

lemma blk_fits: "k < 4084 div bs \<Longrightarrow> k * bs + bs \<le> 4084" for k bs :: nat
proof -
  assume "k < 4084 div bs"
  then have "Suc k * bs \<le> 4084 div bs * bs" by (intro mult_le_mono1) simp
  also have "\<dots> \<le> 4084" by simp
  finally show ?thesis by simp
qed

lemma unat_small: "m < 2 ^ 32 \<Longrightarrow> unat (of_nat m :: addr) = m"
  by (simp add: unat_of_nat)

lemma unat_blk:
  assumes "page_at a" and "k * bs + bs \<le> 4084"
  shows "unat (blk a bs k) = unat a + 12 + k * bs"
proof -
  have "unat (of_nat (12 + k * bs) :: addr) = 12 + k * bs" using assms(2) by (intro unat_small) simp
  moreover have "blk a bs k = a + of_nat (12 + k * bs)" by (simp add: blk_def sizeof_arena_def)
  moreover have "unat a + (12 + k * bs) < 2 ^ 32" using assms by (cases "bs = 0") (simp_all add: page_at_def)
  ultimately show ?thesis by (simp add: unat_plus_if_size word_size)
qed

lemma blk_page:
  assumes "page_at a" and "k * bs + bs \<le> 4084" and "0 < bs"
  shows "pg_round_down (blk a bs k) = a" and "unat (pg_ofs (blk a bs k)) = 12 + k * bs" and "blk a bs k \<noteq> NULL"
proof -
  obtain q where q: "unat a = 4096 * q" using assms(1) by (auto simp: page_at_def pg_ofs_0_iff)
  have b: "unat (blk a bs k) = 4096 * q + (12 + k * bs)" using unat_blk[OF assms(1,2)] q by simp
  have lt: "12 + k * bs < 4096" using assms(2,3) by simp
  have "unat (pg_round_down (blk a bs k)) = unat a"
    unfolding pg_round_down_def unat_and_not_PGMASK b q using lt by simp
  then show "pg_round_down (blk a bs k) = a" by (simp add: word_unat_eq_iff)
  show "unat (pg_ofs (blk a bs k)) = 12 + k * bs" unfolding unat_pg_ofs b using lt by simp
  show "blk a bs k \<noteq> NULL" using b by (auto simp: NULL_def)
qed

lemma blk_inj:
  assumes "page_at a" and "page_at a'" and "k * bs + bs \<le> 4084" "k' * bs + bs \<le> 4084" and "0 < bs" and "blk a bs k = blk a' bs k'"
  shows "a = a'" and "k = k'"
proof -
  show "a = a'" using blk_page(1)[OF assms(1,3,5)] blk_page(1)[OF assms(2,4,5)] assms(6) by simp
  have "12 + k * bs = 12 + k' * bs"
    using blk_page(2)[OF assms(1,3,5)] unfolding assms(6) blk_page(2)[OF assms(2,4,5)] by (rule sym)
  then show "k = k'" using assms(5) by simp
qed

lemma blk_disjoint:
  assumes "page_at a" and "k * bs + bs \<le> 4084" "k' * bs + bs \<le> 4084" and "k \<noteq> k'"
  shows "\<not> (in_block (blk a bs k) bs x \<and> in_block (blk a bs k') bs x)"
proof -
  have b: "unat (blk a bs k) + bs \<le> 2 ^ 32" "unat (blk a bs k') + bs \<le> 2 ^ 32"
    using assms(1-3) unat_blk[OF assms(1)] by (simp_all add: page_at_def)
  have "k * bs + bs \<le> k' * bs \<or> k' * bs + bs \<le> k * bs"
  proof (cases "k < k'")
    case True
    then have "Suc k * bs \<le> k' * bs" by (intro mult_le_mono1) simp
    then show ?thesis by simp
  next
    case False
    then have "Suc k' * bs \<le> k * bs" using assms(4) by (intro mult_le_mono1) simp
    then show ?thesis by simp
  qed
  then show ?thesis
    using unat_blk[OF assms(1,2)] unat_blk[OF assms(1,3)] by (auto simp: in_block_range[OF b(1)] in_block_range[OF b(2)])
qed

lemma blk_in_page:
  assumes "page_at a" and "k * bs + bs \<le> 4084" and "in_block (blk a bs k) bs x"
  shows "in_block a 4096 x"
proof -
  have b: "unat (blk a bs k) + bs \<le> 2 ^ 32" "unat a + 4096 \<le> 2 ^ 32"
    using assms(1,2) unat_blk[OF assms(1,2)] by (simp_all add: page_at_def)
  show ?thesis using assms(2,3) unat_blk[OF assms(1,2)] by (simp add: in_block_range[OF b(1)] in_block_range[OF b(2)])
qed

section \<open>Invariant\<close>

definition desc_ok :: "nat \<Rightarrow> desc \<Rightarrow> bool" where
  "desc_ok low d \<longleftrightarrow> 16 \<le> block_size d \<and> block_size d \<le> 2048 \<and> blocks_per_arena d = 4084 div block_size d
     \<and> free_list d \<noteq> NULL \<and> unat (free_list d) + 16 \<le> low"

text \<open>The free blocks that an arena has.\<close>

definition free_idx :: "desc \<Rightarrow> addr \<Rightarrow> addr list \<Rightarrow> nat set" where
  "free_idx d a xs = {k. k < blocks_per_arena d \<and> blk a (block_size d) k \<in> set xs}"

definition arena_ok :: "desc list \<Rightarrow> (nat \<Rightarrow> addr list) \<Rightarrow> (addr \<times> nat) set \<Rightarrow> addr \<Rightarrow> arena \<Rightarrow> bool" where
  "arena_ok D fl L a ar \<longleftrightarrow> magic ar = ARENA_MAGIC
     \<and> (case arena_desc ar of None \<Rightarrow> (a, free_cnt ar) \<in> L
        | Some i \<Rightarrow> i < length D \<and> (a, 1) \<in> L \<and> free_cnt ar = card (free_idx (D ! i) a (fl i)))"

text \<open>
  \<open>fl i\<close> lists the free blocks of descriptor \<open>i\<close>, and \<open>L\<close> the blocks of pages that are held from
  the page allocator, among them those of the arenas.
\<close>

definition heap_inv ::
    "(palloc_state \<Rightarrow> (addr \<times> nat) set \<Rightarrow> bool) \<Rightarrow> nat \<Rightarrow> malloc_state \<Rightarrow> (nat \<Rightarrow> addr list) \<Rightarrow> (addr \<times> nat) set \<Rightarrow> bool" where
  "heap_inv held low s fl L \<longleftrightarrow> (\<forall>d \<in> set (descs s). desc_ok low d)
     \<and> (\<forall>i < length (descs s). \<forall>j < length (descs s). i \<noteq> j \<longrightarrow>
          nodes (free_list (descs s ! i)) [] \<inter> nodes (free_list (descs s ! j)) [] = {})
     \<and> (\<forall>i < length (descs s). klist (links s) (free_list (descs s ! i)) (fl i))
     \<and> (\<forall>i < length (descs s). \<forall>b \<in> set (fl i). \<exists>a ar. \<exists>k < blocks_per_arena (descs s ! i).
          arenas s a = Some ar \<and> arena_desc ar = Some i \<and> b = blk a (block_size (descs s ! i)) k)
     \<and> (\<forall>a ar. arenas s a = Some ar \<longrightarrow> arena_ok (descs s) fl L a ar)
     \<and> held (pallocs s) L"

definition unlocked :: "malloc_state \<Rightarrow> bool" where
  "unlocked s \<longleftrightarrow> (\<forall>d \<in> set (descs s). \<not> desc_lock d)"

text \<open>The blocks that clients of \<open>malloc\<close> hold, with their sizes.\<close>

definition arena_used :: "desc list \<Rightarrow> (nat \<Rightarrow> addr list) \<Rightarrow> addr \<Rightarrow> arena \<Rightarrow> (addr \<times> nat) set" where
  "arena_used D fl a ar = (case arena_desc ar of
       None \<Rightarrow> {(a + of_nat sizeof_arena, 4096 * free_cnt ar - sizeof_arena)}
     | Some i \<Rightarrow> (\<lambda>k. (blk a (block_size (D ! i)) k, block_size (D ! i))) `
         ({..<blocks_per_arena (D ! i)} - free_idx (D ! i) a (fl i)))"

definition used_at :: "malloc_state \<Rightarrow> (nat \<Rightarrow> addr list) \<Rightarrow> addr \<Rightarrow> (addr \<times> nat) set" where
  "used_at s fl a = (case arenas s a of None \<Rightarrow> {} | Some ar \<Rightarrow> arena_used (descs s) fl a ar)"

definition in_use :: "malloc_state \<Rightarrow> (nat \<Rightarrow> addr list) \<Rightarrow> (addr \<times> nat) set" where
  "in_use s fl = (\<Union>a. used_at s fl a)"

lemma arena_used_big: "arena_desc ar = None \<Longrightarrow> arena_used D fl a ar = {(a + of_nat sizeof_arena, 4096 * free_cnt ar - sizeof_arena)}"
  by (simp add: arena_used_def)

lemma arena_used_small: "arena_desc ar = Some i \<Longrightarrow> (b, n) \<in> arena_used D fl a ar \<longleftrightarrow>
    n = block_size (D ! i) \<and> (\<exists>k < blocks_per_arena (D ! i). b = blk a n k \<and> b \<notin> set (fl i))"
  by (auto simp: arena_used_def free_idx_def)

lemma used_atE:
  assumes "(b, n) \<in> used_at s fl a"
  obtains ar where "arenas s a = Some ar" "(b, n) \<in> arena_used (descs s) fl a ar"
  using assms by (auto simp: used_at_def split: option.splits)

lemma desc_okD:
  assumes "desc_ok low d"
  shows "0 < block_size d" and "block_size d < 2 ^ 32" and "k < blocks_per_arena d \<Longrightarrow> k * block_size d + block_size d \<le> 4084"
    and "0 < blocks_per_arena d" and "blocks_per_arena d < 2 ^ 32"
proof -
  show "0 < block_size d" "block_size d < 2 ^ 32" using assms by (auto simp: desc_ok_def)
  show "k < blocks_per_arena d \<Longrightarrow> k * block_size d + block_size d \<le> 4084" using assms blk_fits by (simp add: desc_ok_def)
  have "2048 div block_size d \<le> blocks_per_arena d" using assms by (auto simp: desc_ok_def intro: div_le_mono)
  moreover have "1 \<le> 2048 div block_size d" using assms by (auto simp: desc_ok_def Suc_le_eq div_greater_zero_iff)
  ultimately show "0 < blocks_per_arena d" by simp
  have "blocks_per_arena d \<le> 4084" using assms by (auto simp: desc_ok_def)
  then show "blocks_per_arena d < 2 ^ 32" by simp
qed

context page_source
begin

lemma held_page: "held ps L \<Longrightarrow> (a, n) \<in> L \<Longrightarrow> page_at a"
  using held_block[of ps L a n] by (auto simp: page_at_def)

lemma held_same:
  assumes "held ps L" and "(a, n) \<in> L" and "(a, m) \<in> L"
  shows "n = m"
proof (rule ccontr)
  assume "n \<noteq> m"
  moreover have "in_block a (4096 * n) a" "in_block a (4096 * m) a"
    using held_block[OF assms(1,2)] held_block[OF assms(1,3)] by (simp_all add: in_block_def)
  ultimately show False using held_disjoint[OF assms(1-3), of a] by blast
qed

lemma heap_invD:
  assumes "heap_inv held low s fl L"
  shows "i < length (descs s) \<Longrightarrow> desc_ok low (descs s ! i)"
    and "i < length (descs s) \<Longrightarrow> klist (links s) (free_list (descs s ! i)) (fl i)"
    and "arenas s a = Some ar \<Longrightarrow> arena_ok (descs s) fl L a ar"
    and "held (pallocs s) L"
    and "i < length (descs s) \<Longrightarrow> b \<in> set (fl i) \<Longrightarrow> \<exists>a ar. \<exists>k < blocks_per_arena (descs s ! i).
          arenas s a = Some ar \<and> arena_desc ar = Some i \<and> b = blk a (block_size (descs s ! i)) k"
    and "i < length (descs s) \<Longrightarrow> j < length (descs s) \<Longrightarrow> i \<noteq> j \<Longrightarrow>
          nodes (free_list (descs s ! i)) [] \<inter> nodes (free_list (descs s ! j)) [] = {}"
  using assms nth_mem[of i "descs s"] unfolding heap_inv_def by blast+

lemma arena_page:
  assumes "heap_inv held low s fl L" and "arenas s a = Some ar"
  shows "page_at a" and "low \<le> unat a"
proof -
  obtain n where "(a, n) \<in> L"
    using heap_invD(3)[OF assms] by (cases "arena_desc ar") (auto simp: arena_ok_def)
  then show "page_at a" "low \<le> unat a"
    using held_page[OF heap_invD(4)[OF assms(1)]] held_block[OF heap_invD(4)[OF assms(1)]] by auto
qed

text \<open>The nodes of the free lists are apart from each other.\<close>

lemma free_block_high:
  assumes inv: "heap_inv held low s fl L" and i: "i < length (descs s)" and b: "b \<in> set (fl i)"
  shows "low + 12 \<le> unat b" and "b \<noteq> NULL"
proof -
  obtain a ar k where k: "k < blocks_per_arena (descs s ! i)" and a: "arenas s a = Some ar" and e: "b = blk a (block_size (descs s ! i)) k"
    using heap_invD(5)[OF inv i b] by blast
  note d = desc_okD[OF heap_invD(1)[OF inv i]]
  show "low + 12 \<le> unat b" using unat_blk[OF arena_page(1)[OF inv a] d(3)[OF k]] arena_page(2)[OF inv a] e by simp
  show "b \<noteq> NULL" using blk_page(3)[OF arena_page(1)[OF inv a] d(3)[OF k] d(1)] e by simp
qed

lemma head_low:
  assumes inv: "heap_inv held low s fl L" and i: "i < length (descs s)"
  shows "x \<in> nodes (free_list (descs s ! i)) [] \<Longrightarrow> unat x < low"
proof -
  have d: "unat (free_list (descs s ! i)) + 16 \<le> low" using heap_invD(1)[OF inv i] by (simp add: desc_ok_def)
  have "low \<le> 2 ^ 32 \<or> low > 2 ^ 32" by linarith
  have "unat (free_list (descs s ! i) + 8) \<le> unat (free_list (descs s ! i)) + 8" by (simp add: unat_plus_if_size)
  then show "x \<in> nodes (free_list (descs s ! i)) [] \<Longrightarrow> unat x < low"
    using d by (auto simp: nodes_def tail_of_def)
qed

lemma free_lists_apart:
  assumes inv: "heap_inv held low s fl L" and i: "i < length (descs s)" and j: "j < length (descs s)" and ij: "i \<noteq> j"
  shows "nodes (free_list (descs s ! i)) (fl i) \<inter> nodes (free_list (descs s ! j)) (fl j) = {}"
proof -
  have sp: "nodes l xs = nodes l [] \<union> set xs" for l xs by (auto simp: nodes_def)
  have hi: "b \<in> set (fl m) \<Longrightarrow> m < length (descs s) \<Longrightarrow> low + 12 \<le> unat b" for b m using free_block_high(1)[OF inv] by blast
  have lo: "b \<in> nodes (free_list (descs s ! m)) [] \<Longrightarrow> m < length (descs s) \<Longrightarrow> unat b < low" for b m using head_low[OF inv] by blast
  have "False" if b: "b \<in> set (fl i)" "b \<in> set (fl j)" for b
  proof -
    obtain a ar k where a: "arenas s a = Some ar" "arena_desc ar = Some i" "k < blocks_per_arena (descs s ! i)" "b = blk a (block_size (descs s ! i)) k"
      using heap_invD(5)[OF inv i b(1)] by blast
    obtain a' ar' k' where a': "arenas s a' = Some ar'" "arena_desc ar' = Some j" "k' < blocks_per_arena (descs s ! j)" "b = blk a' (block_size (descs s ! j)) k'"
      using heap_invD(5)[OF inv j b(2)] by blast
    note d = desc_okD[OF heap_invD(1)[OF inv i]] and d' = desc_okD[OF heap_invD(1)[OF inv j]]
    have "a = a'" using blk_page(1)[OF arena_page(1)[OF inv a(1)] d(3)[OF a(3)] d(1)]
        blk_page(1)[OF arena_page(1)[OF inv a'(1)] d'(3)[OF a'(3)] d'(1)] a(4) a'(4) by simp
    then show False using a a' ij by simp
  qed
  then show ?thesis
    using heap_invD(6)[OF inv i j ij] hi lo i j unfolding sp[of _ "fl i"] sp[of _ "fl j"] by fastforce
qed

text \<open>A block in use lies in the pages of its arena.\<close>

lemma used_arena:
  assumes inv: "heap_inv held low s fl L" and u: "(b, n) \<in> used_at s fl a"
  shows "\<exists>c. (a, c) \<in> L \<and> (\<forall>x. in_block b n x \<longrightarrow> in_block a (4096 * c) x)" and "pg_round_down b = a"
proof -
  obtain ar where a: "arenas s a = Some ar" and ia: "(b, n) \<in> arena_used (descs s) fl a ar" using used_atE[OF u] .
  note ok = heap_invD(3)[OF inv a] and pg = arena_page(1)[OF inv a]
  have "(\<exists>c. (a, c) \<in> L \<and> (\<forall>x. in_block b n x \<longrightarrow> in_block a (4096 * c) x)) \<and> pg_round_down b = a"
  proof (cases "arena_desc ar")
    case None
    then have b: "b = a + 12" "n = 4096 * free_cnt ar - 12" using ia by (simp_all add: arena_used_big sizeof_arena_def)
    have L: "(a, free_cnt ar) \<in> L" using ok None by (simp add: arena_ok_def)
    have r: "unat a + 4096 * free_cnt ar \<le> 2 ^ 32" "0 < free_cnt ar" using held_block[OF heap_invD(4)[OF inv] L] by auto
    have "unat (a + 12) = unat a + 12" using pg by (simp add: page_at_def unat_plus_if_size word_size)
    then have "in_block a (4096 * free_cnt ar) x" if "in_block b n x" for x
      using that b r in_block_range[of "a + 12" "4096 * free_cnt ar - 12" x] in_block_range[OF r(1), of x] by auto
    moreover have "pg_round_down b = a" using blk_page(1)[OF pg, of 0 1] b(1) by (simp add: blk_def sizeof_arena_def)
    ultimately show ?thesis using L by blast
  next
    case (Some i)
    then have i: "i < length (descs s)" "(a, 1) \<in> L" using ok by (simp_all add: arena_ok_def)
    obtain k where k: "n = block_size (descs s ! i)" "k < blocks_per_arena (descs s ! i)" "b = blk a n k"
      using ia by (auto simp: arena_used_small[OF Some])
    note d = desc_okD[OF heap_invD(1)[OF inv i(1)]]
    have "in_block a (4096 * 1) x" if "in_block b n x" for x
      using blk_in_page[OF pg, of k n x] d(3)[OF k(2)] k(1,3) that by simp
    then show ?thesis using i(2) blk_page(1)[OF pg d(3)[OF k(2)] d(1)] k(1,3) by blast
  qed
  then show "\<exists>c. (a, c) \<in> L \<and> (\<forall>x. in_block b n x \<longrightarrow> in_block a (4096 * c) x)" and "pg_round_down b = a" by blast+
qed

lemma in_use_at: "heap_inv held low s fl L \<Longrightarrow> (b, n) \<in> in_use s fl \<longleftrightarrow> (b, n) \<in> used_at s fl (pg_round_down b)"
  using used_arena(2) by (auto simp: in_use_def)

lemma in_use_disjoint:
  assumes inv: "heap_inv held low s fl L" and u: "(b, n) \<in> in_use s fl" "(c, m) \<in> in_use s fl" "(b, n) \<noteq> (c, m)"
  shows "\<not> (in_block b n x \<and> in_block c m x)"
proof -
  obtain a where a: "(b, n) \<in> used_at s fl a" using u(1) by (auto simp: in_use_def)
  obtain a' where a': "(c, m) \<in> used_at s fl a'" using u(2) by (auto simp: in_use_def)
  obtain p where p: "(a, p) \<in> L" "\<forall>x. in_block b n x \<longrightarrow> in_block a (4096 * p) x" using used_arena(1)[OF inv a] by blast
  obtain p' where p': "(a', p') \<in> L" "\<forall>x. in_block c m x \<longrightarrow> in_block a' (4096 * p') x" using used_arena(1)[OF inv a'] by blast
  show ?thesis
  proof (cases "a = a'")
    case False
    then have "(a, p) \<noteq> (a', p')" by simp
    from held_disjoint[OF heap_invD(4)[OF inv] p(1) p'(1) this] show ?thesis using p(2) p'(2) by blast
  next
    case True
    obtain ar where ar: "arenas s a = Some ar" "(b, n) \<in> arena_used (descs s) fl a ar" using used_atE[OF a] .
    then have ar': "(c, m) \<in> arena_used (descs s) fl a ar" using a' True by (auto elim: used_atE)
    show ?thesis
    proof (cases "arena_desc ar")
      case None
      then show ?thesis using ar(2) ar' u(3) by (simp add: arena_used_big)
    next
      case (Some i)
      have i: "i < length (descs s)" using heap_invD(3)[OF inv ar(1)] Some by (simp add: arena_ok_def)
      obtain k k' where k: "n = block_size (descs s ! i)" "m = n" "k < blocks_per_arena (descs s ! i)"
          "b = blk a n k" "k' < blocks_per_arena (descs s ! i)" "c = blk a n k'"
        using ar(2) ar' by (auto simp: arena_used_small[OF Some])
      note d = desc_okD[OF heap_invD(1)[OF inv i]]
      have "k \<noteq> k'" using u(3) k by auto
      then show ?thesis
        using blk_disjoint[OF arena_page(1)[OF inv ar(1)] d(3)[OF k(3)] d(3)[OF k(5)]] k(1,2,4,6) by simp
    qed
  qed
qed

lemma block_to_arena_small:
  assumes inv: "heap_inv held low s fl L" and a: "arenas s a = Some ar" "arena_desc ar = Some i"
    and k: "k < blocks_per_arena (descs s ! i)" and s': "arenas s' = arenas s" "descs s' = descs s"
  shows "block_to_arena s' (blk a (block_size (descs s ! i)) k) = Inr (a, ar)"
proof -
  have i: "i < length (descs s)" and m: "magic ar = ARENA_MAGIC" using heap_invD(3)[OF inv a(1)] a(2) by (auto simp: arena_ok_def)
  note d = desc_okD[OF heap_invD(1)[OF inv i]] and pg = arena_page(1)[OF inv a(1)]
  note b = blk_page[OF pg d(3)[OF k] d(1)]
  let ?b = "blk a (block_size (descs s ! i)) k"
  have "unat (pg_ofs ?b - 12) = k * block_size (descs s ! i)"
    using b(2) by (subst unat_sub) (auto simp: word_le_nat_alt)
  then show ?thesis
    using b(1) a m i pg s' by (simp add: block_to_arena_def sizeof_arena_def page_at_def)
qed

lemma arena_to_block_small:
  assumes "arenas s a = Some ar" and "magic ar = ARENA_MAGIC" and "arena_desc ar = Some i" and "i < length (descs s)"
    and "desc_ok low (descs s ! i)" and "k < blocks_per_arena (descs s ! i)" and "a \<noteq> NULL"
  shows "arena_to_block s a k = Inr (blk a (block_size (descs s ! i)) k)"
proof -
  have "k * block_size (descs s ! i) < 2 ^ 32" using desc_okD(3)[OF assms(5,6)] by simp
  then show ?thesis using assms by (simp add: arena_to_block_def blk_def sz_mul_exact)
qed

end

text \<open>Locking changes nothing that the invariant reads.\<close>

definition set_lock :: "nat \<Rightarrow> bool \<Rightarrow> malloc_state \<Rightarrow> malloc_state" where
  "set_lock i v s = s\<lparr>descs := (descs s)[i := (descs s ! i)\<lparr>desc_lock := v\<rparr>]\<rparr>"

lemma set_lock_sel [simp]:
  "arenas (set_lock i v s) = arenas s" "links (set_lock i v s) = links s" "pallocs (set_lock i v s) = pallocs s"
  "length (descs (set_lock i v s)) = length (descs s)"
  by (simp_all add: set_lock_def)

lemma set_lock_desc:
  assumes "j < length (descs s)"
  shows "block_size (descs (set_lock i v s) ! j) = block_size (descs s ! j)"
    and "blocks_per_arena (descs (set_lock i v s) ! j) = blocks_per_arena (descs s ! j)"
    and "free_list (descs (set_lock i v s) ! j) = free_list (descs s ! j)"
  using assms by (cases "i = j"; simp add: set_lock_def)+

lemma heap_inv_cong:
  assumes "length (descs s') = length (descs s)"
    and "\<And>j. j < length (descs s) \<Longrightarrow> block_size (descs s' ! j) = block_size (descs s ! j)
      \<and> blocks_per_arena (descs s' ! j) = blocks_per_arena (descs s ! j) \<and> free_list (descs s' ! j) = free_list (descs s ! j)"
    and "arenas s' = arenas s" "links s' = links s"
    and "heap_inv held low s fl L" and "held (pallocs s') L"
  shows "heap_inv held low s' fl L" and "in_use s' fl = in_use s fl"
proof -
  have all: "(\<forall>d \<in> set (descs t). desc_ok low d) \<longleftrightarrow> (\<forall>j < length (descs t). desc_ok low (descs t ! j))" for t
    by (simp add: all_set_conv_all_nth)
  have ok: "arena_ok (descs s') fl L a ar = arena_ok (descs s) fl L a ar" for a ar
    using assms(1,2) by (auto simp: arena_ok_def free_idx_def split: option.splits)
  have dk: "j < length (descs s) \<Longrightarrow> desc_ok low (descs s' ! j) = desc_ok low (descs s ! j)" for j
    using assms(2)[of j] by (simp add: desc_ok_def)
  show "heap_inv held low s' fl L"
    using assms(5,6) assms(2) dk unfolding heap_inv_def all ok assms(1,3,4) by simp
  have "used_at s' fl a = used_at s fl a" for a
  proof (cases "arenas s a")
    case (Some ar)
    then have "arena_ok (descs s) fl L a ar" using assms(5) by (simp add: heap_inv_def)
    then show ?thesis
      using Some assms(2,3) by (cases "arena_desc ar") (auto simp: used_at_def arena_used_def arena_ok_def free_idx_def)
  qed (use assms(3) in \<open>simp add: used_at_def\<close>)
  then show "in_use s' fl = in_use s fl" by (simp add: in_use_def)
qed

lemma heap_inv_lock:
  assumes "heap_inv held low s fl L"
  shows "heap_inv held low (set_lock i v s) fl L" and "in_use (set_lock i v s) fl = in_use s fl"
proof -
  have "held (pallocs (set_lock i v s)) L" using assms by (simp add: heap_inv_def)
  then show "heap_inv held low (set_lock i v s) fl L" "in_use (set_lock i v s) fl = in_use s fl"
    using heap_inv_cong[of "set_lock i v s" s held low fl L] set_lock_desc[of _ s i v] assms by auto
qed

lemma lock_desc_eq:
  assumes "i < length (descs s)"
  shows "\<not> desc_lock (descs s ! i) \<Longrightarrow> lock_desc i s = Inr (set_lock i True s)"
    and "desc_lock (descs s ! i) \<Longrightarrow> unlock_desc i s = Inr (set_lock i False s)"
  using assms by (simp_all add: lock_desc_def unlock_desc_def set_lock_def)

lemma same_links_step: "same_links h0 h N \<Longrightarrow> same_links h h' A \<Longrightarrow> A \<subseteq> N \<Longrightarrow> same_links h0 h' N"
  unfolding same_links_def by (metis subsetD)

lemma find_desc_SomeD:
  "find_desc ds sz i = Some j \<Longrightarrow> i \<le> j \<and> j < i + length ds \<and> sz \<le> block_size (ds ! (j - i))"
proof (induction ds arbitrary: i)
  case (Cons d ds)
  then show ?case by (cases "sz \<le> block_size d") (fastforce simp: nth_Cons')+
qed simp

context page_source
begin

lemma free_idx_Cons:
  assumes "page_at a" "page_at a'" "desc_ok low d" "k < blocks_per_arena d"
  shows "free_idx d a' (blk a (block_size d) k # xs) = (if a' = a then insert k (free_idx d a xs) else free_idx d a' xs)"
proof -
  note d = desc_okD[OF assms(3)]
  have "blk a' (block_size d) m = blk a (block_size d) k \<longleftrightarrow> a' = a \<and> m = k" if "m < blocks_per_arena d" for m
    using blk_inj[OF assms(2,1) d(3)[OF that] d(3)[OF assms(4)] d(1)] by auto
  then show ?thesis using assms(4) by (auto simp: free_idx_def)
qed

lemma free_idx_finite [simp]: "finite (free_idx d a xs)"
  by (rule finite_subset[of _ "{..<blocks_per_arena d}"]) (auto simp: free_idx_def)

lemma free_idx_le: "card (free_idx d a xs) \<le> blocks_per_arena d"
  using card_mono[of "{..<blocks_per_arena d}" "free_idx d a xs"] by (auto simp: free_idx_def)

text \<open>
  One step of the allocator: the arena at \<open>a\<close> and the free list of descriptor \<open>i\<close> change, and
  the free blocks of the other arenas stay.
\<close>

lemma heap_inv_update:
  assumes inv: "heap_inv held low s fl L"
    and ds: "descs s' = descs s" and ar: "arenas s' = (arenas s)(a := x)"
    and kl: "i < length (descs s) \<Longrightarrow> klist (links s') (free_list (descs s ! i)) ys"
    and sl: "same_links (links s) (links s') A"
    and A: "\<And>j. j < length (descs s) \<Longrightarrow> j \<noteq> i \<Longrightarrow> A \<inter> nodes (free_list (descs s ! j)) (fl j) = {}"
    and held: "held (pallocs s') L'"
    and LL: "\<And>a' n. a' \<noteq> a \<Longrightarrow> (a', n) \<in> L \<Longrightarrow> (a', n) \<in> L'"
    and ys: "\<And>b. i < length (descs s) \<Longrightarrow> pg_round_down b \<noteq> a \<Longrightarrow> b \<in> set ys \<longleftrightarrow> b \<in> set (fl i)"
    and new: "\<And>b. i < length (descs s) \<Longrightarrow> b \<in> set ys \<Longrightarrow> pg_round_down b = a \<Longrightarrow>
      \<exists>ar. \<exists>k < blocks_per_arena (descs s ! i). x = Some ar \<and> arena_desc ar = Some i \<and> b = blk a (block_size (descs s ! i)) k"
    and own: "\<And>ar j. arenas s a = Some ar \<Longrightarrow> arena_desc ar = Some j \<Longrightarrow> j = i"
    and ok: "\<And>ar. x = Some ar \<Longrightarrow> arena_ok (descs s) (fl(i := ys)) L' a ar"
  shows "heap_inv held low s' (fl(i := ys)) L' \<and> (\<forall>a'. a' \<noteq> a \<longrightarrow> used_at s' (fl(i := ys)) a' = used_at s fl a')"
proof -
  let ?fl = "fl(i := ys)"
  have rd: "pg_round_down (blk a' (block_size (descs s ! j)) k) = a'"
    if "arenas s a' = Some ar'" "j < length (descs s)" "k < blocks_per_arena (descs s ! j)" for a' ar' j k
    using blk_page(1)[OF arena_page(1)[OF inv that(1)]] desc_okD(1,3)[OF heap_invD(1)[OF inv that(2)]] that(3) by blast
  have idx: "free_idx (descs s ! j) a' (?fl j) = free_idx (descs s ! j) a' (fl j)"
    if "arenas s a' = Some ar'" "a' \<noteq> a" "j < length (descs s)" for a' ar' j
    using rd[OF that(1,3)] that(2,3) ys by (auto simp: free_idx_def)
  have ok': "arena_ok (descs s) ?fl L' a' ar'" if "arenas s' a' = Some ar'" for a' ar'
  proof (cases "a' = a")
    case True then show ?thesis using that ok ar by simp
  next
    case False
    then have old: "arenas s a' = Some ar'" using that ar by simp
    show ?thesis
      using heap_invD(3)[OF inv old] LL[OF False] idx[OF old False] by (cases "arena_desc ar'") (auto simp: arena_ok_def)
  qed
  have kl': "klist (links s') (free_list (descs s ! j)) (?fl j)" if j: "j < length (descs s)" for j
    using kl klist_frame[OF heap_invD(2)[OF inv j] sl A[OF j]] j by (cases "j = i") auto
  have mem: "\<exists>a ar. \<exists>k < blocks_per_arena (descs s ! j). arenas s' a = Some ar \<and> arena_desc ar = Some j
      \<and> b = blk a (block_size (descs s ! j)) k" if j: "j < length (descs s)" and b: "b \<in> set (?fl j)" for j b
  proof (cases "j = i \<and> pg_round_down b = a")
    case True then show ?thesis using new[of b] j b ar by auto
  next
    case False
    then have "b \<in> set (fl j)" using ys[of b] j b by (cases "j = i") auto
    then obtain a' ar' k where k: "k < blocks_per_arena (descs s ! j)" "arenas s a' = Some ar'" "arena_desc ar' = Some j"
        "b = blk a' (block_size (descs s ! j)) k" using heap_invD(5)[OF inv j] by blast
    have "a' \<noteq> a" using False own[of ar' j] k rd[OF k(2) j k(1)] by auto
    then show ?thesis using k ar by auto
  qed
  have inv': "heap_inv held low s' ?fl L'"
    unfolding heap_inv_def ds
    by (intro conjI allI impI ballI) (use inv heap_invD(6)[OF inv] kl' mem ok' held in \<open>simp_all only: heap_inv_def\<close>)
  have "used_at s' ?fl a' = used_at s fl a'" if "a' \<noteq> a" for a'
  proof (cases "arenas s a'")
    case (Some ar')
    then have "arena_used (descs s) ?fl a' ar' = arena_used (descs s) fl a' ar'"
      using heap_invD(3)[OF inv Some] idx[OF Some that] by (cases "arena_desc ar'") (simp_all add: arena_used_def arena_ok_def)
    then show ?thesis using Some ar that ds by (simp add: used_at_def)
  qed (use ar that in \<open>simp add: used_at_def\<close>)
  then show ?thesis using inv' by blast
qed

lemma in_use_split: "in_use s fl = used_at s fl a \<union> (\<Union>a' \<in> - {a}. used_at s fl a')"
  by (auto simp: in_use_def)

lemma in_use_change:
  assumes "\<forall>a'. a' \<noteq> a \<longrightarrow> used_at s' fl' a' = used_at s fl a'"
  shows "in_use s' fl' = used_at s' fl' a \<union> (\<Union>a' \<in> - {a}. used_at s fl a')"
  unfolding in_use_split[of s' fl' a] using assms by simp

text \<open>Taking a block off the free list of its descriptor.\<close>

lemma heap_inv_take:
  assumes inv: "heap_inv held low s fl L" and i: "i < length (descs s)" and fl: "fl i = b # xs" and lk: "desc_lock (descs s ! i)"
  shows "\<exists>s'. take_block i s = Inr (b, set_lock i False s') \<and> descs s' = descs s \<and> heap_inv held low s' (fl(i := xs)) L
    \<and> in_use s' (fl(i := xs)) = insert (b, block_size (descs s ! i)) (in_use s fl)
    \<and> (b, block_size (descs s ! i)) \<notin> in_use s fl \<and> b \<noteq> NULL"
proof -
  let ?d = "descs s ! i" and ?fl = "fl(i := xs)"
  have dok: "desc_ok low ?d" using heap_invD(1)[OF inv i] .
  obtain a ar k where a: "arenas s a = Some ar" "arena_desc ar = Some i" and k: "k < blocks_per_arena ?d" and b: "b = blk a (block_size ?d) k"
    using heap_invD(5)[OF inv i, of b] fl by auto
  note pg = arena_page(1)[OF inv a(1)]
  obtain h where h: "list_pop_front (free_list ?d) (links s) = Inr (b, h)" "klist h (free_list ?d) xs"
      "same_links (links s) h (nodes (free_list ?d) xs)"
    using list_pop_front_klist heap_invD(2)[OF inv i] unfolding fl by metis
  let ?ar = "ar\<lparr>free_cnt := sz_sub (free_cnt ar) 1\<rparr>"
  let ?s = "set_arena a (Some ?ar) (s\<lparr>links := h\<rparr>)"
  have "block_to_arena (s\<lparr>links := h\<rparr>) b = Inr (a, ar)"
    unfolding b by (rule block_to_arena_small[OF inv a k]) simp_all
  moreover have "unlock_desc i ?s = Inr (set_lock i False ?s)" using i lk by (intro lock_desc_eq) (simp_all add: set_arena_def)
  ultimately have eq: "take_block i s = Inr (b, set_lock i False ?s)" using i h(1) by (simp add: take_block_def)
  have dist: "b \<notin> set xs" using klist_distinct(1)[OF heap_invD(2)[OF inv i]] fl by simp
  have idx: "free_idx ?d a (fl i) = insert k (free_idx ?d a xs)" using free_idx_Cons[OF pg pg dok k] fl b by simp
  have k': "k \<notin> free_idx ?d a xs" using dist b by (simp add: free_idx_def)
  have cnt: "free_cnt ar = Suc (card (free_idx ?d a xs))" and L: "(a, 1) \<in> L" and mg: "magic ar = ARENA_MAGIC"
    using heap_invD(3)[OF inv a(1)] a(2) idx k' by (simp_all add: arena_ok_def)
  have "free_cnt ar < 2 ^ 32"
    using heap_invD(3)[OF inv a(1)] a(2) free_idx_le[of ?d a "fl i"] desc_okD(5)[OF dok] by (simp add: arena_ok_def)
  then have ok: "arena_ok (descs s) ?fl L a ?ar" using cnt L mg a(2) i by (simp add: sz_sub_exact arena_ok_def)
  have rd: "pg_round_down b = a" using blk_page(1)[OF pg desc_okD(3)[OF dok k] desc_okD(1)[OF dok]] b by simp
  have apart: "nodes (free_list ?d) xs \<inter> nodes (free_list (descs s ! j)) (fl j) = {}" if "j < length (descs s)" "j \<noteq> i" for j
  proof -
    have "nodes (free_list ?d) xs \<subseteq> nodes (free_list ?d) (fl i)" using fl by (auto simp: nodes_def)
    then show ?thesis using free_lists_apart[OF inv i that(1)] that(2) by blast
  qed
  have new: "\<exists>ar'. \<exists>k < blocks_per_arena ?d. Some ?ar = Some ar' \<and> arena_desc ar' = Some i \<and> c = blk a (block_size ?d) k"
    if c: "c \<in> set xs" "pg_round_down c = a" for c
  proof -
    obtain a' ar' m where m: "arenas s a' = Some ar'" "m < blocks_per_arena ?d" "c = blk a' (block_size ?d) m"
      using heap_invD(5)[OF inv i, of c] fl c(1) by auto
    then have "a' = a" using blk_page(1)[OF arena_page(1)[OF inv m(1)] desc_okD(3)[OF dok m(2)] desc_okD(1)[OF dok]] c(2) by simp
    then show ?thesis using m a(2) by auto
  qed
  have step: "heap_inv held low ?s ?fl L \<and> (\<forall>a'. a' \<noteq> a \<longrightarrow> used_at ?s ?fl a' = used_at s fl a')"
    by (rule heap_inv_update[OF inv, where A = "nodes (free_list ?d) xs" and x = "Some ?ar"])
      (use heap_invD(4)[OF inv] h(2,3) apart new ok fl rd a in \<open>auto simp: set_arena_def\<close>)
  have used: "used_at ?s ?fl a = insert (b, block_size ?d) (used_at s fl a)"
    using idx k' k b a by (auto simp: used_at_def arena_used_def set_arena_def)
  have "in_use ?s ?fl = insert (b, block_size ?d) (in_use s fl)"
    using in_use_change[of a ?s ?fl s fl] in_use_split[of s fl a] step used by simp
  moreover have "(b, block_size ?d) \<notin> used_at s fl a" using a fl by (simp add: used_at_def arena_used_small)
  then have "(b, block_size ?d) \<notin> in_use s fl" using in_use_at[OF inv] rd by simp
  moreover have "b \<noteq> NULL" using free_block_high(2)[OF inv i] fl by simp
  moreover have "descs ?s = descs s" by (simp add: set_arena_def)
  ultimately show ?thesis using eq step by blast
qed

text \<open>A page that the page allocator hands out is none of the arenas.\<close>

lemma fresh_page:
  assumes inv: "heap_inv held low s fl L" and get: "0 < n" "palloc_get_multiple 0 n (pallocs s) = Some (Inr (a, ps))" "a \<noteq> NULL"
  shows "arenas s a = None" and "held ps (insert (a, n) L)" and "page_at a" and "low \<le> unat a"
proof -
  note h = heap_invD(4)[OF inv]
  show h': "held ps (insert (a, n) L)" using held_get[OF h get(1,2)] get(3) by simp
  show "page_at a" using held_page[OF h', of a n] by simp
  show "low \<le> unat a" using held_block[OF h', of a n] by simp
  show "arenas s a = None"
  proof (cases "arenas s a")
    case (Some ar)
    then obtain m where m: "(a, m) \<in> L" using heap_invD(3)[OF inv Some] by (cases "arena_desc ar") (auto simp: arena_ok_def)
    have "in_block a (4096 * n) a \<and> in_block a (4096 * m) a" using held_block[OF h m] get(1) by (simp add: in_block_def)
    then show "arenas s a = None" using held_new[OF h get m, of a] by blast
  qed
qed

text \<open>Filling the free list with the blocks of a new arena.\<close>

lemma add_blocks:
  assumes d: "desc_ok low (descs s ! i)" "i < length (descs s)" and a: "page_at a" "low \<le> unat a"
    and ar: "arenas s a = Some ar" "magic ar = ARENA_MAGIC" "arena_desc ar = Some i"
    and kl: "klist (links s) (free_list (descs s ! i)) []"
    and hl: "\<And>x. x \<in> nodes (free_list (descs s ! i)) [] \<Longrightarrow> unat x < low"
  shows "\<exists>h. rfor (add_block i a) [0..<blocks_per_arena (descs s ! i)] s = Inr (s\<lparr>links := h\<rparr>)
    \<and> klist h (free_list (descs s ! i)) (map (blk a (block_size (descs s ! i))) [0..<blocks_per_arena (descs s ! i)])
    \<and> same_links (links s) h (nodes (free_list (descs s ! i)) (map (blk a (block_size (descs s ! i))) [0..<blocks_per_arena (descs s ! i)]))"
proof -
  let ?d = "descs s ! i" and ?B = "blk a (block_size (descs s ! i))" and ?n = "blocks_per_arena (descs s ! i)"
  let ?N = "nodes (free_list ?d) (map ?B [0..<?n])"
  let ?P = "\<lambda>k t. \<exists>h. t = s\<lparr>links := h\<rparr> \<and> klist h (free_list ?d) (map ?B [0..<k]) \<and> same_links (links s) h ?N"
  have "\<exists>t. rfor (add_block i a) [0..<?n] s = Inr t \<and> ?P ?n t"
  proof (rule rfor_upt_rule[where P = ?P])
    show "?P 0 s" using kl by (intro exI[of _ "links s"]) (simp add: same_links_def)
  next
    fix k t assume k: "k < ?n" and "?P k t"
    then obtain h where t: "t = s\<lparr>links := h\<rparr>" "klist h (free_list ?d) (map ?B [0..<k])" "same_links (links s) h ?N" by blast
    note b = blk_page[OF a(1) desc_okD(3)[OF d(1) k] desc_okD(1)[OF d(1)]]
    have ne: "?B k \<noteq> ?B m" if "m < k" for m
      using blk_inj(2)[OF a(1) a(1) desc_okD(3)[OF d(1) k] desc_okD(3)[OF d(1), of m] desc_okD(1)[OF d(1)]] that k by auto
    then have "?B k \<notin> ?B ` {0..<k}" by (metis atLeastLessThan_iff imageE)
    moreover have "?B k \<notin> nodes (free_list ?d) []" using hl[of "?B k"] unat_blk[OF a(1) desc_okD(3)[OF d(1) k]] a(2) by auto
    ultimately have nin: "?B k \<notin> nodes (free_list ?d) (map ?B [0..<k])" by (auto simp: nodes_def)
    obtain h' where h': "list_push_back (free_list ?d) (?B k) h = Inr h'" "klist h' (free_list ?d) (map ?B [0..<k] @ [?B k])"
        "same_links h h' (insert (?B k) (nodes (free_list ?d) (map ?B [0..<k])))"
      using list_push_back_klist[OF t(2) b(3) nin] by blast
    have "insert (?B k) (nodes (free_list ?d) (map ?B [0..<k])) \<subseteq> ?N" using k by (auto simp: nodes_def)
    then have "same_links (links s) h' ?N" by (rule same_links_step[OF t(3) h'(3)])
    moreover have "arena_to_block t a k = Inr (?B k)"
      using arena_to_block_small[of t a ar i k] t(1) ar d k a(1) by (simp add: page_at_def)
    then have "add_block i a k t = Inr (s\<lparr>links := h'\<rparr>)" using t(1) d(2) h'(1) by (simp add: add_block_def)
    ultimately show "\<exists>t'. add_block i a k t = Inr t' \<and> ?P (Suc k) t'" using h'(2) by auto
  qed
  then show ?thesis by blast
qed

lemma heap_inv_new_arena:
  assumes inv: "heap_inv held low s fl L" and i: "i < length (descs s)" and fl: "fl i = []"
    and get: "palloc_get_multiple 0 1 (pallocs s) = Some (Inr (a, ps))" "a \<noteq> NULL"
  shows "\<exists>s' xs. new_arena i s = Some (Inr (True, s')) \<and> descs s' = descs s \<and> xs \<noteq> []
    \<and> heap_inv held low s' (fl(i := xs)) (insert (a, 1) L) \<and> in_use s' (fl(i := xs)) = in_use s fl"
proof -
  let ?d = "descs s ! i"
  let ?xs = "map (blk a (block_size ?d)) [0..<blocks_per_arena ?d]" and ?ar = "\<lparr>magic = ARENA_MAGIC, arena_desc = Some i, free_cnt = blocks_per_arena ?d\<rparr>"
  let ?s = "set_arena a (Some ?ar) (s\<lparr>pallocs := ps\<rparr>)" and ?fl = "fl(i := ?xs)"
  have dok: "desc_ok low ?d" using heap_invD(1)[OF inv i] .
  note f = fresh_page[OF inv _ get, simplified]
  have "\<exists>h. rfor (add_block i a) [0..<blocks_per_arena (descs ?s ! i)] ?s = Inr (?s\<lparr>links := h\<rparr>)
    \<and> klist h (free_list (descs ?s ! i)) (map (blk a (block_size (descs ?s ! i))) [0..<blocks_per_arena (descs ?s ! i)])
    \<and> same_links (links ?s) h (nodes (free_list (descs ?s ! i)) (map (blk a (block_size (descs ?s ! i))) [0..<blocks_per_arena (descs ?s ! i)]))"
    by (rule add_blocks[where ar = ?ar])
      (use dok i f heap_invD(2)[OF inv i] fl head_low[OF inv i] in \<open>simp_all add: set_arena_def\<close>)
  then obtain h where h: "rfor (add_block i a) [0..<blocks_per_arena ?d] ?s = Inr (?s\<lparr>links := h\<rparr>)"
      "klist h (free_list ?d) ?xs" "same_links (links s) h (nodes (free_list ?d) ?xs)" by (auto simp: set_arena_def)
  let ?t = "?s\<lparr>links := h\<rparr>"
  have eq: "new_arena i s = Some (Inr (True, ?t))" using get h(1) i by (simp add: new_arena_def palloc_get_page_def)
  have rd: "pg_round_down (blk a (block_size ?d) k) = a" if "k < blocks_per_arena ?d" for k
    using blk_page(1)[OF f(3) desc_okD(3)[OF dok that] desc_okD(1)[OF dok]] .
  have "free_idx ?d a ?xs = {..<blocks_per_arena ?d}" by (auto simp: free_idx_def)
  then have ok: "arena_ok (descs s) ?fl (insert (a, 1) L) a ?ar" and used: "used_at ?t ?fl a = used_at s fl a"
    using i f(1) by (simp_all add: arena_ok_def used_at_def arena_used_def set_arena_def)
  have apart: "nodes (free_list ?d) ?xs \<inter> nodes (free_list (descs s ! j)) (fl j) = {}" if j: "j < length (descs s)" "j \<noteq> i" for j
  proof -
    have "x \<notin> nodes (free_list (descs s ! j)) (fl j)" if x: "x \<in> set ?xs" for x
    proof
      obtain k where k: "k < blocks_per_arena ?d" "x = blk a (block_size ?d) k" using x by auto
      assume "x \<in> nodes (free_list (descs s ! j)) (fl j)"
      then have "x \<in> nodes (free_list (descs s ! j)) [] \<or> x \<in> set (fl j)" by (auto simp: nodes_def)
      moreover have "low \<le> unat x" using unat_blk[OF f(3) desc_okD(3)[OF dok k(1)]] k(2) f(4) by simp
      ultimately have "x \<in> set (fl j)" using head_low[OF inv j(1), of x] by linarith
      then obtain a' ar' m where m: "arenas s a' = Some ar'" "m < blocks_per_arena (descs s ! j)" "x = blk a' (block_size (descs s ! j)) m"
        using heap_invD(5)[OF inv j(1)] by blast
      note dj = heap_invD(1)[OF inv j(1)]
      have "a' = a" using blk_page(1)[OF arena_page(1)[OF inv m(1)] desc_okD(3)[OF dj m(2)] desc_okD(1)[OF dj]] m(3) k(2) rd[OF k(1)] by metis
      then show False using m(1) f(1) by simp
    qed
    moreover have "nodes (free_list ?d) [] \<inter> nodes (free_list (descs s ! j)) (fl j) = {}"
      using free_lists_apart[OF inv i j(1)] j(2) fl by simp
    ultimately show ?thesis by (auto simp: nodes_def)
  qed
  have "heap_inv held low ?t ?fl (insert (a, 1) L) \<and> (\<forall>a'. a' \<noteq> a \<longrightarrow> used_at ?t ?fl a' = used_at s fl a')"
    by (rule heap_inv_update[OF inv, where A = "nodes (free_list ?d) ?xs" and x = "Some ?ar"])
      (use f h(2,3) apart ok fl rd in \<open>auto simp: set_arena_def\<close>)
  moreover from this have "in_use ?t ?fl = in_use s fl"
    using in_use_change[of a ?t ?fl s fl] in_use_split[of s fl a] used by simp
  moreover have "?xs \<noteq> []" "descs ?t = descs s" using desc_okD(4)[OF dok] by (simp_all add: set_arena_def)
  ultimately show ?thesis using eq by blast
qed

text \<open>A big block is an arena of its own.\<close>

lemma heap_inv_big:
  assumes inv: "heap_inv held low s fl L" and a: "arenas s a = None" and held: "held ps (insert (a, n) L)"
  shows "heap_inv held low (set_arena a (Some \<lparr>magic = ARENA_MAGIC, arena_desc = None, free_cnt = n\<rparr>) (s\<lparr>pallocs := ps\<rparr>)) fl (insert (a, n) L)"
      (is "heap_inv _ _ ?s _ _")
    and "in_use (set_arena a (Some \<lparr>magic = ARENA_MAGIC, arena_desc = None, free_cnt = n\<rparr>) (s\<lparr>pallocs := ps\<rparr>)) fl
      = insert (a + of_nat sizeof_arena, 4096 * n - sizeof_arena) (in_use s fl)"
proof -
  let ?ar = "\<lparr>magic = ARENA_MAGIC, arena_desc = None, free_cnt = n\<rparr>"
  have old: "pg_round_down b \<noteq> a" if b: "0 < length (descs s)" "b \<in> set (fl 0)" for b
  proof -
    obtain a' ar' k where k: "k < blocks_per_arena (descs s ! 0)" "arenas s a' = Some ar'" "b = blk a' (block_size (descs s ! 0)) k"
      using heap_invD(5)[OF inv b] by blast
    note d = desc_okD[OF heap_invD(1)[OF inv b(1)]]
    show ?thesis using blk_page(1)[OF arena_page(1)[OF inv k(2)] d(3)[OF k(1)] d(1)] k(2,3) a by auto
  qed
  have "heap_inv held low ?s (fl(0 := fl 0)) (insert (a, n) L) \<and> (\<forall>a'. a' \<noteq> a \<longrightarrow> used_at ?s (fl(0 := fl 0)) a' = used_at s fl a')"
    by (rule heap_inv_update[OF inv, where A = "{}" and x = "Some ?ar"])
      (use heap_invD(2)[OF inv] held old a in \<open>auto simp: set_arena_def same_links_def arena_ok_def\<close>)
  then show "heap_inv held low ?s fl (insert (a, n) L)"
      "in_use ?s fl = insert (a + of_nat sizeof_arena, 4096 * n - sizeof_arena) (in_use s fl)"
    using in_use_change[of a ?s fl s fl] in_use_split[of s fl a] a by (auto simp: used_at_def set_arena_def arena_used_big)
qed

end

lemma set_lock_restore:
  assumes "descs t = descs (set_lock i True s)" and "i < length (descs s)" and "\<not> desc_lock (descs s ! i)"
  shows "descs (set_lock i False t) = descs s"
proof -
  have "(descs s ! i)\<lparr>desc_lock := False\<rparr> = descs s ! i" using assms(3) by (cases "descs s ! i") simp
  then show ?thesis using assms(1,2) by (simp add: set_lock_def)
qed

text \<open>
  A page allocator whose requests return, with \<open>NULL\<close> when no group of pages is found.
\<close>

locale total_page_source = page_source +
  assumes held_returns: "held ps L \<Longrightarrow> 0 < n \<Longrightarrow> n < 2 ^ 31 \<Longrightarrow> \<exists>p ps'. palloc_get_multiple 0 n ps = Some (Inr (p, ps'))"
begin

lemma malloc_small:
  assumes inv: "heap_inv held low s fl L" and un: "unlocked s" and sz: "sz \<noteq> 0" and i: "find_desc (descs s) sz 0 = Some i"
  shows "\<exists>b s' fl' L'. malloc sz s = Some (Inr (b, s')) \<and> heap_inv held low s' fl' L' \<and> descs s' = descs s
    \<and> (if b = NULL then in_use s' fl' = in_use s fl
       else (\<exists>n \<ge> sz. in_use s' fl' = insert (b, n) (in_use s fl) \<and> (b, n) \<notin> in_use s fl))"
proof -
  have len: "i < length (descs s)" and bs: "sz \<le> block_size (descs s ! i)" using find_desc_SomeD[OF i] by auto
  have nl: "\<not> desc_lock (descs s ! i)" using un len by (simp add: unlocked_def)
  let ?s = "set_lock i True s"
  note inv1 = heap_inv_lock[OF inv, of i True]
  have len1: "i < length (descs ?s)" using len by simp
  have lk1: "desc_lock (descs ?s ! i)" using len by (simp add: set_lock_def)
  have emp: "list_empty (links ?s) (free_list (descs ?s ! i)) = Inr (fl i = [])" using list_empty_klist[OF heap_invD(2)[OF inv1(1) len1]] .
  have take: "\<exists>s' fl'. take_block i t = Inr (b, s') \<and> heap_inv held low s' fl' L' \<and> descs s' = descs s
      \<and> in_use s' fl' = insert (b, block_size (descs s ! i)) (in_use t gl) \<and> (b, block_size (descs s ! i)) \<notin> in_use t gl \<and> b \<noteq> NULL"
    if t: "heap_inv held low t gl L'" "descs t = descs ?s" "gl i = b # xs" for t gl L' b xs
  proof -
    have b: "block_size (descs t ! i) = block_size (descs s ! i)" using t(2) set_lock_desc(1)[OF len] by simp
    obtain s' where "take_block i t = Inr (b, set_lock i False s')" "descs s' = descs t" "heap_inv held low s' (gl(i := xs)) L'"
        "in_use s' (gl(i := xs)) = insert (b, block_size (descs s ! i)) (in_use t gl)" "(b, block_size (descs s ! i)) \<notin> in_use t gl" "b \<noteq> NULL"
      using heap_inv_take[OF t(1) _ t(3)] t(2) len lk1 b by auto
    then show ?thesis
      using heap_inv_lock[of held low s' "gl(i := xs)" L' i False] set_lock_restore[of s' i s] t(2) len nl by auto
  qed
  have eq: "malloc sz s = obind (if fl i = [] then new_arena i ?s else Some (Inr (True, ?s))) (\<lambda>(ok, s).
      if \<not> ok then obind (Some (unlock_desc i s)) (\<lambda>s. Some (Inr (NULL, s))) else Some (take_block i s))"
    using sz i lock_desc_eq(1)[OF len nl] len1 emp by (simp add: malloc_def)
  show ?thesis
  proof (cases "fl i")
    case (Cons b xs)
    then show ?thesis using take[OF inv1(1) refl Cons] inv1(2) eq bs by fastforce
  next
    case Nil
    obtain a ps where get: "palloc_get_multiple 0 1 (pallocs ?s) = Some (Inr (a, ps))"
      using held_returns[OF heap_invD(4)[OF inv1(1)], of 1] by auto
    show ?thesis
    proof (cases "a = NULL")
      case True
      let ?t = "?s\<lparr>pallocs := ps\<rparr>"
      have "held ps L" using held_get[OF heap_invD(4)[OF inv1(1)] _ get] True by simp
      then have inv2: "heap_inv held low ?t fl L" "in_use ?t fl = in_use ?s fl"
        using heap_inv_cong[of ?t ?s held low fl L] inv1 by auto
      have "unlock_desc i ?t = Inr (set_lock i False ?t)" using lock_desc_eq(2)[of i ?t] len lk1 by simp
      then have "malloc sz s = Some (Inr (NULL, set_lock i False ?t))"
        using eq Nil get True by (simp add: new_arena_def palloc_get_page_def)
      moreover have "descs (set_lock i False ?t) = descs s" using set_lock_restore[of ?t i s] len nl by simp
      ultimately show ?thesis using heap_inv_lock[OF inv2(1), of i False] inv2(2) inv1(2) by auto
    next
      case False
      obtain t xs where t: "new_arena i ?s = Some (Inr (True, t))" "descs t = descs ?s" "xs \<noteq> []"
          "heap_inv held low t (fl(i := xs)) (insert (a, 1) L)" "in_use t (fl(i := xs)) = in_use ?s fl"
        using heap_inv_new_arena[OF inv1(1) len1 Nil get False] by blast
      obtain b ys where xs: "xs = b # ys" using t(3) by (cases xs) auto
      then show ?thesis using take[OF t(4,2), of b ys] t(1,5) inv1(2) eq Nil bs by fastforce
    qed
  qed
qed

lemma malloc_big_ok:
  assumes inv: "heap_inv held low s fl L" and sz: "sz + 4108 < 2 ^ 32"
  shows "\<exists>b s' fl' L'. malloc_big sz s = Some (Inr (b, s')) \<and> heap_inv held low s' fl' L' \<and> descs s' = descs s
    \<and> (if b = NULL then in_use s' fl' = in_use s fl
       else (\<exists>n \<ge> sz. in_use s' fl' = insert (b, n) (in_use s fl) \<and> (b, n) \<notin> in_use s fl))"
proof -
  let ?n = "(sz + 12 + 4095) div 4096"
  have cnt: "DIV_ROUND_UP (sz_add sz sizeof_arena) (unat PGSIZE) = ?n"
    using sz by (simp add: sz_add_exact sizeof_arena_def DIV_ROUND_UP_exact PGSIZE_def PGBITS_def)
  have n: "0 < ?n" "?n < 2 ^ 31" "sz \<le> 4096 * ?n - 12"
  proof -
    show "0 < ?n" by simp
    show "?n < 2 ^ 31" using sz by (intro less_mult_imp_div_less) simp
    have "sz + 12 + 4095 = 4096 * ?n + (sz + 12 + 4095) mod 4096" by (simp only: mult_div_mod_eq)
    moreover have "(sz + 12 + 4095) mod 4096 < 4096" by simp
    ultimately show "sz \<le> 4096 * ?n - 12" by linarith
  qed
  obtain a ps where get: "palloc_get_multiple 0 ?n (pallocs s) = Some (Inr (a, ps))"
    using held_returns[OF heap_invD(4)[OF inv] n(1,2)] by auto
  show ?thesis
  proof (cases "a = NULL")
    case True
    have "held ps L" using held_get[OF heap_invD(4)[OF inv] n(1) get] True by simp
    then have "heap_inv held low (s\<lparr>pallocs := ps\<rparr>) fl L" "in_use (s\<lparr>pallocs := ps\<rparr>) fl = in_use s fl"
      using heap_inv_cong[of "s\<lparr>pallocs := ps\<rparr>" s held low fl L] inv by auto
    moreover have "malloc_big sz s = Some (Inr (NULL, s\<lparr>pallocs := ps\<rparr>))" using get True by (simp add: malloc_big_def cnt)
    ultimately show ?thesis by auto
  next
    case False
    note f = fresh_page[OF inv n(1) get False]
    let ?s = "set_arena a (Some \<lparr>magic = ARENA_MAGIC, arena_desc = None, free_cnt = ?n\<rparr>) (s\<lparr>pallocs := ps\<rparr>)"
    have eq: "malloc_big sz s = Some (Inr (a + of_nat sizeof_arena, ?s))" using get False by (simp add: malloc_big_def cnt)
    have b: "a + of_nat sizeof_arena = blk a 1 0" by (simp add: blk_def)
    note p = blk_page[OF f(3), of 0 1, simplified, folded b]
    have "(a + of_nat sizeof_arena, 4096 * ?n - sizeof_arena) \<notin> in_use s fl"
      using in_use_at[OF inv, of "a + of_nat sizeof_arena"] p(1) f(1) b by (simp add: used_at_def)
    then show ?thesis
      using eq heap_inv_big[OF inv f(1,2)] n(3) p(3) b by (auto simp: set_arena_def sizeof_arena_def)
  qed
qed

lemma malloc_ok:
  assumes "heap_inv held low s fl L" and "unlocked s" and "sz + 4108 < 2 ^ 32"
  shows "\<exists>b s' fl' L'. malloc sz s = Some (Inr (b, s')) \<and> heap_inv held low s' fl' L' \<and> unlocked s'
    \<and> (if b = NULL then in_use s' fl' = in_use s fl
       else (\<exists>n \<ge> sz. in_use s' fl' = insert (b, n) (in_use s fl) \<and> (b, n) \<notin> in_use s fl))"
proof (cases "sz = 0")
  case True
  then show ?thesis using assms by (auto simp: malloc_def)
next
  case False
  have "malloc sz s = malloc_big sz s" if "find_desc (descs s) sz 0 = None" using that False by (simp add: malloc_def)
  then show ?thesis
    using malloc_small[OF assms(1,2) False] malloc_big_ok[OF assms(1,3)] assms(2)
    by (cases "find_desc (descs s) sz 0") (simp_all add: unlocked_def, metis+)
qed

end

lemma image_minus_insert:
  "(\<And>m. m \<in> N \<Longrightarrow> f m = f k \<Longrightarrow> m = k) \<Longrightarrow> f ` (N - insert k F) = f ` (N - F) - {f k}"
  by auto

text \<open>A block goes back to the head of its free list.\<close>

definition push_free :: "nat \<Rightarrow> addr \<Rightarrow> addr \<Rightarrow> arena \<Rightarrow> lheap \<Rightarrow> malloc_state \<Rightarrow> malloc_state" where
  "push_free i p a ar h s = set_arena a (Some (ar\<lparr>free_cnt := sz_add (free_cnt ar) 1\<rparr>)) (s\<lparr>links := h\<rparr>)"

context page_source
begin

lemma remove_blocks:
  assumes d: "desc_ok low (descs s ! i)" "i < length (descs s)" and a: "page_at a"
    and ar: "arenas s a = Some ar" "magic ar = ARENA_MAGIC" "arena_desc ar = Some i"
    and kl: "klist (links s) (free_list (descs s ! i)) xs"
    and all: "\<And>k. k < blocks_per_arena (descs s ! i) \<Longrightarrow> blk a (block_size (descs s ! i)) k \<in> set xs"
  shows "\<exists>h. rfor (remove_block a) [0..<blocks_per_arena (descs s ! i)] s = Inr (s\<lparr>links := h\<rparr>)
    \<and> klist h (free_list (descs s ! i)) (filter (\<lambda>b. b \<notin> blk a (block_size (descs s ! i)) ` {..<blocks_per_arena (descs s ! i)}) xs)
    \<and> same_links (links s) h (nodes (free_list (descs s ! i)) xs)"
proof -
  let ?d = "descs s ! i" and ?B = "blk a (block_size (descs s ! i))" and ?n = "blocks_per_arena (descs s ! i)"
  let ?F = "\<lambda>k. filter (\<lambda>b. b \<notin> ?B ` {..<k}) xs"
  let ?P = "\<lambda>k t. \<exists>h. t = s\<lparr>links := h\<rparr> \<and> klist h (free_list ?d) (?F k) \<and> same_links (links s) h (nodes (free_list ?d) xs)"
  have "\<exists>t. rfor (remove_block a) [0..<?n] s = Inr t \<and> ?P ?n t"
  proof (rule rfor_upt_rule[where P = ?P])
    show "?P 0 s" using kl by (intro exI[of _ "links s"]) (simp add: same_links_def)
  next
    fix k t assume k: "k < ?n" and "?P k t"
    then obtain h where t: "t = s\<lparr>links := h\<rparr>" "klist h (free_list ?d) (?F k)" "same_links (links s) h (nodes (free_list ?d) xs)" by blast
    have "?B k \<noteq> ?B m" if "m < k" for m
      using blk_inj(2)[OF a a desc_okD(3)[OF d(1) k] desc_okD(3)[OF d(1), of m] desc_okD(1)[OF d(1)]] that k by auto
    then have "?B k \<notin> ?B ` {..<k}" by (metis lessThan_iff imageE)
    then have "?B k \<in> set (?F k)" using all[OF k] by simp
    then obtain us vs where uv: "?F k = us @ ?B k # vs" by (metis split_list)
    have dist: "?B k \<notin> set (us @ vs)" using klist_distinct(1)[OF t(2)] uv by simp
    obtain h' where h': "list_remove (?B k) h = Inr (first_of (free_list ?d) vs, h')" "klist h' (free_list ?d) (us @ vs)"
        "same_links h h' (nodes (free_list ?d) (us @ vs))"
      using list_remove_klist[OF t(2)[unfolded uv]] by blast
    have "?F (Suc k) = filter (\<lambda>b. b \<noteq> ?B k) (?F k)" by (auto simp: lessThan_Suc intro: filter_cong)
    also have "\<dots> = us @ vs" unfolding uv
    proof -
      have "filter (\<lambda>b. b \<noteq> ?B k) us = us" "filter (\<lambda>b. b \<noteq> ?B k) vs = vs" using dist by (auto simp: filter_id_conv)
      then show "filter (\<lambda>b. b \<noteq> ?B k) (us @ ?B k # vs) = us @ vs" by simp
    qed
    finally have F: "?F (Suc k) = us @ vs" .
    have "set (us @ vs) \<subseteq> set xs" unfolding F[symmetric] by auto
    then have "nodes (free_list ?d) (us @ vs) \<subseteq> nodes (free_list ?d) xs" by (auto simp: nodes_def)
    then have "same_links (links s) h' (nodes (free_list ?d) xs)" by (rule same_links_step[OF t(3) h'(3)])
    moreover have "arena_to_block t a k = Inr (?B k)"
      using arena_to_block_small[of t a ar i k] t(1) ar d k a by (simp add: page_at_def)
    then have "remove_block a k t = Inr (s\<lparr>links := h'\<rparr>)" using t(1) h'(1) by (simp add: remove_block_def)
    ultimately show "\<exists>t'. remove_block a k t = Inr t' \<and> ?P (Suc k) t'" using h'(2) unfolding F by blast
  qed
  then show ?thesis by blast
qed

lemma heap_inv_push:
  assumes inv: "heap_inv held low s fl L" and a: "arenas s a = Some ar" "arena_desc ar = Some i"
    and k: "k < blocks_per_arena (descs s ! i)" and p: "p = blk a (block_size (descs s ! i)) k" "p \<notin> set (fl i)"
  shows "\<exists>h. list_push_front (free_list (descs s ! i)) p (links s) = Inr h
    \<and> heap_inv held low (push_free i p a ar h s) (fl(i := p # fl i)) L
    \<and> in_use (push_free i p a ar h s) (fl(i := p # fl i)) = in_use s fl - {(p, block_size (descs s ! i))}
    \<and> sz_add (free_cnt ar) 1 = card (free_idx (descs s ! i) a (p # fl i))"
proof -
  let ?d = "descs s ! i" and ?fl = "fl(i := p # fl i)" and ?ar = "ar\<lparr>free_cnt := sz_add (free_cnt ar) 1\<rparr>"
  have i: "i < length (descs s)" and L: "(a, 1) \<in> L" and mg: "magic ar = ARENA_MAGIC" and cnt: "free_cnt ar = card (free_idx ?d a (fl i))"
    using heap_invD(3)[OF inv a(1)] a(2) by (auto simp: arena_ok_def)
  have dok: "desc_ok low ?d" using heap_invD(1)[OF inv i] .
  note pg = arena_page[OF inv a(1)]
  note b = blk_page[OF pg(1) desc_okD(3)[OF dok k] desc_okD(1)[OF dok], folded p(1)]
  have hi: "low \<le> unat p" using unat_blk[OF pg(1) desc_okD(3)[OF dok k]] p(1) pg(2) by simp
  have "p \<notin> nodes (free_list ?d) []" using head_low[OF inv i, of p] hi by auto
  then have "p \<notin> nodes (free_list ?d) (fl i)" using p(2) by (auto simp: nodes_def)
  then obtain h where h: "list_push_front (free_list ?d) p (links s) = Inr h" "klist h (free_list ?d) (p # fl i)"
      "same_links (links s) h (insert p (nodes (free_list ?d) (fl i)))"
    using list_push_front_klist[OF heap_invD(2)[OF inv i] b(3)] by blast
  let ?s = "push_free i p a ar h s"
  have idx: "free_idx ?d a (p # fl i) = insert k (free_idx ?d a (fl i))" using free_idx_Cons[OF pg(1) pg(1) dok k] p(1) by simp
  have k': "k \<notin> free_idx ?d a (fl i)" using p by (simp add: free_idx_def)
  have "card (free_idx ?d a (p # fl i)) < 2 ^ 32" using free_idx_le[of ?d a "p # fl i"] desc_okD(5)[OF dok] by linarith
  then have fc: "sz_add (free_cnt ar) 1 = card (free_idx ?d a (p # fl i))" using cnt idx k' by (simp add: sz_add_exact)
  have own: "\<exists>ar'. \<exists>m < blocks_per_arena ?d. Some ?ar = Some ar' \<and> arena_desc ar' = Some i \<and> c = blk a (block_size ?d) m"
    if c: "c \<in> set (p # fl i)" "pg_round_down c = a" for c
  proof (cases "c = p")
    case False
    then obtain a' ar' m where m: "arenas s a' = Some ar'" "m < blocks_per_arena ?d" "c = blk a' (block_size ?d) m"
      using heap_invD(5)[OF inv i, of c] c(1) by auto
    then have "a' = a" using blk_page(1)[OF arena_page(1)[OF inv m(1)] desc_okD(3)[OF dok m(2)] desc_okD(1)[OF dok]] c(2) by simp
    then show ?thesis using m a(2) by auto
  qed (use a k p in auto)
  have apart: "insert p (nodes (free_list ?d) (fl i)) \<inter> nodes (free_list (descs s ! j)) (fl j) = {}"
    if j: "j < length (descs s)" "j \<noteq> i" for j
  proof -
    have "p \<notin> nodes (free_list (descs s ! j)) []" using head_low[OF inv j(1), of p] hi by auto
    moreover have "p \<notin> set (fl j)"
    proof
      assume "p \<in> set (fl j)"
      then obtain a' ar' m where m: "arenas s a' = Some ar'" "arena_desc ar' = Some j" "m < blocks_per_arena (descs s ! j)"
          "p = blk a' (block_size (descs s ! j)) m" using heap_invD(5)[OF inv j(1)] by blast
      note dj = heap_invD(1)[OF inv j(1)]
      have "a' = a" using blk_page(1)[OF arena_page(1)[OF inv m(1)] desc_okD(3)[OF dj m(3)] desc_okD(1)[OF dj]] m(4) b(1) by simp
      then show False using m a j(2) by simp
    qed
    ultimately show ?thesis using free_lists_apart[OF inv i j(1)] j(2) by (auto simp: nodes_def)
  qed
  have "arena_ok (descs s) ?fl L a ?ar" using fc L mg a(2) i by (simp add: arena_ok_def)
  then have step: "heap_inv held low ?s ?fl L \<and> (\<forall>a'. a' \<noteq> a \<longrightarrow> used_at ?s ?fl a' = used_at s fl a')"
    by (intro heap_inv_update[OF inv, where A = "insert p (nodes (free_list ?d) (fl i))" and x = "Some ?ar"])
      (use heap_invD(4)[OF inv] h(2,3) apart own b(1) a in \<open>auto simp: set_arena_def push_free_def\<close>)
  have inj: "k'' = k" if "k'' < blocks_per_arena ?d" "blk a (block_size ?d) k'' = p" for k''
    using blk_inj(2)[OF pg(1) pg(1) desc_okD(3)[OF dok that(1)] desc_okD(3)[OF dok k] desc_okD(1)[OF dok]] that(2) p(1) by simp
  let ?f = "\<lambda>k. (blk a (block_size ?d) k, block_size ?d)" and ?N = "{..<blocks_per_arena ?d}"
  have "used_at ?s ?fl a = ?f ` (?N - free_idx ?d a (p # fl i))" "used_at s fl a = ?f ` (?N - free_idx ?d a (fl i))"
    using a by (simp_all add: used_at_def arena_used_def set_arena_def push_free_def)
  moreover have "?f ` (?N - insert k (free_idx ?d a (fl i))) = ?f ` (?N - free_idx ?d a (fl i)) - {?f k}"
    by (rule image_minus_insert) (use inj p(1) in blast)
  ultimately have used: "used_at ?s ?fl a = used_at s fl a - {(p, block_size ?d)}" by (simp only: idx flip: p(1))
  have "(p, n) \<notin> used_at s fl a'" if "a' \<noteq> a" for a' n using used_arena(2)[OF inv, of p n a'] that b(1) by auto
  then have "in_use ?s ?fl = in_use s fl - {(p, block_size ?d)}"
    using in_use_change[of a ?s ?fl s fl] in_use_split[of s fl a] step used by auto
  then show ?thesis using h(1) step fc by blast
qed

text \<open>An arena all of whose blocks are free goes back to the page allocator.\<close>

lemma heap_inv_release:
  assumes inv: "heap_inv held low s fl L" and a: "arenas s a = Some ar" "arena_desc ar = Some i"
    and full: "blocks_per_arena (descs s ! i) \<le> free_cnt ar"
  shows "free_cnt ar = blocks_per_arena (descs s ! i) \<and> (\<exists>h ps' ys.
      rfor (remove_block a) [0..<blocks_per_arena (descs s ! i)] s = Inr (s\<lparr>links := h\<rparr>) \<and> palloc_free_page a (pallocs s) = Inr ps'
    \<and> heap_inv held low (set_arena a None (s\<lparr>links := h, pallocs := ps'\<rparr>)) (fl(i := ys)) (L - {(a, 1)})
    \<and> in_use (set_arena a None (s\<lparr>links := h, pallocs := ps'\<rparr>)) (fl(i := ys)) = in_use s fl)"
proof -
  let ?d = "descs s ! i" and ?B = "blk a (block_size (descs s ! i))" and ?n = "blocks_per_arena (descs s ! i)"
  have i: "i < length (descs s)" and L: "(a, 1) \<in> L" and mg: "magic ar = ARENA_MAGIC" and cnt: "free_cnt ar = card (free_idx ?d a (fl i))"
    using heap_invD(3)[OF inv a(1)] a(2) by (auto simp: arena_ok_def)
  have dok: "desc_ok low ?d" using heap_invD(1)[OF inv i] .
  note pg = arena_page[OF inv a(1)]
  have fc: "free_cnt ar = ?n" using full cnt free_idx_le[of ?d a "fl i"] by linarith
  have idx: "free_idx ?d a (fl i) = {..<?n}"
    using fc cnt by (intro card_subset_eq) (auto simp: free_idx_def)
  then have all: "?B k \<in> set (fl i)" if "k < ?n" for k using that by (auto simp: free_idx_def)
  let ?ys = "filter (\<lambda>b. b \<notin> ?B ` {..<?n}) (fl i)"
  obtain h where h: "rfor (remove_block a) [0..<?n] s = Inr (s\<lparr>links := h\<rparr>)" "klist h (free_list ?d) ?ys"
      "same_links (links s) h (nodes (free_list ?d) (fl i))"
    using remove_blocks[OF dok i pg(1) a(1) mg a(2) heap_invD(2)[OF inv i] all] by blast
  obtain ps' where ps': "palloc_free_multiple a 1 (pallocs s) = Inr ps'" "held ps' (L - {(a, 1)})"
    using held_put[OF heap_invD(4)[OF inv] L] by blast
  let ?s = "set_arena a None (s\<lparr>links := h, pallocs := ps'\<rparr>)" and ?fl = "fl(i := ?ys)"
  have rd: "pg_round_down (?B k) = a" if "k < ?n" for k using blk_page(1)[OF pg(1) desc_okD(3)[OF dok that] desc_okD(1)[OF dok]] .
  have gone: "pg_round_down c \<noteq> a" if c: "c \<in> set ?ys" for c
  proof -
    obtain a' ar' m where m: "arenas s a' = Some ar'" "m < ?n" "c = blk a' (block_size ?d) m"
      using heap_invD(5)[OF inv i, of c] c by auto
    then have "pg_round_down c = a'" using blk_page(1)[OF arena_page(1)[OF inv m(1)] desc_okD(3)[OF dok m(2)] desc_okD(1)[OF dok]] by simp
    moreover have "a' \<noteq> a" using c m(2,3) by auto
    ultimately show ?thesis by simp
  qed
  have keep: "c \<in> set ?ys \<longleftrightarrow> c \<in> set (fl i)" if "pg_round_down c \<noteq> a" for c using rd that by auto
  have "heap_inv held low ?s ?fl (L - {(a, 1)}) \<and> (\<forall>a'. a' \<noteq> a \<longrightarrow> used_at ?s ?fl a' = used_at s fl a')"
  proof (rule heap_inv_update[OF inv, where A = "nodes (free_list ?d) (fl i)" and x = None])
    show "j < length (descs s) \<Longrightarrow> j \<noteq> i \<Longrightarrow> nodes (free_list ?d) (fl i) \<inter> nodes (free_list (descs s ! j)) (fl j) = {}" for j
      using free_lists_apart[OF inv i, of j] by simp
    show "b \<in> set ?ys \<longleftrightarrow> b \<in> set (fl i)" if "pg_round_down b \<noteq> a" for b using keep[OF that] .
    show "klist (links ?s) (free_list ?d) ?ys" using h(2) by (simp add: set_arena_def)
  qed (use h(3) ps' a gone in \<open>simp_all add: set_arena_def\<close>)
  moreover from this have "in_use ?s ?fl = in_use s fl"
    using in_use_change[of a ?s ?fl s fl] in_use_split[of s fl a] a idx by (simp add: used_at_def set_arena_def arena_used_def)
  ultimately show ?thesis using fc h(1) ps'(1) by (auto simp: palloc_free_page_def)
qed

lemma free_small_ok:
  assumes inv: "heap_inv held low s fl L" and un: "unlocked s" and a: "arenas s a = Some ar" "arena_desc ar = Some i"
    and k: "k < blocks_per_arena (descs s ! i)" and p: "p = blk a (block_size (descs s ! i)) k" "p \<notin> set (fl i)"
  shows "\<exists>s' fl' L'. free_small i p a ar s = Inr s' \<and> heap_inv held low s' fl' L' \<and> descs s' = descs s
    \<and> in_use s' fl' = in_use s fl - {(p, block_size (descs s ! i))}"
proof -
  let ?d = "descs s ! i" and ?fl = "fl(i := p # fl i)"
  have i: "i < length (descs s)" using heap_invD(3)[OF inv a(1)] a(2) by (auto simp: arena_ok_def)
  have nl: "\<not> desc_lock ?d" using un i by (simp add: unlocked_def)
  note dok = heap_invD(1)[OF inv i]
  have nn: "p \<noteq> NULL" using blk_page(3)[OF arena_page(1)[OF inv a(1)] desc_okD(3)[OF dok k] desc_okD(1)[OF dok]] p(1) by simp
  obtain m where ms: "memset (ram (pallocs s)) p 0xcc (block_size ?d) = Inr (p, m)" using nn by (simp add: memset_def)
  let ?r = "put_ram m s"
  have inv0: "heap_inv held low ?r fl L" "in_use ?r fl = in_use s fl"
    using heap_inv_cong[of ?r s held low fl L] inv held_ram[OF heap_invD(4)[OF inv], of m] by (auto simp: put_ram_def)
  have r: "descs ?r = descs s" "arenas ?r = arenas s" "links ?r = links s" by (simp_all add: put_ram_def)
  let ?s = "set_lock i True ?r"
  note inv1 = heap_inv_lock[OF inv0(1), of i True]
  have d1: "block_size (descs ?s ! i) = block_size ?d" "blocks_per_arena (descs ?s ! i) = blocks_per_arena ?d" "free_list (descs ?s ! i) = free_list ?d"
    using set_lock_desc[of i ?r i True] i r by simp_all
  obtain h where h: "list_push_front (free_list ?d) p (links s) = Inr h" "heap_inv held low (push_free i p a ar h ?s) ?fl L"
      "in_use (push_free i p a ar h ?s) ?fl = in_use s fl - {(p, block_size ?d)}"
    using heap_inv_push[OF inv1(1), of a ar i k p] a k p d1 r inv1(2) inv0(2) by auto
  let ?t = "push_free i p a ar h ?s" and ?fc = "sz_add (free_cnt ar) 1"
  have dt: "descs ?t = descs ?s" "arenas ?t a = Some (ar\<lparr>free_cnt := ?fc\<rparr>)" by (simp_all add: push_free_def set_arena_def)
  have eq: "free_small i p a ar s = rbind (if blocks_per_arena ?d \<le> ?fc then
              rbind (rassert (?fc = blocks_per_arena ?d)) (\<lambda>_.
              rbind (rfor (remove_block a) [0..<blocks_per_arena ?d] ?t) (\<lambda>s.
              rbind (palloc_free_page a (pallocs s)) (\<lambda>ps. Inr (set_arena a None (s\<lparr>pallocs := ps\<rparr>)))))
            else Inr ?t) (unlock_desc i)"
    using i ms h(1) lock_desc_eq(1)[of i ?r] nl r by (simp add: free_small_def push_free_def Let_def)
  have unl: "unlock_desc i u = Inr (set_lock i False u) \<and> descs (set_lock i False u) = descs s" if "descs u = descs ?s" for u
    using lock_desc_eq(2)[of i u] set_lock_restore[of u i ?r] that i nl r by (simp add: set_lock_def)
  show ?thesis
  proof (cases "blocks_per_arena ?d \<le> ?fc")
    case False
    then have "free_small i p a ar s = Inr (set_lock i False ?t)" using eq unl[OF dt(1)] by simp
    then show ?thesis using heap_inv_lock[OF h(2), of i False] h(3) unl[OF dt(1)] by blast
  next
    case True
    have "blocks_per_arena (descs ?t ! i) = blocks_per_arena ?d" using dt(1) d1 by simp
    then obtain g ps' ys where g: "?fc = blocks_per_arena ?d" "rfor (remove_block a) [0..<blocks_per_arena ?d] ?t = Inr (?t\<lparr>links := g\<rparr>)"
        "palloc_free_page a (pallocs ?t) = Inr ps'"
        "heap_inv held low (set_arena a None (?t\<lparr>links := g, pallocs := ps'\<rparr>)) (?fl(i := ys)) (L - {(a, 1)})"
        "in_use (set_arena a None (?t\<lparr>links := g, pallocs := ps'\<rparr>)) (?fl(i := ys)) = in_use ?t ?fl"
      using heap_inv_release[OF h(2) dt(2)] a(2) True by auto
    let ?u = "set_arena a None (?t\<lparr>links := g, pallocs := ps'\<rparr>)"
    have "descs ?u = descs ?s" using dt(1) by (simp add: set_arena_def)
    note u = unl[OF this]
    have "free_small i p a ar s = Inr (set_lock i False ?u)" using eq True g(1,2,3) u by simp
    then show ?thesis using heap_inv_lock[OF g(4), of i False] g(5) h(3) u by blast
  qed
qed

text \<open>The arena of a block in use is found.\<close>

lemma used_block_to_arena:
  assumes inv: "heap_inv held low s fl L" and u: "(p, n) \<in> in_use s fl"
  shows "\<exists>a ar. block_to_arena s p = Inr (a, ar) \<and> arenas s a = Some ar \<and> (p, n) \<in> arena_used (descs s) fl a ar \<and> p \<noteq> NULL"
proof -
  obtain a where ua: "(p, n) \<in> used_at s fl a" using u by (auto simp: in_use_def)
  obtain ar where a: "arenas s a = Some ar" and ia: "(p, n) \<in> arena_used (descs s) fl a ar" using used_atE[OF ua] .
  note pg = arena_page(1)[OF inv a] and ok = heap_invD(3)[OF inv a]
  show ?thesis
  proof (cases "arena_desc ar")
    case None
    then have "p = blk a 1 0" using ia by (simp add: arena_used_big blk_def)
    moreover have "x = 12" if "unat x = 12" for x :: addr using that by (simp add: word_unat_eq_iff)
    ultimately have b: "pg_round_down p = a" "pg_ofs p = 12" "p \<noteq> NULL" using blk_page[OF pg, of 0 1] by simp_all
    then have "block_to_arena s p = Inr (a, ar)"
      using a None ok pg by (simp add: block_to_arena_def sizeof_arena_def arena_ok_def page_at_def)
    then show ?thesis using a ia b(3) by blast
  next
    case (Some i)
    then have i: "i < length (descs s)" using ok by (simp add: arena_ok_def)
    obtain k where k: "k < blocks_per_arena (descs s ! i)" "p = blk a (block_size (descs s ! i)) k"
      using ia by (auto simp: arena_used_small[OF Some])
    note d = desc_okD[OF heap_invD(1)[OF inv i]]
    have "block_to_arena s p = Inr (a, ar)" unfolding k(2) by (rule block_to_arena_small[OF inv a Some k(1)]) simp_all
    then show ?thesis using a ia blk_page(3)[OF pg d(3)[OF k(1)] d(1)] k(2) by blast
  qed
qed

lemma free_ok:
  assumes inv: "heap_inv held low s fl L" and un: "unlocked s" and u: "(p, n) \<in> in_use s fl"
  shows "\<exists>s' fl' L'. free p s = Inr s' \<and> heap_inv held low s' fl' L' \<and> unlocked s' \<and> in_use s' fl' = in_use s fl - {(p, n)}"
proof -
  obtain a ar where a: "block_to_arena s p = Inr (a, ar)" "arenas s a = Some ar" "(p, n) \<in> arena_used (descs s) fl a ar" "p \<noteq> NULL"
    using used_block_to_arena[OF inv u] by blast
  show ?thesis
  proof (cases "arena_desc ar")
    case (Some i)
    then obtain k where k: "n = block_size (descs s ! i)" "k < blocks_per_arena (descs s ! i)" "p = blk a (block_size (descs s ! i)) k" "p \<notin> set (fl i)"
      using a(3) by (auto simp: arena_used_small[OF Some])
    have "free p s = free_small i p a ar s" using a(1,4) Some by (simp add: free_def)
    then show ?thesis using free_small_ok[OF inv un a(2) Some k(2,3,4)] k(1) un by (fastforce simp: unlocked_def)
  next
    case None
    then have L: "(a, free_cnt ar) \<in> L" using heap_invD(3)[OF inv a(2)] by (simp add: arena_ok_def)
    obtain ps' where ps': "palloc_free_multiple a (free_cnt ar) (pallocs s) = Inr ps'" "held ps' (L - {(a, free_cnt ar)})"
      using held_put[OF heap_invD(4)[OF inv] L] by blast
    let ?s = "set_arena a None (s\<lparr>pallocs := ps'\<rparr>)" and ?L = "L - {(a, free_cnt ar)}"
    have eq: "free p s = Inr ?s" using a(1,4) None ps'(1) by (simp add: free_def)
    have old: "pg_round_down b \<noteq> a" if b: "0 < length (descs s)" "b \<in> set (fl 0)" for b
    proof -
      obtain a' ar' k where k: "k < blocks_per_arena (descs s ! 0)" "arenas s a' = Some ar'" "arena_desc ar' = Some 0"
          "b = blk a' (block_size (descs s ! 0)) k" using heap_invD(5)[OF inv b] by blast
      note d = desc_okD[OF heap_invD(1)[OF inv b(1)]]
      have "a' \<noteq> a" using k(2,3) a(2) None by auto
      then show ?thesis using blk_page(1)[OF arena_page(1)[OF inv k(2)] d(3)[OF k(1)] d(1)] k(4) by simp
    qed
    have step: "heap_inv held low ?s (fl(0 := fl 0)) ?L \<and> (\<forall>a'. a' \<noteq> a \<longrightarrow> used_at ?s (fl(0 := fl 0)) a' = used_at s fl a')"
      by (rule heap_inv_update[OF inv, where A = "{}" and x = None])
        (use heap_invD(2)[OF inv] ps'(2) old a(2) None in \<open>auto simp: set_arena_def same_links_def\<close>)
    have "used_at ?s fl a = used_at s fl a - {(p, n)}" using a(2,3) None by (simp add: used_at_def set_arena_def arena_used_big)
    moreover have "(p, n) \<notin> used_at s fl a'" if "a' \<noteq> a" for a'
      using used_arena(2)[OF inv, of p n a'] used_arena(2)[OF inv, of p n a] that a(2,3) by (auto simp: used_at_def)
    ultimately have "in_use ?s fl = in_use s fl - {(p, n)}"
      using in_use_change[of a ?s fl s fl] in_use_split[of s fl a] step by auto
    moreover have "unlocked ?s" using un by (simp add: unlocked_def set_arena_def)
    ultimately show ?thesis using eq step by auto
  qed
qed

lemma heap_inv_ram:
  assumes "heap_inv held low s fl L"
  shows "heap_inv held low (put_ram m s) fl L" and "in_use (put_ram m s) fl = in_use s fl"
  using heap_inv_cong[of "put_ram m s" s held low fl L] assms held_ram[OF heap_invD(4)[OF assms], of m] by (auto simp: put_ram_def)

lemma block_bytes_ok:
  assumes inv: "heap_inv held low s fl L" and u: "(p, n) \<in> in_use s fl"
  shows "\<exists>sz. block_bytes s p = Inr sz"
proof -
  obtain a ar where a: "block_to_arena s p = Inr (a, ar)" "arenas s a = Some ar" using used_block_to_arena[OF inv u] by blast
  then show ?thesis using heap_invD(3)[OF inv a(2)] by (cases "arena_desc ar") (auto simp: block_bytes_def arena_ok_def)
qed

lemma move_block_ok:
  assumes inv: "heap_inv held low s fl L" and un: "unlocked s" and u: "(p, n) \<in> in_use s fl" and q: "q \<noteq> NULL"
  shows "\<exists>s' fl' L'. move_block p q sz s = Inr s' \<and> heap_inv held low s' fl' L' \<and> unlocked s' \<and> in_use s' fl' = in_use s fl - {(p, n)}"
proof -
  obtain m where m: "block_bytes s p = Inr m" using block_bytes_ok[OF inv u] by blast
  have "p \<noteq> NULL" using used_block_to_arena[OF inv u] by blast
  then obtain r where "memcpy (ram (pallocs s)) q p (if sz < m then sz else m) = Inr (q, r)" using q by (simp add: memcpy_def)
  moreover have "unlocked (put_ram r s)" using un by (simp add: unlocked_def put_ram_def)
  ultimately show ?thesis
    using free_ok[OF heap_inv_ram(1)[OF inv, of r], of p n] heap_inv_ram(2)[OF inv, of r] u m by (simp add: move_block_def)
qed

end

context total_page_source
begin

lemma calloc_ok:
  assumes inv: "heap_inv held low s fl L" and un: "unlocked s" and sz: "a * b + 4108 < 2 ^ 32"
  shows "\<exists>p s' fl' L'. calloc a b s = Some (Inr (p, s')) \<and> heap_inv held low s' fl' L' \<and> unlocked s'
    \<and> (if p = NULL then in_use s' fl' = in_use s fl
       else (\<exists>n \<ge> a * b. in_use s' fl' = insert (p, n) (in_use s fl) \<and> (p, n) \<notin> in_use s fl))"
proof (cases "a * b < a \<or> a * b < b")
  case True
  then show ?thesis using assms by (auto simp: calloc_def sz_mul_exact)
next
  case False
  obtain p s' fl' L' where p: "malloc (a * b) s = Some (Inr (p, s'))" "heap_inv held low s' fl' L'" "unlocked s'"
      "if p = NULL then in_use s' fl' = in_use s fl
       else (\<exists>n \<ge> a * b. in_use s' fl' = insert (p, n) (in_use s fl) \<and> (p, n) \<notin> in_use s fl)"
    using malloc_ok[OF assms] by blast
  show ?thesis
  proof (cases "p = NULL")
    case True
    then have "calloc a b s = Some (Inr (p, s'))" using p(1) False sz by (auto simp: calloc_def sz_mul_exact Let_def)
    then show ?thesis using p(2,3,4) by blast
  next
    case nn: False
    then obtain m where m: "memset (ram (pallocs s')) p 0 (a * b) = Inr (p, m)" by (simp add: memset_def)
    have "unlocked (put_ram m s')" using p(3) by (simp add: unlocked_def put_ram_def)
    moreover have "calloc a b s = Some (Inr (p, put_ram m s'))"
      using p(1) False nn m sz by (auto simp: calloc_def sz_mul_exact Let_def)
    ultimately show ?thesis using heap_inv_ram[OF p(2), of m] p(4) nn by auto
  qed
qed

lemma realloc_ok:
  assumes inv: "heap_inv held low s fl L" and un: "unlocked s" and sz: "0 < sz" "sz + 4108 < 2 ^ 32" and u: "(p, n) \<in> in_use s fl"
  shows "\<exists>q s' fl' L'. realloc p sz s = Some (Inr (q, s')) \<and> heap_inv held low s' fl' L' \<and> unlocked s'
    \<and> (if q = NULL then in_use s' fl' = in_use s fl
       else (\<exists>m \<ge> sz. in_use s' fl' = insert (q, m) (in_use s fl) - {(p, n)} \<and> (q, m) \<notin> in_use s fl))"
proof -
  have p: "p \<noteq> NULL" using used_block_to_arena[OF inv u] by blast
  obtain q s1 fl1 L1 where q: "malloc sz s = Some (Inr (q, s1))" "heap_inv held low s1 fl1 L1" "unlocked s1"
      "if q = NULL then in_use s1 fl1 = in_use s fl
       else (\<exists>m \<ge> sz. in_use s1 fl1 = insert (q, m) (in_use s fl) \<and> (q, m) \<notin> in_use s fl)"
    using malloc_ok[OF inv un sz(2)] by blast
  show ?thesis
  proof (cases "q = NULL")
    case True
    then have "realloc p sz s = Some (Inr (q, s1))" using q(1) sz by (simp add: realloc_def)
    then show ?thesis using q(2,3,4) True by auto
  next
    case False
    then obtain m where m: "sz \<le> m" "in_use s1 fl1 = insert (q, m) (in_use s fl)" "(q, m) \<notin> in_use s fl" using q(4) by auto
    then obtain s' fl' L' where "move_block p q sz s1 = Inr s'" "heap_inv held low s' fl' L'" "unlocked s'"
        "in_use s' fl' = insert (q, m) (in_use s fl) - {(p, n)}"
      using move_block_ok[OF q(2,3), of p n q sz] u False by auto
    then show ?thesis using q(1) False p sz(1) m(1,3) by (auto simp: realloc_def)
  qed
qed

end

text \<open>First fit and best fit return on every request.\<close>

context scan_policy
begin

lemma held_by_returns:
  assumes "held_by pol low ps L" and "0 < n" "n < 2 ^ 31" and "\<And>st xs. fits st xs n"
  shows "\<exists>p ps'. palloc_get_multiple 0 n ps = Some (Inr (p, ps'))"
proof -
  obtain live xs bl where "run_inv pol ps live xs bl" using held_byE[OF assms(1)] .
  then have "palloc_ok pol ps xs" by (simp add: run_inv_def)
  then show ?thesis using get_multiple_returns[of ps xs n 0] assms(2-4) by simp
qed

lemma palloc_run_held:
  assumes "palloc_run pol ps live" and "low \<le> unat (base (kernel_pool ps))"
  shows "held_by pol low ps (set live)"
  using run_invariant[OF assms(1)] held_byI[OF _ refl assms(2)] by blast

end

interpretation ff_heap: total_page_source "held_by FIRST_FIT low" low for low
  by unfold_locales (rule first_fit.held_by_returns, simp_all)

interpretation bf_heap: total_page_source "held_by BEST_FIT low" low for low
  by unfold_locales (rule best_fit.held_by_returns, simp_all)

section \<open>Initialisation\<close>

definition init_desc :: "addr \<Rightarrow> nat \<Rightarrow> nat \<Rightarrow> desc" where
  "init_desc base_d j bs = \<lparr>block_size = bs, blocks_per_arena = 4084 div bs, free_list = desc_list_addr base_d j, desc_lock = False\<rparr>"

text \<open>The descriptors that are set up, and their empty free lists.\<close>

definition descs_ready :: "addr \<Rightarrow> desc list \<Rightarrow> lheap \<Rightarrow> bool" where
  "descs_ready base_d ds h \<longleftrightarrow> (\<forall>j < length ds. free_list (ds ! j) = desc_list_addr base_d j \<and> klist h (free_list (ds ! j)) [])"

lemma desc_list_addr_unat:
  assumes "unat base_d + 480 \<le> low" "low < 2 ^ 32" "k < 10"
  shows "unat (desc_list_addr base_d k) = unat base_d + 48 * k + 8" "unat (tail_of (desc_list_addr base_d k)) = unat base_d + 48 * k + 16"
proof -
  have "unat (base_d + of_nat m) = unat base_d + m" if "m < 480" for m
    using that assms(1,2) unat_small[of m] by (simp add: unat_plus_if_size word_size)
  from this[of "48 * k + 8"] this[of "48 * k + 16"] assms(3)
  show "unat (desc_list_addr base_d k) = unat base_d + 48 * k + 8" "unat (tail_of (desc_list_addr base_d k)) = unat base_d + 48 * k + 16"
    by (simp_all add: desc_list_addr_def tail_of_def add.assoc)
qed

lemma desc_list_addr_bounds:
  assumes "unat base_d + 480 \<le> low" "low < 2 ^ 32" "i < 10"
  shows "unat (desc_list_addr base_d i) + 16 \<le> low" and "desc_list_addr base_d i \<noteq> NULL" and "tail_of (desc_list_addr base_d i) \<noteq> NULL"
  using desc_list_addr_unat[OF assms] assms by (auto simp: NULL_def)

lemma desc_list_addr_apart:
  assumes "unat base_d + 480 \<le> low" "low < 2 ^ 32" "i < 10" "j < 10" "i \<noteq> j"
  shows "nodes (desc_list_addr base_d i) [] \<inter> nodes (desc_list_addr base_d j) [] = {}"
proof -
  note u = desc_list_addr_unat[OF assms(1,2)]
  have "x \<noteq> y" if "x \<in> nodes (desc_list_addr base_d i) []" "y \<in> nodes (desc_list_addr base_d j) []" for x y
  proof
    assume "x = y"
    then have "unat x = unat y" by simp
    moreover have "unat x \<in> {unat base_d + 48 * i + 8, unat base_d + 48 * i + 16}" "unat y \<in> {unat base_d + 48 * j + 8, unat base_d + 48 * j + 16}"
      using that u[OF assms(3)] u[OF assms(4)] by (auto simp: nodes_def)
    ultimately show False using assms(5) by auto
  qed
  then show ?thesis by blast
qed

lemma init_descs_step:
  assumes r: "descs_ready base_d ds h" and b: "unat base_d + 480 \<le> low" "low < 2 ^ 32" and len: "length ds < 10" and bs: "0 < bs" "bs < 2048"
  shows "\<exists>h'. init_descs base_d bs ds h = init_descs base_d (2 * bs) (ds @ [init_desc base_d (length ds) bs]) h'
    \<and> descs_ready base_d (ds @ [init_desc base_d (length ds) bs]) h'"
proof -
  let ?l = "desc_list_addr base_d (length ds)" and ?d = "init_desc base_d (length ds) bs"
  obtain h' where h': "list_init ?l h = Inr h'" "klist h' ?l []" "same_links h h' (nodes ?l [])"
    using list_init_klist desc_list_addr_bounds(2,3)[OF b len] by metis
  have "klist h' (free_list (ds ! k)) []" if k: "k < length ds" for k
  proof -
    have "klist h (free_list (ds ! k)) []" "free_list (ds ! k) = desc_list_addr base_d k" using r k by (auto simp: descs_ready_def)
    then show ?thesis using klist_frame[OF _ h'(3)] desc_list_addr_apart[OF b len, of k] k len by auto
  qed
  then have "descs_ready base_d (ds @ [?d]) h'"
    using r h'(2) by (auto simp: descs_ready_def nth_append less_Suc_eq init_desc_def)
  moreover have "init_descs base_d bs ds h = init_descs base_d (2 * bs) (ds @ [?d]) h'"
    using bs len h'(1) by (subst init_descs.simps) (simp add: PGSIZE_eq sizeof_arena_def init_desc_def sz_mul_exact mult.commute)
  ultimately show ?thesis by blast
qed

definition init_descs_list :: "addr \<Rightarrow> desc list" where
  "init_descs_list base_d = map (\<lambda>j. init_desc base_d j (16 * 2 ^ j)) [0..<7]"

lemma malloc_init_ok:
  assumes b: "unat base_d + 480 \<le> low" "low < 2 ^ 32" and s: "descs s = []" "\<And>a. arenas s a = None" "held (pallocs s) L"
  shows "\<exists>h. malloc_init base_d s = Some (Inr (s\<lparr>descs := init_descs_list base_d, links := h\<rparr>))
    \<and> heap_inv held low (s\<lparr>descs := init_descs_list base_d, links := h\<rparr>) (\<lambda>_. []) L"
proof -
  let ?ds = "\<lambda>n. map (\<lambda>j. init_desc base_d j (16 * 2 ^ j)) [0..<n]"
  have "\<exists>h. init_descs base_d 16 [] (links s) = init_descs base_d (16 * 2 ^ n) (?ds n) h \<and> descs_ready base_d (?ds n) h" if "n \<le> 7" for n
    using that
  proof (induction n)
    case (Suc n)
    then obtain h where h: "init_descs base_d 16 [] (links s) = init_descs base_d (16 * 2 ^ n) (?ds n) h" "descs_ready base_d (?ds n) h" by auto
    have "(2 :: nat) ^ n \<le> 2 ^ 6" using Suc.prems by (intro power_increasing) auto
    then show ?case using init_descs_step[OF h(2) b, of "16 * 2 ^ n"] h(1) Suc.prems by (simp add: mult.left_commute)
  qed (auto simp: descs_ready_def)
  from this[of 7] obtain h where h: "init_descs base_d 16 [] (links s) = init_descs base_d 2048 (?ds 7) h" "descs_ready base_d (?ds 7) h" by auto
  have "init_descs base_d 2048 (?ds 7) h = Some (Inr (?ds 7, h))" by (subst init_descs.simps) (simp add: PGSIZE_eq)
  then have "malloc_init base_d s = Some (Inr (s\<lparr>descs := init_descs_list base_d, links := h\<rparr>))"
    using h(1) s(1) by (simp add: malloc_init_def init_descs_list_def)
  moreover have "desc_ok low (init_desc base_d j (16 * 2 ^ j))" if "j < 7" for j
  proof -
    have "(2 :: nat) ^ j \<le> 2 ^ 6" using that by (intro power_increasing) auto
    then show ?thesis using desc_list_addr_bounds(1,2)[OF b, of j] that by (simp add: desc_ok_def init_desc_def)
  qed
  moreover have "nodes (desc_list_addr base_d i) [] \<inter> nodes (desc_list_addr base_d j) [] = {}" if "i < 7" "j < 7" "i \<noteq> j" for i j
    using desc_list_addr_apart[OF b, of i j] that by simp
  ultimately show ?thesis
    using h(2) s(2,3) by (intro exI[of _ h]) (auto simp: heap_inv_def init_descs_list_def descs_ready_def init_desc_def)
qed

section \<open>Runs of the allocator\<close>

text \<open>
  A client allocates, resizes and frees; \<open>live\<close> holds the blocks it has, by address and the
  number of bytes it asked for. The descriptors lie in the kernel's data below the pages.
\<close>

inductive heap_run :: "selector \<Rightarrow> malloc_state \<Rightarrow> (addr \<times> nat) set \<Rightarrow> bool" for pol where
  heap_start: "palloc_run pol ps [] \<Longrightarrow> unat base_d + 480 \<le> unat (base (kernel_pool ps)) \<Longrightarrow>
    malloc_init base_d \<lparr>descs = [], arenas = \<lambda>_. None, links = h, pallocs = ps\<rparr> = Some (Inr s) \<Longrightarrow> heap_run pol s {}"
| heap_malloc: "heap_run pol s live \<Longrightarrow> sz + 4108 < 2 ^ 32 \<Longrightarrow> malloc sz s = Some (Inr (b, s')) \<Longrightarrow>
    heap_run pol s' (if b = NULL then live else insert (b, sz) live)"
| heap_calloc: "heap_run pol s live \<Longrightarrow> x * y + 4108 < 2 ^ 32 \<Longrightarrow> calloc x y s = Some (Inr (b, s')) \<Longrightarrow>
    heap_run pol s' (if b = NULL then live else insert (b, x * y) live)"
| heap_realloc: "heap_run pol s live \<Longrightarrow> (p, n) \<in> live \<Longrightarrow> 0 < sz \<Longrightarrow> sz + 4108 < 2 ^ 32 \<Longrightarrow>
    realloc p sz s = Some (Inr (b, s')) \<Longrightarrow> heap_run pol s' (if b = NULL then live else insert (b, sz) (live - {(p, n)}))"
| heap_free: "heap_run pol s live \<Longrightarrow> (p, n) \<in> live \<Longrightarrow> free p s = Inr s' \<Longrightarrow> heap_run pol s' (live - {(p, n)})"

definition live_fits :: "(addr \<times> nat) set \<Rightarrow> (addr \<times> nat) set \<Rightarrow> bool" where
  "live_fits live U \<longleftrightarrow> (\<forall>(b, n) \<in> live. 0 < n \<and> (\<exists>m \<ge> n. (b, m) \<in> U)) \<and> (\<forall>(b, n) \<in> live. \<forall>(c, m) \<in> live. b = c \<longrightarrow> n = m)"

lemma live_fitsD:
  assumes "live_fits live U" and "(b, n) \<in> live"
  shows "\<exists>m \<ge> n. (b, m) \<in> U" and "0 < n" and "(b, k) \<in> live \<Longrightarrow> k = n"
  using assms unfolding live_fits_def by fast+

lemma live_fits_insert:
  assumes "live_fits live U" and "\<And>k. (b, k) \<notin> U" and "n \<le> m" and "0 < n"
  shows "live_fits (insert (b, n) live) (insert (b, m) U)"
proof -
  have "(b, k) \<notin> live" for k using live_fitsD(1)[OF assms(1)] assms(2) by blast
  then show ?thesis using assms(1,3,4) unfolding live_fits_def by blast
qed

lemma live_fits_remove:
  assumes "live_fits live U" and "(p, n) \<in> live"
  shows "live_fits (live - {(p, n)}) (U - {(p, m)})"
proof -
  have "b \<noteq> p" if "(b, k) \<in> live - {(p, n)}" for b k using live_fitsD(3)[OF assms] that by auto
  then show ?thesis using assms(1) unfolding live_fits_def by fastforce
qed

definition live_inv :: "(palloc_state \<Rightarrow> (addr \<times> nat) set \<Rightarrow> bool) \<Rightarrow> nat \<Rightarrow> malloc_state \<Rightarrow> (addr \<times> nat) set \<Rightarrow> bool" where
  "live_inv held low s live \<longleftrightarrow> (\<exists>fl L. heap_inv held low s fl L \<and> unlocked s \<and> live_fits live (in_use s fl))"

context page_source
begin

lemma in_use_pos:
  assumes inv: "heap_inv held low s fl L" and u: "(b, n) \<in> in_use s fl"
  shows "0 < n"
proof -
  obtain a ar where a: "arenas s a = Some ar" "(b, n) \<in> arena_used (descs s) fl a ar" using used_block_to_arena[OF inv u] by blast
  note ok = heap_invD(3)[OF inv a(1)]
  show ?thesis
  proof (cases "arena_desc ar")
    case None
    then have "0 < free_cnt ar" using ok held_block[OF heap_invD(4)[OF inv], of a "free_cnt ar"] by (simp add: arena_ok_def)
    then show ?thesis using a(2) None by (simp add: arena_used_big sizeof_arena_def)
  next
    case (Some i)
    then show ?thesis using a(2) ok desc_okD(1)[OF heap_invD(1)[OF inv, of i]] by (simp add: arena_used_small[OF Some] arena_ok_def)
  qed
qed

lemma in_use_same:
  assumes inv: "heap_inv held low s fl L" and u: "(b, n) \<in> in_use s fl" "(b, m) \<in> in_use s fl"
  shows "n = m"
proof (rule ccontr)
  assume "n \<noteq> m"
  moreover have "in_block b n b" "in_block b m b" using in_use_pos[OF inv u(1)] in_use_pos[OF inv u(2)] by (simp_all add: in_block_def)
  ultimately show False using in_use_disjoint[OF inv u, of b] by blast
qed

lemma live_disjoint_blocks:
  assumes "live_inv held low s live" and "(b, n) \<in> live" "(c, m) \<in> live" and "(b, n) \<noteq> (c, m)"
  shows "\<not> (in_block b n x \<and> in_block c m x)"
proof -
  obtain fl L where inv: "heap_inv held low s fl L" and lf: "live_fits live (in_use s fl)" using assms(1) by (auto simp: live_inv_def)
  obtain n' m' where u: "n \<le> n'" "(b, n') \<in> in_use s fl" "m \<le> m'" "(c, m') \<in> in_use s fl"
    using live_fitsD(1)[OF lf assms(2)] live_fitsD(1)[OF lf assms(3)] by blast
  have "b \<noteq> c" using live_fitsD(3)[OF lf assms(2), of m] assms(3,4) by auto
  then have "\<not> (in_block b n' x \<and> in_block c m' x)" using in_use_disjoint[OF inv u(2,4)] by blast
  then show ?thesis using u(1,3) by (auto simp: in_block_def)
qed

lemma free_live:
  assumes "live_inv held low s live" and "(p, n) \<in> live"
  shows "\<exists>s'. free p s = Inr s' \<and> live_inv held low s' (live - {(p, n)})"
proof -
  obtain fl L where inv: "heap_inv held low s fl L" "unlocked s" and lf: "live_fits live (in_use s fl)" using assms(1) by (auto simp: live_inv_def)
  obtain m where "(p, m) \<in> in_use s fl" using live_fitsD(1)[OF lf assms(2)] by blast
  from free_ok[OF inv this] show ?thesis using live_fits_remove[OF lf assms(2)] by (metis live_inv_def)
qed

lemma alloc_fresh:
  assumes "live_fits live U" and "heap_inv held low s' fl' L'" and "in_use s' fl' = insert (b, m) U" "(b, m) \<notin> U"
  shows "(b, k) \<notin> U" and "(b, k) \<notin> live"
proof -
  show f: "(b, k) \<notin> U" for k using in_use_same[OF assms(2), of b k m] assms(3,4) by auto
  show "(b, k) \<notin> live" using live_fitsD(1)[OF assms(1), of b k] f by blast
qed

lemma alloc_live:
  assumes "live_fits live U" and "heap_inv held low s' fl' L'" and "in_use s' fl' = insert (b, m) U" "(b, m) \<notin> U" and "n \<le> m" "0 < n"
  shows "live_fits (insert (b, n) live) (in_use s' fl')"
  unfolding assms(3) by (rule live_fits_insert[OF assms(1) alloc_fresh(1)[OF assms(1-4)] assms(5,6)])

lemma alloc_live_if:
  assumes "live_fits live U" and "heap_inv held low s' fl' L'"
    and "if b = NULL then in_use s' fl' = U else (\<exists>m \<ge> n. in_use s' fl' = insert (b, m) U \<and> (b, m) \<notin> U)" and "n = 0 \<Longrightarrow> b = NULL"
  shows "live_fits (if b = NULL then live else insert (b, n) live) (in_use s' fl')"
proof (cases "b = NULL")
  case True then show ?thesis using assms(1,3) by simp
next
  case False
  then obtain m where m: "n \<le> m" "in_use s' fl' = insert (b, m) U" "(b, m) \<notin> U" using assms(3) by auto
  have "0 < n" using False assms(4) by auto
  from alloc_live[OF assms(1,2) m(2,3,1) this] show ?thesis using False by simp
qed

end

context total_page_source
begin

lemma malloc_live:
  assumes "live_inv held low s live" and "sz + 4108 < 2 ^ 32"
  shows "\<exists>b s'. malloc sz s = Some (Inr (b, s')) \<and> live_inv held low s' (if b = NULL then live else insert (b, sz) live)
    \<and> (b \<noteq> NULL \<longrightarrow> (\<forall>k. (b, k) \<notin> live))"
proof -
  obtain fl L where inv: "heap_inv held low s fl L" "unlocked s" and lf: "live_fits live (in_use s fl)" using assms(1) by (auto simp: live_inv_def)
  obtain b s' fl' L' where b: "malloc sz s = Some (Inr (b, s'))" "heap_inv held low s' fl' L'" "unlocked s'"
      "if b = NULL then in_use s' fl' = in_use s fl
       else (\<exists>n \<ge> sz. in_use s' fl' = insert (b, n) (in_use s fl) \<and> (b, n) \<notin> in_use s fl)"
    using malloc_ok[OF inv assms(2)] by blast
  have "b = NULL" if "sz = 0" using b(1) that by (simp add: malloc_def)
  then have "live_fits (if b = NULL then live else insert (b, sz) live) (in_use s' fl')"
    by (intro alloc_live_if[OF lf b(2,4)])
  moreover have "(b, k) \<notin> live" if "b \<noteq> NULL" for k using alloc_fresh[OF lf b(2)] b(4) that by auto
  ultimately show ?thesis using b(1-3) unfolding live_inv_def by blast
qed

lemma calloc_live:
  assumes "live_inv held low s live" and "x * y + 4108 < 2 ^ 32"
  shows "\<exists>b s'. calloc x y s = Some (Inr (b, s')) \<and> live_inv held low s' (if b = NULL then live else insert (b, x * y) live)
    \<and> (b \<noteq> NULL \<longrightarrow> (\<forall>k. (b, k) \<notin> live))"
proof -
  obtain fl L where inv: "heap_inv held low s fl L" "unlocked s" and lf: "live_fits live (in_use s fl)" using assms(1) by (auto simp: live_inv_def)
  obtain b s' fl' L' where b: "calloc x y s = Some (Inr (b, s'))" "heap_inv held low s' fl' L'" "unlocked s'"
      "if b = NULL then in_use s' fl' = in_use s fl
       else (\<exists>n \<ge> x * y. in_use s' fl' = insert (b, n) (in_use s fl) \<and> (b, n) \<notin> in_use s fl)"
    using calloc_ok[OF inv assms(2)] by blast
  have "b = NULL" if "x * y = 0" using b(1) that by (auto simp: calloc_def malloc_def sz_mul_exact Let_def split: if_splits)
  then have "live_fits (if b = NULL then live else insert (b, x * y) live) (in_use s' fl')"
    by (intro alloc_live_if[OF lf b(2,4)])
  moreover have "(b, k) \<notin> live" if "b \<noteq> NULL" for k using alloc_fresh[OF lf b(2)] b(4) that by auto
  ultimately show ?thesis using b(1-3) unfolding live_inv_def by blast
qed

lemma realloc_live:
  assumes "live_inv held low s live" and "(p, n) \<in> live" and "0 < sz" "sz + 4108 < 2 ^ 32"
  shows "\<exists>b s'. realloc p sz s = Some (Inr (b, s')) \<and> live_inv held low s' (if b = NULL then live else insert (b, sz) (live - {(p, n)}))"
proof -
  obtain fl L where inv: "heap_inv held low s fl L" "unlocked s" and lf: "live_fits live (in_use s fl)" using assms(1) by (auto simp: live_inv_def)
  obtain k where k: "(p, k) \<in> in_use s fl" using live_fitsD(1)[OF lf assms(2)] by blast
  obtain b s' fl' L' where b: "realloc p sz s = Some (Inr (b, s'))" "heap_inv held low s' fl' L'" "unlocked s'"
      "if b = NULL then in_use s' fl' = in_use s fl
       else (\<exists>m \<ge> sz. in_use s' fl' = insert (b, m) (in_use s fl) - {(p, k)} \<and> (b, m) \<notin> in_use s fl)"
    using realloc_ok[OF inv assms(3,4) k] by blast
  have "live_fits (if b = NULL then live else insert (b, sz) (live - {(p, n)})) (in_use s' fl')"
  proof (cases "b = NULL")
    case True then show ?thesis using lf b(4) by simp
  next
    case False
    then obtain m where m: "sz \<le> m" "in_use s' fl' = insert (b, m) (in_use s fl) - {(p, k)}" "(b, m) \<notin> in_use s fl" using b(4) by auto
    then have "in_use s' fl' = insert (b, m) (in_use s fl - {(p, k)})" using k by auto
    then show ?thesis
      using alloc_live[OF live_fits_remove[OF lf assms(2)] b(2), of b m k sz] m assms(3) False by simp
  qed
  then show ?thesis using b(1-3) unfolding live_inv_def by blast
qed

end

text \<open>Every state of a run satisfies the invariant.\<close>

lemma heap_run_inv:
  assumes tot: "\<And>low. total_page_source (held_by pol low) low"
    and start: "\<And>ps low. palloc_run pol ps [] \<Longrightarrow> low \<le> unat (base (kernel_pool ps)) \<Longrightarrow> held_by pol low ps {}"
    and run: "heap_run pol s live"
  shows "\<exists>low. live_inv (held_by pol low) low s live"
  using run
proof induction
  case (heap_start ps base_d h s)
  let ?low = "unat (base (kernel_pool ps))"
  have "held_by pol ?low ps {}" using start[OF heap_start(1)] by simp
  then obtain g where "malloc_init base_d \<lparr>descs = [], arenas = \<lambda>_. None, links = h, pallocs = ps\<rparr>
      = Some (Inr \<lparr>descs = init_descs_list base_d, arenas = \<lambda>_. None, links = g, pallocs = ps\<rparr>)"
      "heap_inv (held_by pol ?low) ?low \<lparr>descs = init_descs_list base_d, arenas = \<lambda>_. None, links = g, pallocs = ps\<rparr> (\<lambda>_. []) {}"
    using malloc_init_ok[OF heap_start(2) unat_bound32, of "\<lparr>descs = [], arenas = \<lambda>_. None, links = h, pallocs = ps\<rparr>" "held_by pol ?low" "{}"] by auto
  then show ?case
    using heap_start(3) by (auto simp: live_inv_def unlocked_def init_descs_list_def init_desc_def live_fits_def)
next
  case (heap_malloc s live sz b s')
  then obtain low where i: "live_inv (held_by pol low) low s live" by blast
  show ?case using total_page_source.malloc_live[OF tot i heap_malloc(2)] heap_malloc(3) by auto
next
  case (heap_calloc s live x y b s')
  then obtain low where i: "live_inv (held_by pol low) low s live" by blast
  show ?case using total_page_source.calloc_live[OF tot i heap_calloc(2)] heap_calloc(3) by auto
next
  case (heap_realloc s live p n sz b s')
  then obtain low where i: "live_inv (held_by pol low) low s live" by blast
  show ?case using total_page_source.realloc_live[OF tot i heap_realloc(2-4)] heap_realloc(5) by auto
next
  case (heap_free s live p n s')
  then obtain low where i: "live_inv (held_by pol low) low s live" by blast
  show ?case using page_source.free_live[OF total_page_source.axioms(1)[OF tot] i heap_free(2)] heap_free(3) by auto
qed

lemma first_fit_run_inv: "heap_run FIRST_FIT s live \<Longrightarrow> \<exists>low. live_inv (held_by FIRST_FIT low) low s live"
  by (rule heap_run_inv) (unfold_locales, use first_fit.palloc_run_held[of _ "[]"] in auto)

lemma best_fit_run_inv: "heap_run BEST_FIT s live \<Longrightarrow> \<exists>low. live_inv (held_by BEST_FIT low) low s live"
  by (rule heap_run_inv) (unfold_locales, use best_fit.palloc_run_held[of _ "[]"] in auto)

text \<open>
  The contract of the block allocator for the other parts of the kernel: a heap that is sound for
  the blocks \<open>live\<close> hands out fresh blocks and takes back those it has handed out.
\<close>

definition sound_heap :: "malloc_state \<Rightarrow> (addr \<times> nat) set \<Rightarrow> bool" where
  "sound_heap s live \<longleftrightarrow> (\<exists>held low. total_page_source held low \<and> live_inv held low s live)"

lemma heap_run_sound:
  assumes "pol \<in> {FIRST_FIT, BEST_FIT}" and "heap_run pol s live"
  shows "sound_heap s live"
proof (cases "pol = FIRST_FIT")
  case True
  then show ?thesis using first_fit_run_inv assms(2) ff_heap.total_page_source_axioms unfolding sound_heap_def by blast
next
  case False
  then show ?thesis using best_fit_run_inv assms bf_heap.total_page_source_axioms unfolding sound_heap_def by blast
qed

lemma sound_malloc:
  assumes "sound_heap s live" and "sz + 4108 < 2 ^ 32"
  shows "\<exists>b s'. malloc sz s = Some (Inr (b, s')) \<and> sound_heap s' (if b = NULL then live else insert (b, sz) live)
    \<and> (b \<noteq> NULL \<longrightarrow> (\<forall>k. (b, k) \<notin> live))"
  using assms total_page_source.malloc_live unfolding sound_heap_def by meson

lemma sound_calloc:
  assumes "sound_heap s live" and "x * y + 4108 < 2 ^ 32"
  shows "\<exists>b s'. calloc x y s = Some (Inr (b, s')) \<and> sound_heap s' (if b = NULL then live else insert (b, x * y) live)
    \<and> (b \<noteq> NULL \<longrightarrow> (\<forall>k. (b, k) \<notin> live))"
  using assms total_page_source.calloc_live unfolding sound_heap_def by meson

lemma sound_realloc:
  assumes "sound_heap s live" and "(p, n) \<in> live" and "0 < sz" "sz + 4108 < 2 ^ 32"
  shows "\<exists>b s'. realloc p sz s = Some (Inr (b, s')) \<and> sound_heap s' (if b = NULL then live else insert (b, sz) (live - {(p, n)}))"
  using assms total_page_source.realloc_live unfolding sound_heap_def by meson

lemma sound_free:
  assumes "sound_heap s live" and "(p, n) \<in> live"
  shows "\<exists>s'. free p s = Inr s' \<and> sound_heap s' (live - {(p, n)})"
  using assms page_source.free_live[OF total_page_source.axioms(1)] unfolding sound_heap_def by meson

lemma sound_disjoint:
  assumes "sound_heap s live" and "(b, n) \<in> live" "(c, m) \<in> live" and "(b, n) \<noteq> (c, m)"
  shows "\<not> (in_block b n x \<and> in_block c m x)"
  using assms page_source.live_disjoint_blocks[OF total_page_source.axioms(1)] unfolding sound_heap_def by meson

section \<open>Properties of the block allocator\<close>

text \<open>Two big blocks of 3000 bytes on the machine with 262 pages.\<close>

definition ex_links :: lheap where
  "ex_links = \<lparr>elem_prev = \<lambda>_. NULL, elem_next = \<lambda>_. NULL\<rparr>"

lemma ex_heap_run: "\<exists>s. heap_run FIRST_FIT s {(0xc010100c, 3000), (0xc010200c, 3000)}"
proof -
  let ?i = "\<lambda>ps. \<lparr>descs = [], arenas = \<lambda>_. None, links = ex_links, pallocs = ps\<rparr>"
  have pr: "palloc_run FIRST_FIT (ex_state FIRST_FIT 0 0) []" by (rule run_init[OF _ _ _ ex_init]) simp_all
  have low: "unat (0xc0030000 :: addr) + 480 \<le> unat (base (kernel_pool (ex_state FIRST_FIT 0 0)))" by (simp add: ex_state_def ex_pool_def)
  have held: "held_by FIRST_FIT (unat (base (kernel_pool (ex_state FIRST_FIT 0 0)))) (ex_state FIRST_FIT 0 0) {}"
    using first_fit.palloc_run_held[OF pr] by simp
  obtain h where h: "malloc_init 0xc0030000 (?i (ex_state FIRST_FIT 0 0))
      = Some (Inr \<lparr>descs = init_descs_list 0xc0030000, arenas = \<lambda>_. None, links = h, pallocs = ex_state FIRST_FIT 0 0\<rparr>)"
    using malloc_init_ok[OF low unat_bound32, of "?i (ex_state FIRST_FIT 0 0)" "held_by FIRST_FIT (unat (base (kernel_pool (ex_state FIRST_FIT 0 0))))" "{}"] held by auto
  let ?m = "\<lambda>a ps. \<lparr>descs = init_descs_list 0xc0030000, arenas = a, links = h, pallocs = ps\<rparr>"
  let ?ar = "\<lparr>magic = ARENA_MAGIC, arena_desc = None, free_cnt = 1\<rparr>"
  have fd: "find_desc (init_descs_list 0xc0030000) 3000 0 = None" by (simp add: init_descs_list_def init_desc_def upt_conv_Cons)
  have cnt: "DIV_ROUND_UP (sz_add 3000 sizeof_arena) (unat PGSIZE) = 1" by (simp add: DIV_ROUND_UP_def sz_add_def sz_sub_def sizeof_arena_def PGSIZE_eq)
  have big: "malloc 3000 (?m a ps) = Some (Inr (p + 12, ?m (a(p \<mapsto> ?ar)) ps'))"
    if "palloc_get_multiple 0 1 ps = Some (Inr (p, ps'))" "p \<noteq> NULL" for a p ps ps'
    using that fd unfolding malloc_def malloc_big_def cnt Let_def by (simp add: set_arena_def sizeof_arena_def)
  have m1: "malloc 3000 (?m (\<lambda>_. None) (ex_state FIRST_FIT 0 0)) = Some (Inr (0xc010100c, ?m ((\<lambda>_. None)(0xc0101000 \<mapsto> ?ar)) (ex_state FIRST_FIT 1 1)))"
    using big[OF ex_get(1)] by (simp add: NULL_def)
  have m2: "malloc 3000 (?m ((\<lambda>_. None)(0xc0101000 \<mapsto> ?ar)) (ex_state FIRST_FIT 1 1)) =
      Some (Inr (0xc010200c, ?m ((\<lambda>_. None)(0xc0101000 \<mapsto> ?ar, 0xc0102000 \<mapsto> ?ar)) (ex_state FIRST_FIT 3 2)))"
    using big[OF ex_get(2)] by (simp add: NULL_def)
  from heap_malloc[OF heap_start[OF pr low h] _ m1] have "heap_run FIRST_FIT (?m ((\<lambda>_. None)(0xc0101000 \<mapsto> ?ar)) (ex_state FIRST_FIT 1 1)) {(0xc010100c, 3000)}"
    by (simp add: NULL_def)
  from heap_malloc[OF this _ m2] show ?thesis by (auto simp: NULL_def insert_commute)
qed

text \<open>
  C8. Blocks that a client of \<open>malloc\<close>, \<open>calloc\<close>, \<open>realloc\<close> and \<open>free\<close> holds never share a byte,
  in every state that it reaches from \<open>malloc_init\<close> by allocating, resizing and freeing.
\<close>

theorem malloc_blocks_disjoint:
  assumes "pol \<in> {FIRST_FIT, BEST_FIT}" and "heap_run pol s live"
    and "(b, n) \<in> live" "(c, m) \<in> live" and "(b, n) \<noteq> (c, m)"
  shows "\<not> (in_block b n x \<and> in_block c m x)"
  by (rule sound_disjoint[OF heap_run_sound[OF assms(1,2)] assms(3-5)])

theorem malloc_blocks_disjoint_witness:
  "\<exists>s. heap_run FIRST_FIT s {(0xc010100c, 3000), (0xc010200c, 3000)} \<and> \<not> (in_block 0xc010100c 3000 0xc0102010 \<and> in_block 0xc010200c 3000 0xc0102010)"
proof -
  obtain s where s: "heap_run FIRST_FIT s {(0xc010100c, 3000), (0xc010200c, 3000)}" using ex_heap_run by blast
  show ?thesis using s malloc_blocks_disjoint[OF _ s, of "0xc010100c" 3000 "0xc010200c" 3000 "0xc0102010"] by auto
qed

text \<open>
  C9. In every such state the four calls return. An allocation gives a block or \<open>NULL\<close>, and no
  assertion of the allocator or of the page allocator fails when a held block is resized or
  freed. This includes a product of sizes in \<open>calloc\<close>, \<open>realloc\<close> to size zero and of \<open>NULL\<close>, and
  \<open>free\<close> of \<open>NULL\<close>.
\<close>

theorem malloc_calls_return:
  assumes "pol \<in> {FIRST_FIT, BEST_FIT}" and "heap_run pol s live"
  shows "(\<forall>sz. sz + 4108 < 2 ^ 32 \<longrightarrow> (\<exists>b s'. malloc sz s = Some (Inr (b, s'))) \<and> (\<exists>b s'. realloc NULL sz s = Some (Inr (b, s'))))
    \<and> (\<forall>x y. x * y + 4108 < 2 ^ 32 \<longrightarrow> (\<exists>b s'. calloc x y s = Some (Inr (b, s')))) \<and> (\<exists>s'. free NULL s = Inr s')
    \<and> (\<forall>(p, n) \<in> live. (\<exists>s'. free p s = Inr s') \<and> (\<forall>sz. sz + 4108 < 2 ^ 32 \<longrightarrow> (\<exists>b s'. realloc p sz s = Some (Inr (b, s')))))"
proof -
  note i = heap_run_sound[OF assms]
  have m: "\<exists>b s'. malloc sz s = Some (Inr (b, s'))" if "sz + 4108 < 2 ^ 32" for sz using sound_malloc[OF i that] by blast
  have f: "\<exists>s'. free p s = Inr s'" if "p = NULL \<or> (p, n) \<in> live" for p n
    using that sound_free[OF i, of p n] by (auto simp: free_def)
  have r: "\<exists>b s'. realloc p sz s = Some (Inr (b, s'))" if "p = NULL \<or> (p, n) \<in> live" "sz + 4108 < 2 ^ 32" for p n sz
  proof (cases "sz = 0")
    case True
    then show ?thesis using f[OF that(1)] by (auto simp: realloc_def)
  next
    case False
    then show ?thesis using m[OF that(2)] sound_realloc[OF i, of p n sz] that by (auto simp: realloc_def)
  qed
  have c: "\<exists>b s'. calloc x y s = Some (Inr (b, s'))" if "x * y + 4108 < 2 ^ 32" for x y using sound_calloc[OF i that] by blast
  show ?thesis using m f r c by blast
qed

theorem malloc_calls_return_witness:
  "\<exists>s. heap_run FIRST_FIT s {(0xc010100c, 3000), (0xc010200c, 3000)} \<and> (\<exists>s'. free 0xc010100c s = Inr s')
     \<and> (\<exists>b s'. calloc 4 10 s = Some (Inr (b, s'))) \<and> (\<exists>b s'. realloc 0xc010200c 0 s = Some (Inr (b, s')))"
proof -
  obtain s where s: "heap_run FIRST_FIT s {(0xc010100c, 3000), (0xc010200c, 3000)}" using ex_heap_run by blast
  note r = malloc_calls_return[OF _ s, simplified]
  have "\<exists>b s'. calloc 4 10 s = Some (Inr (b, s'))" "\<exists>s'. free 0xc010100c s = Inr s'" "\<exists>b s'. realloc 0xc010200c 0 s = Some (Inr (b, s'))"
    using r by auto
  then show ?thesis using s by blast
qed

end
