(* ===== verification/CString.thy ===== *)
theory CString
  imports Memory
begin

text \<open>
  The null-terminated string functions of \<open>src/lib/string.c\<close>. A string is an address in a
  memory; a loop that runs over memory without a null byte does not end, which is the value
  \<open>None\<close>. The lemmas relate every function to the list of bytes before the terminator.
\<close>

section \<open>Functions\<close>

partial_function (option) strcmp_loop :: "memory \<Rightarrow> addr \<Rightarrow> addr \<Rightarrow> (addr \<times> addr) option" where
  "strcmp_loop m a b = (if m a \<noteq> 0 \<and> m a = m b then strcmp_loop m (a + 1) (b + 1) else Some (a, b))"

definition strcmp :: "memory \<Rightarrow> addr \<Rightarrow> addr \<Rightarrow> int result option" where
  "strcmp m a b =
     obind (oassert (a \<noteq> NULL)) (\<lambda>_.
     obind (oassert (b \<noteq> NULL)) (\<lambda>_.
     map_option (\<lambda>(a, b). Inr (if m a < m b then -1 else if m a > m b then 1 else 0)) (strcmp_loop m a b)))"

partial_function (option) strchr_loop :: "memory \<Rightarrow> addr \<Rightarrow> byte \<Rightarrow> addr option" where
  "strchr_loop m s c =
     (if m s = c then Some s else if m s = 0 then Some NULL else strchr_loop m (s + 1) c)"

definition strchr :: "memory \<Rightarrow> addr \<Rightarrow> byte \<Rightarrow> addr result option" where
  "strchr m s c = obind (oassert (s \<noteq> NULL)) (\<lambda>_. map_option Inr (strchr_loop m s c))"

partial_function (option) strcspn_loop :: "memory \<Rightarrow> addr \<Rightarrow> addr \<Rightarrow> nat \<Rightarrow> nat result option" where
  "strcspn_loop m s stop len =
     (let ch = m (s + of_nat len)
      in if ch = 0 then Some (Inr len)
         else obind (strchr m stop ch) (\<lambda>q.
              if q \<noteq> NULL then Some (Inr len) else strcspn_loop m s stop (sz_add len 1)))"

definition strcspn :: "memory \<Rightarrow> addr \<Rightarrow> addr \<Rightarrow> nat result option" where
  "strcspn m s stop = strcspn_loop m s stop 0"

partial_function (option) strpbrk :: "memory \<Rightarrow> addr \<Rightarrow> addr \<Rightarrow> addr result option" where
  "strpbrk m s stop =
     (if m s = 0 then Some (Inr NULL)
      else obind (strchr m stop (m s)) (\<lambda>q.
           if q \<noteq> NULL then Some (Inr s) else strpbrk m (s + 1) stop))"

partial_function (option) strrchr_loop :: "memory \<Rightarrow> addr \<Rightarrow> byte \<Rightarrow> addr \<Rightarrow> addr option" where
  "strrchr_loop m s c p =
     (if m s = 0 then Some p else strrchr_loop m (s + 1) c (if m s = c then s else p))"

definition strrchr :: "memory \<Rightarrow> addr \<Rightarrow> byte \<Rightarrow> addr option" where
  "strrchr m s c = strrchr_loop m s c NULL"

partial_function (option) strspn_loop :: "memory \<Rightarrow> addr \<Rightarrow> addr \<Rightarrow> nat \<Rightarrow> nat result option" where
  "strspn_loop m s skip len =
     (let ch = m (s + of_nat len)
      in if ch = 0 then Some (Inr len)
         else obind (strchr m skip ch) (\<lambda>q.
              if q = NULL then Some (Inr len) else strspn_loop m s skip (sz_add len 1)))"

definition strspn :: "memory \<Rightarrow> addr \<Rightarrow> addr \<Rightarrow> nat result option" where
  "strspn m s skip = strspn_loop m s skip 0"

partial_function (option) strlen_loop :: "memory \<Rightarrow> addr \<Rightarrow> addr option" where
  "strlen_loop m p = (if m p = 0 then Some p else strlen_loop m (p + 1))"

definition strlen :: "memory \<Rightarrow> addr \<Rightarrow> nat result option" where
  "strlen m s =
     obind (oassert (s \<noteq> NULL)) (\<lambda>_. map_option (\<lambda>p. Inr (unat (p - s))) (strlen_loop m s))"

text \<open>The loop \<open>for (i = 0; i <= haystack_len - needle_len; i++)\<close> of \<open>strstr\<close>, over the indices left.\<close>

primrec strstr_loop :: "memory \<Rightarrow> addr \<Rightarrow> addr \<Rightarrow> nat \<Rightarrow> nat list \<Rightarrow> addr result" where
  "strstr_loop m h n len [] = Inr NULL"
| "strstr_loop m h n len (i # is) =
     rbind (memcmp m (h + of_nat i) n len) (\<lambda>c.
     if c = 0 then Inr (h + of_nat i) else strstr_loop m h n len is)"

definition strstr :: "memory \<Rightarrow> addr \<Rightarrow> addr \<Rightarrow> addr result option" where
  "strstr m haystack needle =
     obind (strlen m haystack) (\<lambda>haystack_len.
     obind (strlen m needle) (\<lambda>needle_len.
     if haystack_len \<ge> needle_len
     then Some (strstr_loop m haystack needle needle_len [0..<Suc (haystack_len - needle_len)])
     else Some (Inr NULL)))"

partial_function (option) strnlen_loop :: "memory \<Rightarrow> addr \<Rightarrow> nat \<Rightarrow> nat \<Rightarrow> nat option" where
  "strnlen_loop m s maxlen len =
     (if m (s + of_nat len) \<noteq> 0 \<and> len < maxlen then strnlen_loop m s maxlen (sz_add len 1) else Some len)"

definition strnlen :: "memory \<Rightarrow> addr \<Rightarrow> nat \<Rightarrow> nat option" where
  "strnlen m s maxlen = strnlen_loop m s maxlen 0"

definition strlcpy :: "memory \<Rightarrow> addr \<Rightarrow> addr \<Rightarrow> nat \<Rightarrow> (nat \<times> memory) result option" where
  "strlcpy m dst src sz =
     obind (oassert (dst \<noteq> NULL)) (\<lambda>_.
     obind (oassert (src \<noteq> NULL)) (\<lambda>_.
     obind (strlen m src) (\<lambda>src_len.
     if sz > 0 then
       (let dst_len = (if src_len < sz - 1 then src_len else sz - 1)
        in Some (rbind (memcpy m dst src dst_len) (\<lambda>(_, m).
                 Inr (src_len, m(dst + of_nat dst_len := 0)))))
     else Some (Inr (src_len, m)))))"

definition strlcat :: "memory \<Rightarrow> addr \<Rightarrow> addr \<Rightarrow> nat \<Rightarrow> (nat \<times> memory) result option" where
  "strlcat m dst src sz =
     obind (oassert (dst \<noteq> NULL)) (\<lambda>_.
     obind (oassert (src \<noteq> NULL)) (\<lambda>_.
     obind (strlen m src) (\<lambda>src_len.
     obind (strlen m dst) (\<lambda>dst_len.
     if sz > 0 \<and> dst_len < sz then
       (let copy_cnt = (if src_len < sz - dst_len - 1 then src_len else sz - dst_len - 1)
        in Some (rbind (memcpy m (dst + of_nat dst_len) src copy_cnt) (\<lambda>(_, m).
                 Inr (sz_add src_len dst_len, m(dst + of_nat (sz_add dst_len copy_cnt) := 0)))))
     else Some (Inr (sz_add src_len dst_len, m))))))"

text \<open>
  \<open>strtok_r\<close>: the loop that skips delimiters gives the first other position, or the position
  of the terminator; the second loop finds the end of the token. The pointer variable
  \<open>*save_ptr\<close> is a value that is passed in and returned.
\<close>

partial_function (option) tok_skip :: "memory \<Rightarrow> addr \<Rightarrow> addr \<Rightarrow> (bool \<times> addr) result option" where
  "tok_skip m delimiters s =
     obind (strchr m delimiters (m s)) (\<lambda>q.
     if q \<noteq> NULL then (if m s = 0 then Some (Inr (False, s)) else tok_skip m delimiters (s + 1))
     else Some (Inr (True, s)))"

partial_function (option) tok_end :: "memory \<Rightarrow> addr \<Rightarrow> addr \<Rightarrow> addr result option" where
  "tok_end m delimiters s =
     obind (strchr m delimiters (m s)) (\<lambda>q.
     if q = NULL then tok_end m delimiters (s + 1) else Some (Inr s))"

definition strtok_r :: "memory \<Rightarrow> addr \<Rightarrow> addr \<Rightarrow> addr \<Rightarrow> (addr \<times> addr \<times> memory) result option" where
  "strtok_r m s delimiters save =
     obind (oassert (delimiters \<noteq> NULL)) (\<lambda>_.
     let s = (if s = NULL then save else s)
     in obind (oassert (s \<noteq> NULL)) (\<lambda>_.
        obind (tok_skip m delimiters s) (\<lambda>(found, s).
        if \<not> found then Some (Inr (NULL, s, m))
        else
          let token = s
          in obind (tok_end m delimiters s) (\<lambda>s.
             if m s \<noteq> 0 then Some (Inr (token, s + 1, m(s := 0)))
             else Some (Inr (token, s, m))))))"

section \<open>Strings as lists of bytes\<close>

text \<open>\<open>cstr m p xs\<close>: the bytes at \<open>p\<close> up to the first null byte are \<open>xs\<close>.\<close>

primrec cstr :: "memory \<Rightarrow> addr \<Rightarrow> byte list \<Rightarrow> bool" where
  "cstr m p [] \<longleftrightarrow> m p = 0"
| "cstr m p (x # xs) \<longleftrightarrow> m p = x \<and> x \<noteq> 0 \<and> cstr m (p + 1) xs"

lemma addr_Suc: "p + of_nat (Suc i) = p + 1 + of_nat i" for p :: addr
  by simp

lemma cstr_nth: "cstr m p xs \<Longrightarrow> i < length xs \<Longrightarrow> m (p + of_nat i) = xs ! i \<and> xs ! i \<noteq> 0"
proof (induction xs arbitrary: p i)
  case (Cons x xs)
  then show ?case by (cases i) (auto simp: addr_Suc simp del: of_nat_Suc)
qed simp

lemma cstr_end: "cstr m p xs \<Longrightarrow> m (p + of_nat (length xs)) = 0"
  by (induction xs arbitrary: p) (auto simp: addr_Suc simp del: of_nat_Suc)

lemma cstr_0: "cstr m p xs \<Longrightarrow> 0 \<notin> set xs"
  by (induction xs arbitrary: p) auto

lemma cstr_I:
  assumes "\<And>i. i < length xs \<Longrightarrow> m (p + of_nat i) = xs ! i" and "m (p + of_nat (length xs)) = 0" and "0 \<notin> set xs"
  shows "cstr m p xs"
  using assms
proof (induction xs arbitrary: p)
  case (Cons x xs)
  have "cstr m (p + 1) xs"
    using Cons.prems(1)[of "Suc i" for i] Cons.prems(2,3) by (intro Cons.IH) (auto simp: algebra_simps)
  then show ?case using Cons.prems(1)[of 0] Cons.prems(3) by auto
qed simp

lemma cstr_drop: "cstr m p xs \<Longrightarrow> n \<le> length xs \<Longrightarrow> cstr m (p + of_nat n) (drop n xs)"
proof (induction n arbitrary: p xs)
  case (Suc n)
  then obtain x ys where xs: "xs = x # ys" by (cases xs) auto
  then show ?case using Suc.IH[of "p + 1" ys] Suc.prems by (simp add: algebra_simps)
qed simp

lemma cstr_unique: "cstr m p xs \<Longrightarrow> cstr m p ys \<Longrightarrow> xs = ys"
proof (induction xs arbitrary: p ys)
  case Nil
  then show ?case by (cases ys) auto
next
  case (Cons x xs)
  then show ?case by (cases ys) auto
qed

text \<open>The terminator bounds the length, since the addresses repeat after \<open>2 ^ 32\<close> bytes.\<close>

lemma cstr_length:
  assumes "cstr m p xs"
  shows "length xs < 2 ^ 32"
proof (rule ccontr)
  let ?j = "length xs mod 2 ^ 32"
  assume long: "\<not> length xs < 2 ^ 32"
  have "?j < 2 ^ 32" by simp
  then have "?j < length xs" using long by linarith
  from cstr_nth[OF assms this] have "m (p + of_nat ?j) \<noteq> 0" by simp
  moreover have "of_nat ?j = (of_nat (length xs) :: addr)"
    by (simp add: word_unat_eq_iff unat_of_nat)
  ultimately show False using cstr_end[OF assms] by simp
qed

lemma strlen_loop_ok: "cstr m p xs \<Longrightarrow> strlen_loop m p = Some (p + of_nat (length xs))"
proof (induction xs arbitrary: p)
  case Nil
  then show ?case by (simp add: strlen_loop.simps[of m p])
next
  case (Cons x xs)
  then show ?case by (simp add: strlen_loop.simps[of m p] algebra_simps)
qed

lemma strlen_ok: "cstr m p xs \<Longrightarrow> p \<noteq> NULL \<Longrightarrow> strlen m p = Some (Inr (length xs))"
  using cstr_length[of m p xs] by (simp add: strlen_def strlen_loop_ok unat_of_nat)

lemma strnlen_ok:
  assumes "cstr m p xs" and "n < 2 ^ 32"
  shows "strnlen m p n = Some (min (length xs) n)"
proof -
  have "strnlen_loop m p n len = Some (min (length xs) n)" if "len \<le> min (length xs) n" for len
    using that
  proof (induction "min (length xs) n - len" arbitrary: len)
    case 0
    then have "len = length xs \<or> len = n" by auto
    then show ?case
      using 0 cstr_end[OF assms(1)] by (auto simp: strnlen_loop.simps[of m p n len])
  next
    case (Suc d)
    then have "len < length xs" "len < n" by auto
    then have "m (p + of_nat len) \<noteq> 0" "sz_add len 1 = Suc len"
      using cstr_nth[OF assms(1)] assms(2) by (auto simp: sz_add_exact)
    then show ?case
      using Suc.hyps(1)[of "Suc len"] Suc.hyps(2) \<open>len < length xs\<close> \<open>len < n\<close>
      by (simp add: strnlen_loop.simps[of m p n len])
  qed
  then show ?thesis by (simp add: strnlen_def)
qed

text \<open>\<open>strcmp\<close> orders strings lexicographically by unsigned bytes.\<close>

fun bytes_cmp :: "byte list \<Rightarrow> byte list \<Rightarrow> int" where
  "bytes_cmp [] [] = 0"
| "bytes_cmp [] (y # ys) = -1"
| "bytes_cmp (x # xs) [] = 1"
| "bytes_cmp (x # xs) (y # ys) = (if x < y then -1 else if x > y then 1 else bytes_cmp xs ys)"

lemma bytes_cmp_0_iff: "bytes_cmp xs ys = 0 \<longleftrightarrow> xs = ys"
  by (induction xs ys rule: bytes_cmp.induct) auto

lemma bytes_cmp_less_iff: "bytes_cmp xs ys < 0 \<longleftrightarrow> (xs, ys) \<in> lexord {(u, v). u < v}"
  by (induction xs ys rule: bytes_cmp.induct) auto

lemma strcmp_loop_ok:
  "cstr m a xs \<Longrightarrow> cstr m b ys \<Longrightarrow>
   \<exists>a' b'. strcmp_loop m a b = Some (a', b')
     \<and> (if m a' < m b' then -1 else if m a' > m b' then 1 else 0) = bytes_cmp xs ys"
proof (induction xs ys arbitrary: a b rule: bytes_cmp.induct)
  case 1
  then show ?case by (simp add: strcmp_loop.simps[of m a b])
next
  case (2 y ys)
  then show ?case by (simp add: strcmp_loop.simps[of m a b] word_gt_0)
next
  case (3 x xs)
  then show ?case by (simp add: strcmp_loop.simps[of m a b] word_gt_0)
next
  case (4 x xs y ys)
  then have ab: "m a = x" "m b = y" "x \<noteq> 0" "y \<noteq> 0" "cstr m (a + 1) xs" "cstr m (b + 1) ys" by auto
  note unf = strcmp_loop.simps[of m a b]
  show ?case
  proof (cases "x = y")
    case True
    then show ?thesis using 4(1)[OF _ _ ab(5,6)] ab by (simp add: unf)
  next
    case False
    then show ?thesis using ab by (simp add: unf)
  qed
qed

lemma strcmp_ok:
  assumes "cstr m a xs" "cstr m b ys" and "a \<noteq> NULL" "b \<noteq> NULL"
  shows "strcmp m a b = Some (Inr (bytes_cmp xs ys))"
  using strcmp_loop_ok[OF assms(1,2)] assms(3,4) by (auto simp: strcmp_def)

lemma strchr_loop_ok:
  assumes "cstr m p xs" and "c \<noteq> 0"
  shows "strchr_loop m p c =
    Some (if c \<in> set xs then p + of_nat (length (takeWhile ((\<noteq>) c) xs)) else NULL)"
  using assms(1)
proof (induction xs arbitrary: p)
  case Nil
  then show ?case using assms(2) by (simp add: strchr_loop.simps[of m p])
next
  case (Cons x xs)
  then show ?case by (auto simp: strchr_loop.simps[of m p] algebra_simps)
qed

lemma strchr_loop_null: "cstr m p xs \<Longrightarrow> strchr_loop m p 0 = Some (p + of_nat (length xs))"
proof (induction xs arbitrary: p)
  case Nil
  then show ?case by (simp add: strchr_loop.simps[of m p])
next
  case (Cons x xs)
  then show ?case by (auto simp: strchr_loop.simps[of m p] algebra_simps)
qed

text \<open>A string lies in memory below the null address, so a found position is not \<open>NULL\<close>.\<close>

definition str_at :: "memory \<Rightarrow> addr \<Rightarrow> byte list \<Rightarrow> bool" where
  "str_at m p xs \<longleftrightarrow> cstr m p xs \<and> p \<noteq> NULL \<and> unat p + length xs < 2 ^ 32"

lemma str_at_nonnull: "str_at m p xs \<Longrightarrow> i \<le> length xs \<Longrightarrow> p + of_nat i \<noteq> NULL"
  using unat_add_of_nat[of p i] by (auto simp: str_at_def NULL_def unat_eq_0[symmetric] simp del: unat_eq_0)

lemma str_at_drop: "str_at m p xs \<Longrightarrow> n \<le> length xs \<Longrightarrow> str_at m (p + of_nat n) (drop n xs)"
  using cstr_drop[of m p xs n] str_at_nonnull[of m p xs n] unat_add_of_nat[of p n] by (auto simp: str_at_def)

lemma strchr_ok:
  assumes "str_at m p xs"
  shows "\<exists>q. strchr m p c = Some (Inr q) \<and> (q \<noteq> NULL \<longleftrightarrow> c = 0 \<or> c \<in> set xs)"
proof (cases "c = 0")
  case True
  then show ?thesis
    using assms strchr_loop_null[of m p xs] str_at_nonnull[OF assms, of "length xs"]
    by (simp add: strchr_def str_at_def)
next
  case False
  have "length (takeWhile ((\<noteq>) c) xs) \<le> length xs" by (rule length_takeWhile_le)
  from str_at_nonnull[OF assms this] show ?thesis
    using False assms strchr_loop_ok[of m p xs c] by (auto simp: strchr_def str_at_def)
qed

lemma addr_add_inj: "i < 2 ^ 32 \<Longrightarrow> j < 2 ^ 32 \<Longrightarrow> p + of_nat i = p + of_nat j \<longleftrightarrow> i = j" for p :: addr
  by (subst add_left_cancel) (simp add: word_unat_eq_iff unat_of_nat)

lemma takeWhile_shorter: "c \<in> set ys \<Longrightarrow> length (takeWhile ((\<noteq>) c) ys) < length ys"
  by (induction ys) auto

lemma str_at_cstr: "str_at m p xs \<Longrightarrow> cstr m p xs"
  by (simp add: str_at_def)

lemma str_at_length: "str_at m p xs \<Longrightarrow> length xs < 2 ^ 32"
  by (simp add: str_at_def)

lemma strcspn_ok:
  assumes s: "str_at m s xs" and d: "str_at m stop ds"
  shows "strcspn m s stop = Some (Inr (length (takeWhile (\<lambda>c. c \<notin> set ds) xs)))"
proof -
  let ?n = "length (takeWhile (\<lambda>c. c \<notin> set ds) xs)"
  have "strcspn_loop m s stop len = Some (Inr ?n)" if "len \<le> ?n" for len
    using that
  proof (induction "?n - len" arbitrary: len)
    case 0
    then have len: "len = ?n" by simp
    show ?case
    proof (cases "len = length xs")
      case True
      then show ?thesis using len cstr_end[OF str_at_cstr[OF s]] by (simp add: strcspn_loop.simps[of m s stop "length xs"])
    next
      case False
      then have l: "len < length xs" using len length_takeWhile_le[of "\<lambda>c. c \<notin> set ds" xs] by linarith
      then have "xs ! len \<in> set ds" using nth_length_takeWhile[of "\<lambda>c. c \<notin> set ds" xs] len by simp
      then show ?thesis
        using cstr_nth[OF str_at_cstr[OF s] l] strchr_ok[OF d, of "xs ! len"]
        by (auto simp: strcspn_loop.simps[of m s stop len] simp flip: len)
    qed
  next
    case (Suc k)
    then have len: "len < ?n" by simp
    then have l: "len < length xs" using length_takeWhile_le[of "\<lambda>c. c \<notin> set ds" xs] by linarith
    have "xs ! len \<notin> set ds"
      using nth_mem[OF len] takeWhile_nth[OF len] by (auto dest: set_takeWhileD)
    moreover have "sz_add len 1 = Suc len" using l str_at_length[OF s] by (simp add: sz_add_exact)
    ultimately show ?case
      using cstr_nth[OF str_at_cstr[OF s] l] strchr_ok[OF d, of "xs ! len"] Suc.hyps(1)[of "Suc len"] Suc.hyps(2) len
      by (auto simp: strcspn_loop.simps[of m s stop len])
  qed
  then show ?thesis by (simp add: strcspn_def)
qed

lemma strspn_ok:
  assumes s: "str_at m s xs" and d: "str_at m skip ds"
  shows "strspn m s skip = Some (Inr (length (takeWhile (\<lambda>c. c \<in> set ds) xs)))"
proof -
  let ?n = "length (takeWhile (\<lambda>c. c \<in> set ds) xs)"
  have "strspn_loop m s skip len = Some (Inr ?n)" if "len \<le> ?n" for len
    using that
  proof (induction "?n - len" arbitrary: len)
    case 0
    then have len: "len = ?n" by simp
    show ?case
    proof (cases "len = length xs")
      case True
      then show ?thesis using len cstr_end[OF str_at_cstr[OF s]] by (simp add: strspn_loop.simps[of m s skip "length xs"])
    next
      case False
      then have l: "len < length xs" using len length_takeWhile_le[of "\<lambda>c. c \<in> set ds" xs] by linarith
      then have "xs ! len \<notin> set ds" using nth_length_takeWhile[of "\<lambda>c. c \<in> set ds" xs] len by simp
      then show ?thesis
        using cstr_nth[OF str_at_cstr[OF s] l] strchr_ok[OF d, of "xs ! len"]
        by (auto simp: strspn_loop.simps[of m s skip len] simp flip: len)
    qed
  next
    case (Suc k)
    then have len: "len < ?n" by simp
    then have l: "len < length xs" using length_takeWhile_le[of "\<lambda>c. c \<in> set ds" xs] by linarith
    have "xs ! len \<in> set ds"
      using nth_mem[OF len] takeWhile_nth[OF len] by (auto dest: set_takeWhileD)
    moreover have "sz_add len 1 = Suc len" using l str_at_length[OF s] by (simp add: sz_add_exact)
    ultimately show ?case
      using cstr_nth[OF str_at_cstr[OF s] l] strchr_ok[OF d, of "xs ! len"] Suc.hyps(1)[of "Suc len"] Suc.hyps(2) len
      by (auto simp: strspn_loop.simps[of m s skip len])
  qed
  then show ?thesis by (simp add: strspn_def)
qed

lemma strrchr_loop_ok:
  "cstr m s xs \<Longrightarrow> strrchr_loop m s c p =
    Some (if c \<in> set xs \<and> c \<noteq> 0 then s + of_nat (length xs - Suc (length (takeWhile ((\<noteq>) c) (rev xs)))) else p)"
proof (induction xs arbitrary: s p)
  case Nil
  then show ?case by (simp add: strrchr_loop.simps[of m s])
next
  case (Cons x xs)
  have step: "strrchr_loop m s c p = strrchr_loop m (s + 1) c (if x = c then s else p)"
    using Cons.prems by (simp add: strrchr_loop.simps[of m s])
  show ?case
  proof (cases "c \<in> set xs")
    case True
    then have "takeWhile ((\<noteq>) c) (rev xs @ [x]) = takeWhile ((\<noteq>) c) (rev xs)"
      by (intro takeWhile_append1[of c]) auto
    moreover have "length (takeWhile ((\<noteq>) c) (rev xs)) < length xs"
      using True takeWhile_shorter[of c "rev xs"] by simp
    moreover have "c \<noteq> 0" using True cstr_0 Cons.prems by auto
    ultimately show ?thesis
      using step Cons True by (auto simp: Suc_diff_Suc)
  next
    case False
    then have "takeWhile ((\<noteq>) c) (rev xs) = rev xs" by (auto simp: takeWhile_eq_all_conv)
    then show ?thesis
      using step Cons False by (auto simp: takeWhile_append)
  qed
qed

section \<open>Copying\<close>

lemma strlcpy_ok:
  assumes src: "cstr m src xs" and nn: "dst \<noteq> NULL" "src \<noteq> NULL" and sz: "0 < sz" "sz < 2 ^ 32"
  defines "k \<equiv> min (length xs) (sz - 1)"
  assumes disj: "\<And>x. \<not> (in_block dst k x \<and> in_block src k x)"
  shows "\<exists>m'. strlcpy m dst src sz = Some (Inr (length xs, m')) \<and> cstr m' dst (take (sz - 1) xs)
    \<and> (\<forall>x. \<not> in_block dst (Suc k) x \<longrightarrow> m' x = m x)"
proof -
  let ?m = "\<lambda>x. if in_block dst k x then m (src + (x - dst)) else m x"
  have k: "k < 2 ^ 32" "k \<le> length xs" "length (take (sz - 1) xs) = k" using sz by (auto simp: k_def)
  have cpy: "memcpy m dst src k = Inr (dst, ?m)" using memcpy_ok[of dst src k m] nn disj k by simp
  have "(if length xs < sz - 1 then length xs else sz - 1) = k" by (simp add: k_def)
  then have eq: "strlcpy m dst src sz = Some (Inr (length xs, ?m(dst + of_nat k := 0)))"
    using strlen_ok[OF src nn(2)] nn sz cpy by (simp add: strlcpy_def Let_def)
  have ne: "dst + of_nat i \<noteq> dst + of_nat k" if "i < k" for i
    using that k(1) addr_add_inj[of i k dst] by simp
  have "cstr (?m(dst + of_nat k := 0)) dst (take (sz - 1) xs)"
  proof (rule cstr_I)
    fix i assume "i < length (take (sz - 1) xs)"
    then have i: "i < k" unfolding k(3) .
    then show "(?m(dst + of_nat k := 0)) (dst + of_nat i) = take (sz - 1) xs ! i"
      using cstr_nth[OF src, of i] ne[OF i] k in_block_offset[of i k dst] by (simp add: k_def)
  qed (use k(3) cstr_0[OF src] in \<open>auto dest: in_set_takeD\<close>)
  moreover have "(?m(dst + of_nat k := 0)) x = m x" if "\<not> in_block dst (Suc k) x" for x
  proof -
    have "\<not> in_block dst k x" using that by (simp add: in_block_def)
    moreover have "x \<noteq> dst + of_nat k" using that k(1) by (auto simp: in_block_def unat_of_nat)
    ultimately show ?thesis by simp
  qed
  ultimately show ?thesis using eq by blast
qed

section \<open>Tokens\<close>

lemma tok_skip_ok:
  assumes d: "str_at m d ds"
  shows "str_at m s xs \<Longrightarrow> tok_skip m d s =
    Some (Inr (dropWhile (\<lambda>c. c \<in> set ds) xs \<noteq> [], s + of_nat (length xs - length (dropWhile (\<lambda>c. c \<in> set ds) xs))))"
proof (induction xs arbitrary: s)
  case Nil
  obtain q where q: "strchr m d (m s) = Some (Inr q)" "(q \<noteq> NULL) = (m s = 0 \<or> m s \<in> set ds)"
    using strchr_ok[OF d] by blast
  then show ?case using Nil by (simp add: tok_skip.simps[of m d s] str_at_def)
next
  case (Cons x xs)
  obtain q where q: "strchr m d (m s) = Some (Inr q)" "(q \<noteq> NULL) = (m s = 0 \<or> m s \<in> set ds)"
    using strchr_ok[OF d] by blast
  have x: "m s = x" "x \<noteq> 0" using Cons.prems by (auto simp: str_at_def)
  have next_s: "str_at m (s + 1) xs" using str_at_drop[OF Cons.prems, of 1] by simp
  show ?case
  proof (cases "x \<in> set ds")
    case True
    then have "tok_skip m d s = tok_skip m d (s + 1)" using q x by (simp add: tok_skip.simps[of m d s])
    then show ?thesis
      using Cons.IH[OF next_s] True length_dropWhile_le[of "\<lambda>c. c \<in> set ds" xs] by (simp add: Suc_diff_le)
  next
    case False
    then show ?thesis using q x by (simp add: tok_skip.simps[of m d s])
  qed
qed

lemma tok_end_ok:
  assumes d: "str_at m d ds"
  shows "str_at m s xs \<Longrightarrow> tok_end m d s = Some (Inr (s + of_nat (length (takeWhile (\<lambda>c. c \<notin> set ds) xs))))"
proof (induction xs arbitrary: s)
  case Nil
  obtain q where q: "strchr m d (m s) = Some (Inr q)" "(q \<noteq> NULL) = (m s = 0 \<or> m s \<in> set ds)"
    using strchr_ok[OF d] by blast
  then show ?case using Nil by (simp add: tok_end.simps[of m d s] str_at_def)
next
  case (Cons x xs)
  obtain q where q: "strchr m d (m s) = Some (Inr q)" "(q \<noteq> NULL) = (m s = 0 \<or> m s \<in> set ds)"
    using strchr_ok[OF d] by blast
  have x: "m s = x" "x \<noteq> 0" using Cons.prems by (auto simp: str_at_def)
  have next_s: "str_at m (s + 1) xs" using str_at_drop[OF Cons.prems, of 1] by simp
  show ?case
  proof (cases "x \<in> set ds")
    case True
    then show ?thesis using q x by (simp add: tok_end.simps[of m d s])
  next
    case False
    then have "tok_end m d s = tok_end m d (s + 1)" using q x by (simp add: tok_end.simps[of m d s])
    then show ?thesis using Cons.IH[OF next_s] False by simp
  qed
qed

text \<open>Writing a null byte inside a string cuts it in two.\<close>

lemma str_at_cut:
  assumes s: "str_at m s xs" and n: "n < length xs"
  shows "str_at (m(s + of_nat n := 0)) s (take n xs)"
    and "str_at (m(s + of_nat n := 0)) (s + of_nat n + 1) (drop (Suc n) xs)"
proof -
  note c = str_at_cstr[OF s]
  have ne: "s + of_nat i \<noteq> s + of_nat n" if "i \<le> length xs" "i \<noteq> n" for i
    using that n str_at_length[OF s] addr_add_inj[of i n s] by simp
  have "cstr (m(s + of_nat n := 0)) s (take n xs)"
    using n cstr_nth[OF c] cstr_0[OF c] ne by (intro cstr_I) (auto dest: in_set_takeD)
  then show "str_at (m(s + of_nat n := 0)) s (take n xs)" using s n by (simp add: str_at_def)
  have shift: "s + of_nat n + 1 + of_nat i = s + of_nat (Suc n + i)" for i by simp
  have "cstr (m(s + of_nat n := 0)) (s + of_nat n + 1) (drop (Suc n) xs)"
  proof (rule cstr_I)
    fix i assume "i < length (drop (Suc n) xs)"
    then show "(m(s + of_nat n := 0)) (s + of_nat n + 1 + of_nat i) = drop (Suc n) xs ! i"
      using ne[of "Suc n + i"] cstr_nth[OF c, of "Suc n + i"] unfolding shift by simp
  next
    show "(m(s + of_nat n := 0)) (s + of_nat n + 1 + of_nat (length (drop (Suc n) xs))) = 0"
      using n cstr_end[OF c] unfolding shift by simp
  qed (use cstr_0[OF c] in \<open>auto dest: in_set_dropD\<close>)
  moreover have "str_at m (s + of_nat (Suc n)) (drop (Suc n) xs)" using str_at_drop[OF s, of "Suc n"] n by simp
  ultimately show "str_at (m(s + of_nat n := 0)) (s + of_nat n + 1) (drop (Suc n) xs)"
    by (simp add: str_at_def algebra_simps)
qed

text \<open>
  One call of \<open>strtok_r\<close> on the string \<open>xs\<close>: \<open>NULL\<close> when only delimiters are left; otherwise
  the token is the longest run without delimiters after the leading ones, and the saved
  pointer holds what follows the delimiter that ended it.
\<close>

lemma strtok_r_ok:
  fixes s save d :: addr and m :: memory and xs ds :: "byte list"
  assumes s: "str_at m (if s = NULL then save else s) xs" and d: "str_at m d ds"
  defines "ys \<equiv> dropWhile (\<lambda>c. c \<in> set ds) xs"
  defines "t \<equiv> takeWhile (\<lambda>c. c \<notin> set ds) ys"
  shows "\<exists>tok save' m'. strtok_r m s d save = Some (Inr (tok, save', m'))
    \<and> (if ys = [] then tok = NULL \<and> m' = m \<and> str_at m' save' []
       else tok = (if s = NULL then save else s) + of_nat (length xs - length ys)
         \<and> str_at m' tok t \<and> str_at m' save' (drop (Suc (length t)) ys))"
proof -
  let ?s = "if s = NULL then save else s"
  let ?p = "?s + of_nat (length xs - length ys)"
  have nn: "d \<noteq> NULL" "?s \<noteq> NULL" using s d by (auto simp: str_at_def)
  have le: "length ys \<le> length xs" by (simp add: ys_def length_dropWhile_le)
  have "ys = drop (length xs - length ys) xs" unfolding ys_def
    by (metis append_eq_conv_conj length_append add_diff_cancel_right' takeWhile_dropWhile_id)
  then have p: "str_at m ?p ys" using str_at_drop[OF s, of "length xs - length ys"] le by simp
  have skip: "tok_skip m d ?s = Some (Inr (ys \<noteq> [], ?p))" unfolding ys_def by (rule tok_skip_ok[OF d s])
  have tok_end: "tok_end m d ?p = Some (Inr (?p + of_nat (length t)))" unfolding t_def by (rule tok_end_ok[OF d p])
  show ?thesis
  proof (cases "ys = []")
    case True
    then show ?thesis using nn skip p by (simp add: strtok_r_def Let_def)
  next
    case ys: False
    show ?thesis
    proof (cases "length t < length ys")
      case True
      then have "m (?p + of_nat (length t)) \<noteq> 0" using cstr_nth[OF str_at_cstr[OF p]] by simp
      then have "strtok_r m s d save = Some (Inr (?p, ?p + of_nat (length t) + 1, m(?p + of_nat (length t) := 0)))"
        using nn skip tok_end ys by (simp add: strtok_r_def Let_def)
      moreover have "take (length t) ys = t" unfolding t_def by (metis append_eq_conv_conj takeWhile_dropWhile_id)
      ultimately show ?thesis using str_at_cut[OF p True] ys by simp
    next
      case False
      then have t: "t = ys" unfolding t_def by (metis length_takeWhile_le nat_less_le not_less takeWhile_eq_take take_all)
      then have "m (?p + of_nat (length t)) = 0" using cstr_end[OF str_at_cstr[OF p]] by simp
      then have "strtok_r m s d save = Some (Inr (?p, ?p + of_nat (length t), m))"
        using nn skip tok_end ys by (simp add: strtok_r_def Let_def)
      moreover have "str_at m (?p + of_nat (length t)) []" using str_at_drop[OF p, of "length ys"] t by simp
      ultimately show ?thesis using p t ys by simp
    qed
  qed
qed

section \<open>Searching for a string\<close>

lemma memcmp_prefix:
  assumes h: "str_at m h xs" and n: "str_at m n ys" and i: "i + length ys \<le> length xs"
  shows "\<exists>c. memcmp m (h + of_nat i) n (length ys) = Inr c \<and> (c = 0 \<longleftrightarrow> take (length ys) (drop i xs) = ys)"
proof -
  have "h + of_nat i \<noteq> NULL" "n \<noteq> NULL" using str_at_nonnull[OF h, of i] n i by (auto simp: str_at_def)
  moreover have "m (h + of_nat i + of_nat k) = m (n + of_nat k) \<longleftrightarrow> drop i xs ! k = ys ! k" if "k < length ys" for k
    using cstr_nth[OF str_at_cstr[OF h], of "i + k"] cstr_nth[OF str_at_cstr[OF n] that] that i
    by (simp add: add.assoc)
  then have "memcmp_loop m (h + of_nat i) n (length ys) = 0 \<longleftrightarrow> take (length ys) (drop i xs) = ys"
    using i by (auto simp: memcmp_loop_0_iff list_eq_iff_nth_eq)
  ultimately show ?thesis by (simp add: memcmp_def)
qed

lemma strstr_loop_ok:
  assumes h: "str_at m h xs" and n: "str_at m n ys"
  shows "(\<And>i. i \<in> set is \<Longrightarrow> i + length ys \<le> length xs) \<Longrightarrow> strstr_loop m h n (length ys) is =
    Inr (case find (\<lambda>i. take (length ys) (drop i xs) = ys) is of Some i \<Rightarrow> h + of_nat i | None \<Rightarrow> NULL)"
proof (induction "is")
  case (Cons i "is")
  obtain c where "memcmp m (h + of_nat i) n (length ys) = Inr c" "c = 0 \<longleftrightarrow> take (length ys) (drop i xs) = ys"
    using memcmp_prefix[OF h n] Cons.prems[of i] by auto
  then show ?case using Cons by simp
qed simp

lemma strstr_ok:
  assumes h: "str_at m h xs" and n: "str_at m n ys"
  shows "strstr m h n = Some (Inr (if length ys \<le> length xs then
     (case find (\<lambda>i. take (length ys) (drop i xs) = ys) [0..<Suc (length xs - length ys)] of
        Some i \<Rightarrow> h + of_nat i | None \<Rightarrow> NULL) else NULL))"
proof -
  have "strlen m h = Some (Inr (length xs))" "strlen m n = Some (Inr (length ys))"
    using strlen_ok h n by (auto simp: str_at_def)
  then show ?thesis
    using strstr_loop_ok[OF h n, of "[0..<Suc (length xs - length ys)]"] by (auto simp: strstr_def simp del: upt_Suc)
qed

section \<open>Concatenation\<close>

text \<open>
  \<open>strlcat\<close> into a buffer of \<open>sz\<close> bytes appends as much of the source as fits, terminates
  the result, and returns the length the whole would have.
\<close>

lemma strlcat_ok:
  assumes d: "str_at m dst ys" and s: "str_at m src xs" and sz: "length ys < sz" "unat dst + sz \<le> 2 ^ 32"
    and len: "length xs + length ys < 2 ^ 32"
  defines "k \<equiv> min (length xs) (sz - length ys - 1)"
  assumes disj: "\<And>x. \<not> (in_block (dst + of_nat (length ys)) k x \<and> in_block src k x)"
  shows "\<exists>m'. strlcat m dst src sz = Some (Inr (length xs + length ys, m')) \<and> cstr m' dst (ys @ take k xs)"
proof -
  let ?e = "dst + of_nat (length ys)"
  let ?m = "\<lambda>x. if in_block ?e k x then m (src + (x - ?e)) else m x"
  let ?m' = "?m(dst + of_nat (length ys + k) := 0)"
  have k: "k < 2 ^ 32" "k \<le> length xs" "length ys + k < sz" using len sz by (auto simp: k_def)
  have cpy: "memcpy m ?e src k = Inr (?e, ?m)"
    using memcpy_ok[of ?e src k m] str_at_nonnull[OF d, of "length ys"] s disj k by (simp add: str_at_def)
  have add: "sz_add (length xs) (length ys) = length xs + length ys" "sz_add (length ys) k = length ys + k"
    using len k by (auto simp: sz_add_exact)
  have cnt: "(if length xs < sz - length ys - 1 then length xs else sz - length ys - 1) = k" by (simp add: k_def)
  have "strlen m src = Some (Inr (length xs))" "strlen m dst = Some (Inr (length ys))" "dst \<noteq> NULL" "src \<noteq> NULL"
    using strlen_ok d s by (auto simp: str_at_def)
  then have eq: "strlcat m dst src sz = Some (Inr (length xs + length ys, ?m'))"
    using sz(1) cpy add cnt by (simp add: strlcat_def Let_def)
  have inj: "dst + of_nat i \<noteq> dst + of_nat (length ys + k)" if "i < length ys + k" for i
    using that k sz addr_add_inj[of i "length ys + k" dst] by simp
  have low: "\<not> in_block ?e k (dst + of_nat i)" if "i < length ys" for i
  proof
    assume "in_block ?e k (dst + of_nat i)"
    then obtain j where "j < k" "dst + of_nat i = dst + of_nat (length ys + j)"
      using in_block_iff[of k ?e "dst + of_nat i"] k by (auto simp: add.assoc)
    then show False using that k sz addr_add_inj[of i "length ys + j" dst] by simp
  qed
  have "cstr ?m' dst (ys @ take k xs)"
  proof (rule cstr_I)
    fix i assume i: "i < length (ys @ take k xs)"
    then have lt: "i < length ys + k" using k by simp
    show "?m' (dst + of_nat i) = (ys @ take k xs) ! i"
    proof (cases "i < length ys")
      case True
      then show ?thesis
        using inj[OF lt] low cstr_nth[OF str_at_cstr[OF d] True] by (simp add: nth_append)
    next
      case False
      then obtain j where j: "i = length ys + j" "j < k" using lt by (metis add_diff_inverse_nat nat_add_left_cancel_less)
      then have "dst + of_nat i = ?e + of_nat j" by simp
      then show ?thesis
        using inj[OF lt] j k in_block_offset[of j k ?e] cstr_nth[OF str_at_cstr[OF s], of j] by (simp add: nth_append add.assoc)
    qed
  qed (use k cstr_0[OF str_at_cstr[OF s]] cstr_0[OF str_at_cstr[OF d]] in \<open>auto dest: in_set_takeD\<close>)
  then show ?thesis using eq by blast
qed

section \<open>Properties of the block and string functions\<close>

text \<open>
  C27. \<open>memmove\<close> copies the source block as it was before the call, for every overlap of two
  blocks that do not wrap around the address space, and changes no other byte. It returns
  the destination only when it copies downwards: upwards it returns the end of the block.
\<close>

theorem memmove_copies:
  assumes "dst \<noteq> NULL" "src \<noteq> NULL" and "unat dst + n \<le> 2 ^ 32" "unat src + n \<le> 2 ^ 32"
  shows "\<exists>r m'. memmove m dst src n = Inr (r, m')
    \<and> (\<forall>i<n. m' (dst + of_nat i) = m (src + of_nat i))
    \<and> (\<forall>x. \<not> in_block dst n x \<longrightarrow> m' x = m x)
    \<and> r = (if dst < src then dst + of_nat n else dst)"
  using memmove_bytes[OF assms, of m] in_block_offset[of _ n dst] assms(3) by simp

theorem memmove_copies_witness:
  "\<exists>r m'. memmove (\<lambda>x. if x = 0x1001 then 7 else 0) 0x1000 0x1001 4 = Inr (r, m') \<and> m' 0x1000 = 7 \<and> r = 0x1004"
  using memmove_copies[of "0x1000" "0x1001" 4 "\<lambda>x. if x = 0x1001 then 7 else 0"] by (auto simp: NULL_def dest: spec[of _ 0])

text \<open>
  C28. \<open>strlcpy\<close> into a buffer of \<open>sz > 0\<close> bytes that does not overlap the copied bytes leaves
  the first \<open>sz - 1\<close> bytes of the source there, null-terminated, writes nothing after the
  terminator and returns the full length of the source.
\<close>

theorem strlcpy_truncates:
  assumes "cstr m src xs" and "dst \<noteq> NULL" "src \<noteq> NULL" and "0 < sz" "sz < 2 ^ 32"
    and "\<forall>x. \<not> (in_block dst (min (length xs) (sz - 1)) x \<and> in_block src (min (length xs) (sz - 1)) x)"
  shows "\<exists>m'. strlcpy m dst src sz = Some (Inr (length xs, m')) \<and> cstr m' dst (take (sz - 1) xs)
    \<and> (\<forall>x. \<not> in_block dst sz x \<longrightarrow> m' x = m x)"
proof -
  let ?k = "min (length xs) (sz - 1)"
  obtain m' where m': "strlcpy m dst src sz = Some (Inr (length xs, m'))" "cstr m' dst (take (sz - 1) xs)"
      "\<And>x. \<not> in_block dst (Suc ?k) x \<Longrightarrow> m' x = m x"
    using strlcpy_ok[OF assms(1-5)] assms(6) by blast
  moreover have "\<not> in_block dst sz x \<Longrightarrow> \<not> in_block dst (Suc ?k) x" for x
    using assms(4) by (auto simp: in_block_def)
  ultimately show ?thesis by blast
qed

definition ex_mem :: memory where
  "ex_mem = (\<lambda>x. if x = 0x1000 then 32 else if x = 0x1001 then 97 else if x = 0x1002 then 98 else if x = 0x1003 then 32
     else if x = 0x1004 then 99 else if x = 0x2000 then 32 else 0)"

lemma ex_mem_str: "str_at ex_mem 0x1000 [32, 97, 98, 32, 99]" "str_at ex_mem 0x2000 [32]"
  by (simp_all add: str_at_def ex_mem_def NULL_def)

theorem strlcpy_truncates_witness:
  "\<exists>m'. strlcpy ex_mem 0x3000 0x1000 3 = Some (Inr (length [32, 97, 98, 32, 99 :: byte], m')) \<and> cstr m' 0x3000 [32, 97]"
proof -
  let ?xs = "[32, 97, 98, 32, 99 :: byte]"
  have two: "min (length ?xs) (3 - 1) = 2" "take (3 - 1) ?xs = [32, 97]" by simp_all
  have "\<not> (in_block 0x3000 2 x \<and> in_block 0x1000 2 x)" for x
    using in_block_iff[of 2 "0x3000" x] in_block_iff[of 2 "0x1000" x] by (auto simp: less_2_cases_iff)
  then show ?thesis
    using strlcpy_truncates[OF str_at_cstr[OF ex_mem_str(1)], of "0x3000" 3] unfolding two by (auto simp: NULL_def)
qed

text \<open>
  C29. \<open>strtok_r\<close> on a string \<open>xs\<close> with delimiters \<open>ds\<close> returns \<open>NULL\<close> exactly when \<open>xs\<close> has
  only delimiters; otherwise the token is the nonempty longest run of other bytes after the
  leading delimiters, now a string of its own, and the saved pointer is a string holding
  what follows the delimiter that ended the token.
\<close>

theorem strtok_r_token:
  fixes xs ds :: "byte list"
  assumes "str_at m (if s = NULL then save else s) xs" and "str_at m d ds"
  defines "ys \<equiv> dropWhile (\<lambda>c. c \<in> set ds) xs"
  defines "t \<equiv> takeWhile (\<lambda>c. c \<notin> set ds) ys"
  shows "\<exists>tok save' m'. strtok_r m s d save = Some (Inr (tok, save', m'))
    \<and> (tok = NULL \<longleftrightarrow> set xs \<subseteq> set ds)
    \<and> (tok \<noteq> NULL \<longrightarrow> t \<noteq> [] \<and> str_at m' tok t \<and> str_at m' save' (drop (Suc (length t)) ys))"
proof -
  obtain tok save' m' where eq: "strtok_r m s d save = Some (Inr (tok, save', m'))"
      and res: "if ys = [] then tok = NULL \<and> m' = m \<and> str_at m' save' []
       else tok = (if s = NULL then save else s) + of_nat (length xs - length ys)
         \<and> str_at m' tok t \<and> str_at m' save' (drop (Suc (length t)) ys)"
    using strtok_r_ok[OF assms(1,2)] unfolding ys_def t_def by blast
  have ys: "ys = [] \<longleftrightarrow> set xs \<subseteq> set ds" by (auto simp: ys_def dropWhile_eq_Nil_conv)
  have "ys \<noteq> [] \<Longrightarrow> t \<noteq> []"
    using hd_dropWhile[of "\<lambda>c. c \<in> set ds" xs] by (cases ys) (auto simp: t_def ys_def)
  then show ?thesis using eq res ys by (auto simp: str_at_def split: if_splits)
qed

theorem strtok_r_token_witness:
  "\<exists>tok save' m'. strtok_r ex_mem 0x1000 0x2000 NULL = Some (Inr (tok, save', m'))
     \<and> str_at m' tok [97, 98] \<and> str_at m' save' [99]"
  using strtok_r_token[of ex_mem "0x1000" NULL "[32, 97, 98, 32, 99]" "0x2000" "[32]"] ex_mem_str by (auto simp: NULL_def)

end
