(* ===== verification/Stdlib.thy ===== *)
theory Stdlib
  imports CString "HOL-Library.Multiset"
begin

text \<open>
  The C library functions of \<open>src/lib/stdlib.c\<close> (\<open>atoi\<close>, heap sort, binary search) and the
  character classes of \<open>src/lib/ctype.h\<close>. Arrays are blocks of bytes in memory and a
  comparison function reads two of them. Heap sort is shown to refine a heap sort on
  sequences, which sorts for every comparison that meets the contract \<open>comparator\<close>.
\<close>

section \<open>Character classes\<close>

text \<open>The functions of \<open>src/lib/ctype.h\<close> take an \<open>int\<close>.\<close>

definition islower :: "int \<Rightarrow> bool" where "islower c \<longleftrightarrow> c \<ge> 97 \<and> c \<le> 122"
definition isupper :: "int \<Rightarrow> bool" where "isupper c \<longleftrightarrow> c \<ge> 65 \<and> c \<le> 90"
definition isalpha :: "int \<Rightarrow> bool" where "isalpha c \<longleftrightarrow> islower c \<or> isupper c"
definition isdigit :: "int \<Rightarrow> bool" where "isdigit c \<longleftrightarrow> c \<ge> 48 \<and> c \<le> 57"
definition isalnum :: "int \<Rightarrow> bool" where "isalnum c \<longleftrightarrow> isalpha c \<or> isdigit c"
definition isxdigit :: "int \<Rightarrow> bool" where
  "isxdigit c \<longleftrightarrow> isdigit c \<or> (c \<ge> 97 \<and> c \<le> 102) \<or> (c \<ge> 65 \<and> c \<le> 70)"
definition isspace :: "int \<Rightarrow> bool" where
  "isspace c \<longleftrightarrow> c = 32 \<or> c = 12 \<or> c = 10 \<or> c = 13 \<or> c = 9 \<or> c = 11"
definition isblank :: "int \<Rightarrow> bool" where "isblank c \<longleftrightarrow> c = 32 \<or> c = 9"
definition isgraph :: "int \<Rightarrow> bool" where "isgraph c \<longleftrightarrow> c > 32 \<and> c < 127"
definition isprint :: "int \<Rightarrow> bool" where "isprint c \<longleftrightarrow> c \<ge> 32 \<and> c < 127"
definition iscntrl :: "int \<Rightarrow> bool" where "iscntrl c \<longleftrightarrow> (c \<ge> 0 \<and> c < 32) \<or> c = 127"
definition isascii :: "int \<Rightarrow> bool" where "isascii c \<longleftrightarrow> c \<ge> 0 \<and> c < 128"
definition ispunct :: "int \<Rightarrow> bool" where "ispunct c \<longleftrightarrow> isprint c \<and> \<not> isalnum c \<and> \<not> isspace c"
definition tolower :: "int \<Rightarrow> int" where "tolower c = (if isupper c then c - 65 + 97 else c)"
definition toupper :: "int \<Rightarrow> int" where "toupper c = (if islower c then c - 97 + 65 else c)"

section \<open>Numbers\<close>

text \<open>
  The value is an \<open>int\<close> of 32 bits, whose overflow is left to the wrap-around of the
  processor; the digits are read as \<open>char\<close>, a signed byte.
\<close>

partial_function (option) atoi_skip :: "memory \<Rightarrow> addr \<Rightarrow> addr option" where
  "atoi_skip m s = (if isspace (uint (m s)) then atoi_skip m (s + 1) else Some s)"

partial_function (option) atoi_digits :: "memory \<Rightarrow> addr \<Rightarrow> 32 word \<Rightarrow> (32 word) option" where
  "atoi_digits m s value =
    (if isdigit (sint (m s)) then atoi_digits m (s + 1) (value * 10 - word_of_int (sint (m s) - 48))
     else Some value)"

definition atoi :: "memory \<Rightarrow> addr \<Rightarrow> (32 word) result option" where
  "atoi m s = obind (oassert (s \<noteq> NULL)) (\<lambda>_.
     Option.bind (atoi_skip m s) (\<lambda>s.
     let (negative, s) = (if m s = 43 then (False, s + 1) else if m s = 45 then (True, s + 1) else (False, s))
     in Option.bind (atoi_digits m s 0) (\<lambda>value. Some (Inr (if \<not> negative then - value else value)))))"

section \<open>Sorting and searching\<close>

text \<open>
  A comparison function gets two addresses and the auxiliary data and returns a
  \<open>strcmp\<close>-type result; it reads the elements from the memory.
\<close>

type_synonym 'aux compare_func = "memory \<Rightarrow> addr \<Rightarrow> addr \<Rightarrow> 'aux \<Rightarrow> int"

definition compare_thunk :: "(memory \<Rightarrow> addr \<Rightarrow> addr \<Rightarrow> int) compare_func" where
  "compare_thunk m a b aux = aux m a b"

text \<open>The address of the element with a 1-based index, in wrapping pointer arithmetic.\<close>

definition elem_ptr :: "addr \<Rightarrow> nat \<Rightarrow> nat \<Rightarrow> addr" where
  "elem_ptr array idx sz = array + of_nat (sz_mul (sz_sub idx 1) sz)"

definition do_swap :: "addr \<Rightarrow> nat \<Rightarrow> nat \<Rightarrow> nat \<Rightarrow> memory \<Rightarrow> memory" where
  "do_swap array a_idx b_idx sz m =
    (let a = elem_ptr array a_idx sz; b = elem_ptr array b_idx sz
     in fold (\<lambda>i m. let t = m (a + of_nat i); m = m(a + of_nat i := m (b + of_nat i)) in m(b + of_nat i := t)) [0..<sz] m)"

definition do_compare :: "'aux compare_func \<Rightarrow> 'aux \<Rightarrow> memory \<Rightarrow> addr \<Rightarrow> nat \<Rightarrow> nat \<Rightarrow> nat \<Rightarrow> int" where
  "do_compare compare aux m array a_idx b_idx sz =
    compare m (elem_ptr array a_idx sz) (elem_ptr array b_idx sz) aux"

text \<open>The index of the largest element among \<open>i\<close> and its children, if any.\<close>

definition largest :: "'aux compare_func \<Rightarrow> 'aux \<Rightarrow> addr \<Rightarrow> nat \<Rightarrow> nat \<Rightarrow> nat \<Rightarrow> memory \<Rightarrow> nat" where
  "largest compare aux array i cnt sz m =
    (let left = sz_mul 2 i;
         right = sz_add (sz_mul 2 i) 1;
         mx = i;
         mx = (if left \<le> cnt \<and> do_compare compare aux m array left mx sz > 0 then left else mx);
         mx = (if right \<le> cnt \<and> do_compare compare aux m array right mx sz > 0 then right else mx)
     in mx)"

partial_function (option) heapify ::
  "'aux compare_func \<Rightarrow> 'aux \<Rightarrow> addr \<Rightarrow> nat \<Rightarrow> nat \<Rightarrow> nat \<Rightarrow> memory \<Rightarrow> memory option" where
  "heapify compare aux array i cnt sz m =
    (let mx = largest compare aux array i cnt sz m
     in if mx = i then Some m
        else heapify compare aux array mx cnt sz (do_swap array i mx sz m))"

primrec build_heap ::
  "'aux compare_func \<Rightarrow> 'aux \<Rightarrow> addr \<Rightarrow> nat \<Rightarrow> nat \<Rightarrow> nat \<Rightarrow> memory \<Rightarrow> memory option" where
  "build_heap compare aux array cnt sz 0 m = Some m"
| "build_heap compare aux array cnt sz (Suc i) m =
     Option.bind (heapify compare aux array (Suc i) cnt sz m) (build_heap compare aux array cnt sz i)"

fun sort_heap ::
  "'aux compare_func \<Rightarrow> 'aux \<Rightarrow> addr \<Rightarrow> nat \<Rightarrow> nat \<Rightarrow> memory \<Rightarrow> memory option" where
  "sort_heap compare aux array sz i m =
    (if i > 1 then
       Option.bind (heapify compare aux array 1 (i - 1) sz (do_swap array 1 i sz m))
         (sort_heap compare aux array sz (i - 1))
     else Some m)"

definition sort_array ::
  "'aux compare_func \<Rightarrow> 'aux \<Rightarrow> addr \<Rightarrow> nat \<Rightarrow> nat \<Rightarrow> memory \<Rightarrow> memory result option" where
  "sort_array compare aux array cnt sz m =
     obind (oassert (array \<noteq> NULL \<or> cnt = 0)) (\<lambda>_.
     obind (oassert (sz > 0)) (\<lambda>_.
     Option.bind (build_heap compare aux array cnt sz (cnt div 2) m) (\<lambda>m.
     Option.bind (sort_heap compare aux array sz cnt m) (\<lambda>m. Some (Inr m)))))"

definition qsort :: "(memory \<Rightarrow> addr \<Rightarrow> addr \<Rightarrow> int) \<Rightarrow> addr \<Rightarrow> nat \<Rightarrow> nat \<Rightarrow> memory \<Rightarrow> memory result option" where
  "qsort compare array cnt sz m = sort_array compare_thunk compare array cnt sz m"

partial_function (option) search_loop ::
  "'aux compare_func \<Rightarrow> 'aux \<Rightarrow> memory \<Rightarrow> addr \<Rightarrow> nat \<Rightarrow> addr \<Rightarrow> addr \<Rightarrow> addr option" where
  "search_loop compare aux m key sz first_p last_p =
    (if first_p < last_p then
       let range = unat (last_p - first_p) div sz;
           middle = first_p + of_nat (sz_mul (range div 2) sz);
           cmp = compare m key middle aux
       in if cmp < 0 then search_loop compare aux m key sz first_p middle
          else if cmp > 0 then search_loop compare aux m key sz (middle + of_nat sz) last_p
          else Some middle
     else Some NULL)"

definition binary_search :: "'aux compare_func \<Rightarrow> 'aux \<Rightarrow> memory \<Rightarrow> addr \<Rightarrow> addr \<Rightarrow> nat \<Rightarrow> nat \<Rightarrow> addr option" where
  "binary_search compare aux m key array cnt sz =
     search_loop compare aux m key sz array (array + of_nat (sz_mul sz cnt))"

definition bsearch :: "(memory \<Rightarrow> addr \<Rightarrow> addr \<Rightarrow> int) \<Rightarrow> memory \<Rightarrow> addr \<Rightarrow> addr \<Rightarrow> nat \<Rightarrow> nat \<Rightarrow> addr option" where
  "bsearch compare m key array cnt sz = binary_search compare_thunk compare m key array cnt sz"

section \<open>Heap sort on sequences\<close>

text \<open>The contract of a comparison function: a total preorder with consistent signs.\<close>

locale comparator =
  fixes cmp :: "'e \<Rightarrow> 'e \<Rightarrow> int"
  assumes cmp_sym: "cmp a b > 0 \<longleftrightarrow> cmp b a < 0"
    and cmp_trans: "cmp a b \<le> 0 \<Longrightarrow> cmp b c \<le> 0 \<Longrightarrow> cmp a c \<le> 0"

definition swap1 :: "nat \<Rightarrow> nat \<Rightarrow> 'e list \<Rightarrow> 'e list" where
  "swap1 a b xs = xs[a - 1 := xs ! (b - 1), b - 1 := xs ! (a - 1)]"

abbreviation at1 :: "'e list \<Rightarrow> nat \<Rightarrow> 'e" where
  "at1 xs k \<equiv> xs ! (k - 1)"

definition max_child :: "('e \<Rightarrow> 'e \<Rightarrow> int) \<Rightarrow> nat \<Rightarrow> nat \<Rightarrow> 'e list \<Rightarrow> nat" where
  "max_child cmp i n xs =
    (let mx = (if 2 * i \<le> n \<and> cmp (at1 xs (2 * i)) (at1 xs i) > 0 then 2 * i else i)
     in if 2 * i + 1 \<le> n \<and> cmp (at1 xs (2 * i + 1)) (at1 xs mx) > 0 then 2 * i + 1 else mx)"

lemma max_child_range: "max_child cmp i n xs = i \<or> i < max_child cmp i n xs \<and> max_child cmp i n xs \<le> n \<and> max_child cmp i n xs div 2 = i"
  if "1 \<le> i"
  using that by (auto simp: max_child_def Let_def)

function lheapify :: "('e \<Rightarrow> 'e \<Rightarrow> int) \<Rightarrow> nat \<Rightarrow> nat \<Rightarrow> 'e list \<Rightarrow> 'e list" where
  "lheapify cmp i n xs =
    (let mx = max_child cmp i n xs in if mx = i \<or> i = 0 then xs else lheapify cmp mx n (swap1 i mx xs))"
  by pat_completeness auto
termination
proof (relation "measure (\<lambda>(_, i, n, _). n - i)", goal_cases)
  case (2 cmp i n xs mx)
  then show ?case using max_child_range[of i cmp n xs] by auto
qed simp

declare lheapify.simps [simp del]

definition heap_above :: "('e \<Rightarrow> 'e \<Rightarrow> int) \<Rightarrow> nat \<Rightarrow> nat \<Rightarrow> 'e list \<Rightarrow> bool" where
  "heap_above cmp j n xs \<longleftrightarrow> (\<forall>k\<in>{2..n}. j \<le> k div 2 \<longrightarrow> cmp (at1 xs k) (at1 xs (k div 2)) \<le> 0)"

text \<open>The heap property with a hole at \<open>i\<close>, whose children are below its parent.\<close>

definition heap_hole :: "('e \<Rightarrow> 'e \<Rightarrow> int) \<Rightarrow> nat \<Rightarrow> nat \<Rightarrow> nat \<Rightarrow> 'e list \<Rightarrow> bool" where
  "heap_hole cmp i j n xs \<longleftrightarrow>
     (\<forall>k\<in>{2..n}. j \<le> k div 2 \<longrightarrow> k div 2 \<noteq> i \<longrightarrow> cmp (at1 xs k) (at1 xs (k div 2)) \<le> 0)
   \<and> (\<forall>k\<in>{2..n}. k div 2 = i \<longrightarrow> j \<le> i div 2 \<longrightarrow> 1 \<le> i div 2 \<longrightarrow> cmp (at1 xs k) (at1 xs (i div 2)) \<le> 0)"

lemma length_swap1 [simp]: "length (swap1 a b xs) = length xs"
  by (simp add: swap1_def)

lemma at1_swap1:
  assumes "1 \<le> a" "a \<le> length xs" "1 \<le> b" "b \<le> length xs" "1 \<le> k"
  shows "at1 (swap1 a b xs) k = (if k = b then at1 xs a else if k = a then at1 xs b else at1 xs k)"
proof -
  obtain a' b' k' where [simp]: "a = Suc a'" "b = Suc b'" "k = Suc k'"
    using assms(1,3,5) by (metis Suc_le_D One_nat_def)
  show ?thesis using assms(2,4) by (simp add: swap1_def nth_list_update)
qed

lemma mset_swap1: "1 \<le> a \<Longrightarrow> a \<le> length xs \<Longrightarrow> 1 \<le> b \<Longrightarrow> b \<le> length xs \<Longrightarrow> mset (swap1 a b xs) = mset xs"
  by (simp add: swap1_def mset_swap)

context comparator
begin

lemma cmp_refl: "cmp a a \<le> 0"
  using cmp_sym[of a a] by linarith

lemma cmp_total: "cmp a b > 0 \<Longrightarrow> cmp b a \<le> 0"
  using cmp_sym[of a b] by linarith

lemma max_child_ge:
  assumes "1 \<le> i" and "k \<in> {2..n}" and "k div 2 = i"
  shows "cmp (at1 xs k) (at1 xs (max_child cmp i n xs)) \<le> 0"
proof -
  have "k = 2 * i \<or> k = 2 * i + 1" using assms(3) by presburger
  then show ?thesis
    using assms(2) cmp_refl cmp_total cmp_trans[of "at1 xs (2 * i)" "at1 xs i" "at1 xs (2 * i + 1)"]
    by (auto simp: max_child_def Let_def not_less)
qed

lemma max_child_self: "1 \<le> i \<Longrightarrow> cmp (at1 xs i) (at1 xs (max_child cmp i n xs)) \<le> 0"
  using cmp_refl cmp_total cmp_trans[of "at1 xs i" "at1 xs (2 * i)" "at1 xs (2 * i + 1)"]
  by (auto simp: max_child_def Let_def not_less)

lemma hole_done:
  assumes "heap_hole cmp i j n xs" and "1 \<le> i" and "max_child cmp i n xs = i"
  shows "heap_above cmp j n xs"
  using assms max_child_ge[OF assms(2), of _ n xs] by (auto simp: heap_above_def heap_hole_def)

lemma hole_down:
  assumes "heap_hole cmp i j n xs" and "1 \<le> i" and "j \<le> i" and "max_child cmp i n xs = c" and "c \<noteq> i" and "n \<le> length xs"
  shows "heap_hole cmp c j n (swap1 i c xs)"
proof -
  have c: "i < c" "c \<le> n" "c div 2 = i" using max_child_range[OF assms(2), of cmp n xs] assms(4,5) by auto
  have at: "at1 (swap1 i c xs) k = (if k = c then at1 xs i else if k = i then at1 xs c else at1 xs k)" if "1 \<le> k" for k
    using at1_swap1[of i xs c k] that assms(2,6) c by auto
  have low: "cmp (at1 xs i) (at1 xs c) \<le> 0" using max_child_self[OF assms(2), of xs n] assms(4) by simp
  show ?thesis
    unfolding heap_hole_def
  proof (intro conjI ballI impI)
    fix k assume k: "k \<in> {2..n}" "j \<le> k div 2" "k div 2 \<noteq> c"
    then have k1: "1 \<le> k" "1 \<le> k div 2" "k div 2 < k" by auto
    have old: "k div 2 \<noteq> i \<Longrightarrow> cmp (at1 xs k) (at1 xs (k div 2)) \<le> 0"
      using assms(1) k by (simp add: heap_hole_def)
    have sib: "k div 2 = i \<Longrightarrow> cmp (at1 xs k) (at1 xs c) \<le> 0"
      using max_child_ge[OF assms(2) k(1), of xs] assms(4) by simp
    have up: "k = i \<Longrightarrow> cmp (at1 xs c) (at1 xs (k div 2)) \<le> 0"
      using assms(1) c k k1 by (simp add: heap_hole_def)
    show "cmp (at1 (swap1 i c xs) k) (at1 (swap1 i c xs) (k div 2)) \<le> 0"
      unfolding at[OF k1(1)] at[OF k1(2)] using old sib up low c k(3) k1 cmp_refl by auto
  next
    fix k assume k: "k \<in> {2..n}" "k div 2 = c" "j \<le> c div 2" "1 \<le> c div 2"
    then have "j \<le> k div 2" "k div 2 \<noteq> i" using assms(3) c by auto
    then have "cmp (at1 xs k) (at1 xs c) \<le> 0"
      using assms(1) k(1,2) unfolding heap_hole_def by blast
    moreover have "k \<noteq> c" "k \<noteq> i" "1 \<le> k" using k c by auto
    ultimately show "cmp (at1 (swap1 i c xs) k) (at1 (swap1 i c xs) (c div 2)) \<le> 0"
      using at[of k] at[of "c div 2"] k(4) c by auto
  qed
qed

lemma lheapify_heap:
  assumes "heap_hole cmp i j n xs" and "1 \<le> i" and "j \<le> i" and "n \<le> length xs"
  shows "heap_above cmp j n (lheapify cmp i n xs)"
  using assms
proof (induction "n - i" arbitrary: i xs rule: less_induct)
  case less
  define c where "c = max_child cmp i n xs"
  show ?case
  proof (cases "c = i")
    case True
    then show ?thesis using hole_done[OF less.prems(1,2)] by (simp add: lheapify.simps c_def)
  next
    case False
    then have c: "i < c" "c \<le> n" using max_child_range[OF less.prems(2), of cmp n xs] by (auto simp: c_def)
    have "heap_hole cmp c j n (swap1 i c xs)"
      using hole_down[OF less.prems(1-3) c_def[symmetric] False less.prems(4)] .
    then have "heap_above cmp j n (lheapify cmp c n (swap1 i c xs))"
      using c less.prems(3,4) by (intro less.hyps) auto
    then show ?thesis using False less.prems(2) by (subst lheapify.simps) (simp add: Let_def flip: c_def)
  qed
qed

end

text \<open>Whatever the comparison, only the first \<open>n\<close> elements are permuted.\<close>

lemma swap1_keeps:
  assumes "1 \<le> a" "a \<le> n" "1 \<le> b" "b \<le> n" "n \<le> length xs"
  shows "drop n (swap1 a b xs) = drop n xs" "mset (take n (swap1 a b xs)) = mset (take n xs)"
proof -
  show d: "drop n (swap1 a b xs) = drop n xs"
    using assms by (simp add: swap1_def drop_update_swap)
  have "mset (take n ys) + mset (drop n ys) = mset ys" for ys :: "'a list"
    by (simp flip: mset_append)
  then show "mset (take n (swap1 a b xs)) = mset (take n xs)"
    using mset_swap1[of a xs b] assms d by (metis add_right_cancel order.trans)
qed

lemma lheapify_keeps:
  assumes "i \<le> n" and "n \<le> length xs"
  shows "length (lheapify cmp i n xs) = length xs \<and> drop n (lheapify cmp i n xs) = drop n xs
    \<and> mset (take n (lheapify cmp i n xs)) = mset (take n xs)"
  using assms
proof (induction cmp i n xs rule: lheapify.induct)
  case (1 cmp i n xs)
  define c where "c = max_child cmp i n xs"
  show ?case
  proof (cases "c = i \<or> i = 0")
    case False
    then have c: "i < c" "c \<le> n" using max_child_range[of i cmp n xs] by (auto simp: c_def)
    have "swap1 i c xs = swap1 i c xs" ..
    moreover note IH = "1.IH"[OF c_def False c(2)]
    ultimately show ?thesis
      using False c 1(3) swap1_keeps[of i n c xs] by (subst (1 2 3) lheapify.simps) (simp add: Let_def flip: c_def)
  qed (auto simp: lheapify.simps c_def)
qed

primrec lbuild :: "('e \<Rightarrow> 'e \<Rightarrow> int) \<Rightarrow> nat \<Rightarrow> nat \<Rightarrow> 'e list \<Rightarrow> 'e list" where
  "lbuild cmp n 0 xs = xs"
| "lbuild cmp n (Suc i) xs = lbuild cmp n i (lheapify cmp (Suc i) n xs)"

fun lsort :: "('e \<Rightarrow> 'e \<Rightarrow> int) \<Rightarrow> nat \<Rightarrow> 'e list \<Rightarrow> 'e list" where
  "lsort cmp i xs = (if i > 1 then lsort cmp (i - 1) (lheapify cmp 1 (i - 1) (swap1 1 i xs)) else xs)"

declare lsort.simps [simp del]

lemma lheapify_all:
  assumes "i \<le> n" and "length xs = n"
  shows "length (lheapify cmp i n xs) = n" "mset (lheapify cmp i n xs) = mset xs"
proof -
  have *: "length (lheapify cmp i n xs) = n" "mset (take n (lheapify cmp i n xs)) = mset (take n xs)"
    using lheapify_keeps[of i n xs cmp] assms by auto
  then show "length (lheapify cmp i n xs) = n" by simp
  show "mset (lheapify cmp i n xs) = mset xs" using * assms(2) take_all[of "lheapify cmp i n xs" n] by simp
qed

lemma lbuild_mset:
  "i \<le> n \<Longrightarrow> length xs = n \<Longrightarrow> length (lbuild cmp n i xs) = n \<and> mset (lbuild cmp n i xs) = mset xs"
proof (induction i arbitrary: xs)
  case (Suc i)
  then show ?case
    using Suc.IH[of "lheapify cmp (Suc i) n xs"] lheapify_all[of "Suc i" n xs cmp] by simp
qed simp

context comparator
begin

lemma lbuild_heap:
  assumes "heap_above cmp (Suc i) n xs" and "i \<le> n" and "length xs = n"
  shows "heap_above cmp 1 n (lbuild cmp n i xs)"
  using assms
proof (induction i arbitrary: xs)
  case (Suc i)
  have "heap_hole cmp (Suc i) (Suc i) n xs"
    using Suc.prems(1) by (auto simp: heap_hole_def heap_above_def)
  then have "heap_above cmp (Suc i) n (lheapify cmp (Suc i) n xs)"
    using Suc.prems by (intro lheapify_heap) auto
  then show ?case
    using Suc.IH[of "lheapify cmp (Suc i) n xs"] Suc.prems(2,3) lheapify_all[of "Suc i" n xs cmp] by simp
qed simp

lemma root_max:
  assumes "heap_above cmp 1 n xs" and "1 \<le> k" and "k \<le> n"
  shows "cmp (at1 xs k) (at1 xs 1) \<le> 0"
  using assms(2,3)
proof (induction k rule: less_induct)
  case (less k)
  show ?case
  proof (cases "k = 1")
    case False
    then have "k \<in> {2..n}" "1 \<le> k div 2" "k div 2 < k" using less.prems by auto
    then show ?thesis
      using assms(1) less.IH[of "k div 2"] less.prems cmp_trans unfolding heap_above_def by (meson le_trans less_imp_le)
  qed (simp add: cmp_refl)
qed

text \<open>
  The loop that takes the elements off the heap: the elements behind \<open>i\<close> are sorted, and no
  element before is greater.
\<close>

definition split_at :: "nat \<Rightarrow> 'e list \<Rightarrow> bool" where
  "split_at i xs \<longleftrightarrow> heap_above cmp 1 i xs \<and> sorted_wrt (\<lambda>a b. cmp a b \<le> 0) (drop i xs)
     \<and> (\<forall>a\<in>set (take i xs). \<forall>b\<in>set (drop i xs). cmp a b \<le> 0)"

lemma split_at_step:
  assumes "split_at i xs" and "1 < i" and "i \<le> length xs"
  shows "split_at (i - 1) (lheapify cmp 1 (i - 1) (swap1 1 i xs))"
proof -
  define ys where "ys = swap1 1 i xs"
  define zs where "zs = lheapify cmp 1 (i - 1) ys"
  have at: "at1 ys k = (if k = i then at1 xs 1 else if k = 1 then at1 xs i else at1 xs k)" if "1 \<le> k" for k
    using at1_swap1[of 1 xs i k] assms(2,3) that by (simp add: ys_def)
  have "heap_hole cmp 1 1 (i - 1) ys"
    unfolding heap_hole_def
  proof (intro conjI ballI impI)
    fix k assume k: "k \<in> {2..i - 1}" "1 \<le> k div 2" "k div 2 \<noteq> 1"
    then have "k \<in> {2..i}" by auto
    then have "cmp (at1 xs k) (at1 xs (k div 2)) \<le> 0"
      using assms(1) k(2) unfolding split_at_def heap_above_def by blast
    moreover have "k \<noteq> i" "k \<noteq> 1" "k div 2 \<noteq> i" using k by auto
    ultimately show "cmp (at1 ys k) (at1 ys (k div 2)) \<le> 0" using k at[of k] at[of "k div 2"] by simp
  qed simp
  then have h: "heap_above cmp 1 (i - 1) zs"
    using assms unfolding zs_def by (intro lheapify_heap) (auto simp: ys_def)
  have keep: "drop (i - 1) zs = drop (i - 1) ys" "mset (take (i - 1) zs) = mset (take (i - 1) ys)"
    using lheapify_keeps[of 1 "i - 1" ys cmp] assms(2,3) by (auto simp: zs_def ys_def)
  note keep = keep(1) mset_eq_setD[OF keep(2)]
  have keep': "drop i ys = drop i xs" "mset (take i ys) = mset (take i xs)"
    using swap1_keeps[of 1 i i xs] assms(2,3) by (auto simp: ys_def)
  note keep' = keep'(1) mset_eq_setD[OF keep'(2)]
  have d: "drop (i - 1) ys = at1 xs 1 # drop i xs"
    using at[of i] assms(2,3) keep'(1) Cons_nth_drop_Suc[of "i - 1" ys] by (simp add: ys_def)
  have sub: "set (take (i - 1) ys) \<subseteq> set (take i xs)"
    using keep'(2) set_take_subset_set_take[of "i - 1" i ys] by simp
  have root: "cmp a (at1 xs 1) \<le> 0" if a: "a \<in> set (take i xs)" for a
  proof -
    obtain k where "k < length (take i xs)" "take i xs ! k = a" using a unfolding in_set_conv_nth by blast
    then show ?thesis using root_max[of i xs "Suc k"] assms(1) by (simp add: split_at_def)
  qed
  have "at1 xs 1 \<in> set (take i xs)" using assms(2,3) by (auto simp: in_set_conv_nth intro!: exI[of _ 0])
  then have "split_at (i - 1) zs"
    using h keep d sub root assms(1) unfolding split_at_def by auto
  then show ?thesis by (simp add: zs_def ys_def)
qed

lemma lsort_sorted:
  assumes "split_at i xs" and "i \<le> length xs"
  shows "sorted_wrt (\<lambda>a b. cmp a b \<le> 0) (lsort cmp i xs)"
  using assms
proof (induction i arbitrary: xs)
  case (Suc i)
  show ?case
  proof (cases "Suc i > 1")
    case True
    define ys where "ys = lheapify cmp 1 i (swap1 1 (Suc i) xs)"
    have "split_at i ys" using split_at_step[OF Suc.prems(1) True Suc.prems(2)] by (simp add: ys_def)
    moreover have "i \<le> length ys" using lheapify_keeps[of 1 i "swap1 1 (Suc i) xs" cmp] Suc.prems(2) True by (simp add: ys_def)
    ultimately show ?thesis using Suc.IH True by (subst lsort.simps) (simp add: ys_def)
  next
    case False
    then have i: "Suc i = 1" by simp
    have "xs = take 1 xs @ drop 1 xs" by simp
    moreover have "length (take 1 xs) = 1" using Suc.prems(2) i by simp
    ultimately show ?thesis
      using Suc.prems(1) False i unfolding split_at_def
      by (subst lsort.simps) (cases xs; simp)
  qed
qed (auto simp: lsort.simps split_at_def)

end

lemma lsort_mset:
  "i \<le> length xs \<Longrightarrow> length (lsort cmp i xs) = length xs \<and> mset (lsort cmp i xs) = mset xs"
proof (induction i arbitrary: xs)
  case (Suc i)
  show ?case
  proof (cases "Suc i > 1")
    case True
    let ?ys = "swap1 1 (Suc i) xs" and ?zs = "lheapify cmp 1 i (swap1 1 (Suc i) xs)"
    have z: "length ?zs = length xs" "drop i ?zs = drop i ?ys" "mset (take i ?zs) = mset (take i ?ys)"
      using lheapify_keeps[of 1 i ?ys cmp] Suc.prems True by auto
    have "mset ?zs = mset ?ys"
      using z(2,3) by (metis append_take_drop_id mset_append)
    then have "mset ?zs = mset xs" using mset_swap1[of 1 xs "Suc i"] Suc.prems by simp
    then show ?thesis using Suc.IH[of ?zs] z(1) Suc.prems True by (subst (1 2) lsort.simps) simp
  qed (simp add: lsort.simps)
qed (simp add: lsort.simps)

section \<open>Arrays in memory\<close>

definition bytes :: "memory \<Rightarrow> addr \<Rightarrow> nat \<Rightarrow> byte list" where
  "bytes m a n = map (\<lambda>i. m (a + of_nat i)) [0..<n]"

definition elems :: "memory \<Rightarrow> addr \<Rightarrow> nat \<Rightarrow> nat \<Rightarrow> byte list list" where
  "elems m array cnt sz = map (\<lambda>k. bytes m (array + of_nat (k * sz)) sz) [0..<cnt]"

text \<open>The array does not wrap, and the child indexes of the heap do not wrap either.\<close>

definition array_ok :: "addr \<Rightarrow> nat \<Rightarrow> nat \<Rightarrow> bool" where
  "array_ok array cnt sz \<longleftrightarrow> array \<noteq> NULL \<and> 0 < sz \<and> unat array + cnt * sz \<le> 2 ^ 32 \<and> cnt < 2 ^ 31"

lemma length_elems [simp]: "length (elems m array cnt sz) = cnt"
  by (simp add: elems_def)

lemma bytes_eq_iff: "bytes m a n = bytes m' b n \<longleftrightarrow> (\<forall>i<n. m (a + of_nat i) = m' (b + of_nat i))"
  by (auto simp: bytes_def list_eq_iff_nth_eq)

lemma slot_bound: "k < cnt \<Longrightarrow> i < sz \<Longrightarrow> k * sz + i < cnt * sz" for k cnt i sz :: nat
proof -
  assume "k < cnt" "i < sz"
  then have "Suc k * sz \<le> cnt * sz" by (intro mult_le_mono1) simp
  then show ?thesis using \<open>i < sz\<close> by simp
qed

lemma of_nat_inj32: "a < 2 ^ 32 \<Longrightarrow> b < 2 ^ 32 \<Longrightarrow> (of_nat a :: addr) = of_nat b \<longleftrightarrow> a = b"
  by (simp add: word_unat_eq_iff unat_of_nat)

lemma slot_inj:
  assumes "array_ok array cnt sz" and "k < cnt" "l < cnt" "i < sz" "j < sz"
    and "array + of_nat (k * sz) + of_nat i = array + of_nat (l * sz) + of_nat j"
  shows "k = l \<and> i = j"
proof -
  have "k * sz + i < 2 ^ 32" "l * sz + j < 2 ^ 32"
    using slot_bound[of k cnt i sz] slot_bound[of l cnt j sz] assms by (auto simp: array_ok_def)
  moreover have "(of_nat (k * sz + i) :: addr) = of_nat (l * sz + j)"
    using assms(6) by (simp add: add.assoc)
  ultimately have eq: "k * sz + i = l * sz + j" using of_nat_inj32 by blast
  then have "(k * sz + i) div sz = (l * sz + j) div sz" by simp
  then have "k = l" using assms(4,5) by simp
  then show ?thesis using eq by simp
qed

lemma elem_ptr_eq:
  assumes "array_ok array cnt sz" and "1 \<le> k" "k \<le> cnt"
  shows "elem_ptr array k sz = array + of_nat ((k - 1) * sz)"
proof -
  have "(k - 1) * sz < 2 ^ 32"
    using slot_bound[of "k - 1" cnt 0 sz] assms unfolding array_ok_def by linarith
  then show ?thesis using assms by (simp add: elem_ptr_def sz_sub_exact sz_mul_exact array_ok_def)
qed

lemma swap_bytes:
  assumes "\<And>i j. i < n \<Longrightarrow> j < n \<Longrightarrow> a + of_nat i \<noteq> b + of_nat j" and "n \<le> 2 ^ 32"
  shows "fold (\<lambda>i m. let t = m (a + of_nat i); m = m(a + of_nat i := m (b + of_nat i)) in m(b + of_nat i := t)) [0..<n] m
     = (\<lambda>x. if in_block a n x then m (b + (x - a)) else if in_block b n x then m (a + (x - b)) else m x)"
  using assms
proof (induction n)
  case (Suc n)
  have in_Suc: "in_block p (Suc n) x \<longleftrightarrow> in_block p n x \<or> x = p + of_nat n" for p x
    using in_block_iff[of n p x] in_block_iff[of "Suc n" p x] Suc.prems(2) by (auto simp: less_Suc_eq)
  have notin: "\<not> in_block p n (p + of_nat n)" for p
    using Suc.prems(2) by (simp add: in_block_def unat_of_nat)
  have ab: "\<not> in_block b n (a + of_nat n)" "\<not> in_block a n (b + of_nat n)" "a + of_nat n \<noteq> b + of_nat n"
    using Suc.prems in_block_iff[of n b "a + of_nat n"] in_block_iff[of n a "b + of_nat n"]
    by (auto dest: less_SucI) (metis less_Suc_eq)+
  have disj: "in_block a n x \<Longrightarrow> \<not> in_block b n x" for x
    using Suc.prems in_block_iff[of n b x] in_block_iff[of n a x] by (auto dest: less_SucI)
  show ?case
    using Suc.IH Suc.prems ab disj notin by (auto simp: fun_eq_iff in_Suc Let_def)
qed (simp add: fun_eq_iff)

definition same_outside :: "addr \<Rightarrow> nat \<Rightarrow> memory \<Rightarrow> memory \<Rightarrow> bool" where
  "same_outside a n m m' \<longleftrightarrow> (\<forall>x. \<not> in_block a n x \<longrightarrow> m' x = m x)"

lemma same_outside_refl [simp]: "same_outside a n m m"
  by (simp add: same_outside_def)

lemma same_outside_trans: "same_outside a n m m' \<Longrightarrow> same_outside a n m' m'' \<Longrightarrow> same_outside a n m m''"
  by (simp add: same_outside_def)

lemma slot_in_array:
  assumes "array_ok array cnt sz" and "k < cnt" and "in_block (array + of_nat (k * sz)) sz x"
  shows "in_block array (cnt * sz) x"
proof -
  have "sz \<le> 2 ^ 32" "cnt * sz \<le> 2 ^ 32"
    using slot_bound[OF assms(2), of "sz - 1" sz] assms(1) by (auto simp: array_ok_def)
  then obtain i where "i < sz" "x = array + of_nat (k * sz) + of_nat i"
    using assms(3) in_block_iff by blast
  then have "x = array + of_nat (k * sz + i)" "k * sz + i < cnt * sz"
    using slot_bound[OF assms(2)] by (simp_all add: add.assoc)
  then show ?thesis using in_block_offset \<open>cnt * sz \<le> 2 ^ 32\<close> by blast
qed

lemma do_swap_eq:
  assumes "array_ok array cnt sz" and "p < cnt" "q < cnt" "p \<noteq> q"
  defines "a \<equiv> array + of_nat (p * sz)" and "b \<equiv> array + of_nat (q * sz)"
  shows "do_swap array (Suc p) (Suc q) sz m =
    (\<lambda>x. if in_block a sz x then m (b + (x - a)) else if in_block b sz x then m (a + (x - b)) else m x)"
proof -
  have ptr: "elem_ptr array (Suc p) sz = a" "elem_ptr array (Suc q) sz = b"
    using elem_ptr_eq[OF assms(1), of "Suc p"] elem_ptr_eq[OF assms(1), of "Suc q"] assms(2,3) by (simp_all add: a_def b_def)
  have "a + of_nat i \<noteq> b + of_nat j" if "i < sz" "j < sz" for i j
    using slot_inj[OF assms(1-3) that] assms(4) by (auto simp: a_def b_def)
  moreover have "sz \<le> 2 ^ 32"
    using slot_bound[OF assms(2), of "sz - 1" sz] assms(1) by (auto simp: array_ok_def)
  ultimately show ?thesis
    unfolding do_swap_def Let_def ptr using swap_bytes[of sz a b m] by (simp add: Let_def)
qed

lemma do_swap_elems:
  assumes "array_ok array cnt sz" and "1 \<le> i" "i \<le> cnt" "1 \<le> j" "j \<le> cnt" "i \<noteq> j"
  shows "elems (do_swap array i j sz m) array cnt sz = swap1 i j (elems m array cnt sz)"
    and "same_outside array (cnt * sz) m (do_swap array i j sz m)"
proof -
  obtain p q where [simp]: "i = Suc p" "j = Suc q" using assms(2,4) by (metis Suc_le_D One_nat_def)
  have pq: "p < cnt" "q < cnt" "p \<noteq> q" using assms by auto
  note eq = do_swap_eq[OF assms(1) pq, of m]
  have "sz \<le> 2 ^ 32"
    using slot_bound[OF pq(1), of "sz - 1" sz] assms(1) by (auto simp: array_ok_def)
  have blk: "in_block (array + of_nat (l * sz)) sz (array + of_nat (k * sz) + of_nat t) \<longleftrightarrow> k = l"
    if "k < cnt" "l < cnt" "t < sz" for k l t
    using slot_inj[OF assms(1) that(1,2,3)] in_block_iff[OF \<open>sz \<le> 2 ^ 32\<close>] that by blast
  have "bytes (do_swap array i j sz m) (array + of_nat (k * sz)) sz =
      bytes m (array + of_nat ((if k = p then q else if k = q then p else k) * sz)) sz" if "k < cnt" for k
    unfolding bytes_eq_iff using that pq blk by (auto simp: eq)
  then show "elems (do_swap array i j sz m) array cnt sz = swap1 i j (elems m array cnt sz)"
    using pq by (auto simp: list_eq_iff_nth_eq elems_def swap1_def nth_list_update)
  show "same_outside array (cnt * sz) m (do_swap array i j sz m)"
    using slot_in_array[OF assms(1) pq(1)] slot_in_array[OF assms(1) pq(2)] by (auto simp: same_outside_def eq)
qed

text \<open>The comparison function looks at the contents of the two elements only.\<close>

definition compares :: "'aux compare_func \<Rightarrow> 'aux \<Rightarrow> nat \<Rightarrow> (byte list \<Rightarrow> byte list \<Rightarrow> int) \<Rightarrow> bool" where
  "compares compare aux sz cmp \<longleftrightarrow> (\<forall>m a b. compare m a b aux = cmp (bytes m a sz) (bytes m b sz))"

lemma do_compare_elems:
  assumes "array_ok array cnt sz" and "compares compare aux sz cmp" and "1 \<le> i" "i \<le> cnt" "1 \<le> j" "j \<le> cnt"
  shows "do_compare compare aux m array i j sz = cmp (at1 (elems m array cnt sz) i) (at1 (elems m array cnt sz) j)"
proof -
  have "at1 (elems m array cnt sz) k = bytes m (elem_ptr array k sz) sz" if "1 \<le> k" "k \<le> cnt" for k
  proof -
    have "[0..<cnt] ! (k - 1) = k - 1" using that by (subst nth_upt) auto
    then show ?thesis using elem_ptr_eq[OF assms(1) that] that by (simp add: elems_def del: of_nat_mult of_nat_diff)
  qed
  then show ?thesis using assms by (simp add: do_compare_def compares_def)
qed

lemma heapify_refines:
  assumes "array_ok array cnt sz" and "n \<le> cnt" and "1 \<le> i" "i \<le> n"
    and "compares compare aux sz cmp"
  shows "\<exists>m'. heapify compare aux array i n sz m = Some m'
    \<and> elems m' array cnt sz = lheapify cmp i n (elems m array cnt sz) \<and> same_outside array (cnt * sz) m m'"
  using assms(3,4)
proof (induction "n - i" arbitrary: i m rule: less_induct)
  case less
  let ?xs = "elems m array cnt sz" and ?c = "max_child cmp i n (elems m array cnt sz)"
  have ex: "sz_mul 2 i = 2 * i" "sz_add (2 * i) 1 = 2 * i + 1"
    using less.prems assms(1,2) by (simp_all add: sz_mul_def sz_add_def array_ok_def)
  have "largest compare aux array i n sz m = ?c"
  proof -
    have "do_compare compare aux m array (2 * i) i sz = cmp (at1 ?xs (2 * i)) (at1 ?xs i)" if "2 * i \<le> n"
      using do_compare_elems[OF assms(1,5)] that less.prems assms(2) by simp
    moreover have "do_compare compare aux m array (2 * i + 1) k sz = cmp (at1 ?xs (2 * i + 1)) (at1 ?xs k)"
      if "2 * i + 1 \<le> n" "k = i \<or> k = 2 * i" for k
      using do_compare_elems[OF assms(1,5), of "2 * i + 1" k] that less.prems assms(2) by auto
    ultimately show ?thesis
      unfolding largest_def max_child_def Let_def ex by (cases "2 * i \<le> n"; cases "2 * i + 1 \<le> n") simp_all
  qed
  then have unf: "heapify compare aux array i n sz m =
     (if ?c = i then Some m else heapify compare aux array ?c n sz (do_swap array i ?c sz m))"
    using heapify.simps[of compare aux array i n sz m] by (simp only: Let_def)
  show ?case
  proof (cases "?c = i")
    case True
    then show ?thesis using unf by (simp add: lheapify.simps)
  next
    case False
    then have c: "i < ?c" "?c \<le> n" using max_child_range[OF less.prems(1), of cmp n ?xs] by auto
    have dec: "n - ?c < n - i" "1 \<le> ?c" using c by auto
    have sw: "elems (do_swap array i ?c sz m) array cnt sz = swap1 i ?c ?xs"
      "same_outside array (cnt * sz) m (do_swap array i ?c sz m)"
      using do_swap_elems[OF assms(1), of i ?c m] c less.prems assms(2) by auto
    obtain m' where m': "heapify compare aux array ?c n sz (do_swap array i ?c sz m) = Some m'"
      "elems m' array cnt sz = lheapify cmp ?c n (elems (do_swap array i ?c sz m) array cnt sz)"
      "same_outside array (cnt * sz) (do_swap array i ?c sz m) m'"
      using less.hyps[OF dec c(2), of "do_swap array i ?c sz m"] by blast
    have "lheapify cmp i n ?xs = lheapify cmp ?c n (swap1 i ?c ?xs)"
      using False less.prems(1) by (subst lheapify.simps) (simp add: Let_def)
    then show ?thesis
      using False unf m' sw(1) same_outside_trans[OF sw(2) m'(3)] by simp
  qed
qed

lemma build_heap_refines:
  assumes "array_ok array cnt sz" and "compares compare aux sz cmp" and "i \<le> cnt"
  shows "\<exists>m'. build_heap compare aux array cnt sz i m = Some m'
    \<and> elems m' array cnt sz = lbuild cmp cnt i (elems m array cnt sz) \<and> same_outside array (cnt * sz) m m'"
  using assms(3)
proof (induction i arbitrary: m)
  case (Suc i)
  obtain m1 where m1: "heapify compare aux array (Suc i) cnt sz m = Some m1"
    "elems m1 array cnt sz = lheapify cmp (Suc i) cnt (elems m array cnt sz)" "same_outside array (cnt * sz) m m1"
    using heapify_refines[OF assms(1) order.refl _ _ assms(2), of "Suc i" m] Suc.prems by auto
  then show ?case using Suc.IH[of m1] Suc.prems same_outside_trans[OF m1(3)] by auto
qed simp

lemma sort_heap_refines:
  assumes "array_ok array cnt sz" and "compares compare aux sz cmp" and "i \<le> cnt"
  shows "\<exists>m'. sort_heap compare aux array sz i m = Some m'
    \<and> elems m' array cnt sz = lsort cmp i (elems m array cnt sz) \<and> same_outside array (cnt * sz) m m'"
  using assms(3)
proof (induction i arbitrary: m)
  case (Suc i)
  show ?case
  proof (cases "Suc i > 1")
    case True
    let ?m = "do_swap array 1 (Suc i) sz m"
    have sw: "elems ?m array cnt sz = swap1 1 (Suc i) (elems m array cnt sz)" "same_outside array (cnt * sz) m ?m"
      using do_swap_elems[OF assms(1), of 1 "Suc i" m] Suc.prems True by auto
    obtain m1 where m1: "heapify compare aux array 1 i sz ?m = Some m1"
      "elems m1 array cnt sz = lheapify cmp 1 i (elems ?m array cnt sz)" "same_outside array (cnt * sz) ?m m1"
      using heapify_refines[OF assms(1) _ _ _ assms(2), of i 1 ?m] Suc.prems True by auto
    have "lsort cmp (Suc i) xs = lsort cmp i (lheapify cmp 1 i (swap1 1 (Suc i) xs))" for xs
      using True by (subst lsort.simps) simp
    moreover obtain m' where m': "sort_heap compare aux array sz i m1 = Some m'"
      "elems m' array cnt sz = lsort cmp i (elems m1 array cnt sz)" "same_outside array (cnt * sz) m1 m'"
      using Suc.IH[of m1] Suc.prems by auto
    ultimately show ?thesis
      using True sw(1) m1(1,2) same_outside_trans[OF sw(2) same_outside_trans[OF m1(3) m'(3)]] by simp
  qed (simp add: lsort.simps)
qed (simp add: lsort.simps)

lemma heap_above_leaves: "heap_above cmp (Suc (n div 2)) n xs"
  unfolding heap_above_def
proof (intro ballI impI)
  fix k assume "k \<in> {2..n}" "Suc (n div 2) \<le> k div 2"
  then have False using div_le_mono[of k n 2] by simp
  then show "cmp (at1 xs k) (at1 xs (k div 2)) \<le> 0" ..
qed

section \<open>Binary search\<close>

text \<open>A subarray, by the indexes of its ends, as pointers.\<close>

lemma subarray:
  assumes "array_ok array cnt sz" and "unat array + cnt * sz < 2 ^ 32" and "a \<le> b" "b \<le> cnt"
  shows "array + of_nat (a * sz) < array + of_nat (b * sz) \<longleftrightarrow> a < b"
    and "unat (array + of_nat (b * sz) - (array + of_nat (a * sz))) div sz = b - a"
proof -
  have sz: "0 < sz" using assms(1) by (simp add: array_ok_def)
  have bz: "b * sz \<le> cnt * sz" "a * sz \<le> b * sz" using assms(3,4) by simp_all
  have u: "unat (array + of_nat (k * sz)) = unat array + k * sz" if "k \<le> cnt" for k
  proof (rule unat_add_of_nat)
    have "k * sz \<le> cnt * sz" using that by simp
    then show "unat array + k * sz < 2 ^ 32" using assms(2) by linarith
  qed
  show "array + of_nat (a * sz) < array + of_nat (b * sz) \<longleftrightarrow> a < b"
    unfolding word_less_nat_alt using u[of a] u[of b] assms(3,4) sz by simp
  have "array + of_nat (b * sz) - (array + of_nat (a * sz)) = of_nat ((b - a) * sz)"
    using assms(3) by (simp add: of_nat_diff algebra_simps)
  moreover have "(b - a) * sz < 2 ^ 32" unfolding diff_mult_distrib using bz assms(2) by linarith
  ultimately have "unat (array + of_nat (b * sz) - (array + of_nat (a * sz))) = (b - a) * sz"
    by (simp only: unat_of_nat) (simp add: take_bit_nat_eq_self)
  then show "unat (array + of_nat (b * sz) - (array + of_nat (a * sz))) div sz = b - a" using sz by simp
qed

lemma search_loop_step:
  assumes "array_ok array cnt sz" and "unat array + cnt * sz < 2 ^ 32" and "a \<le> b" "b \<le> cnt"
    and "compares compare aux sz cmp" and "c = a + (b - a) div 2"
  shows "search_loop compare aux m key sz (array + of_nat (a * sz)) (array + of_nat (b * sz)) =
    (if a < b then
       if cmp (bytes m key sz) (elems m array cnt sz ! c) < 0
         then search_loop compare aux m key sz (array + of_nat (a * sz)) (array + of_nat (c * sz))
       else if cmp (bytes m key sz) (elems m array cnt sz ! c) > 0
         then search_loop compare aux m key sz (array + of_nat (Suc c * sz)) (array + of_nat (b * sz))
       else Some (array + of_nat (c * sz))
     else Some NULL)"
proof (cases "a < b")
  case True
  then have c: "c < b" "c < cnt" using assms(4,6) by linarith+
  have "(b - a) div 2 * sz \<le> cnt * sz" using assms(4) by (intro mult_le_mono1) linarith
  then have "(b - a) div 2 * sz < 2 ^ 32" using assms(2) by linarith
  then have mid: "array + of_nat (a * sz) + of_nat (sz_mul ((b - a) div 2) sz) = array + of_nat (c * sz)"
    using assms(6) by (simp add: sz_mul_exact algebra_simps)
  have nxt: "array + of_nat (c * sz) + of_nat sz = array + of_nat (Suc c * sz)" by (simp add: algebra_simps)
  have cmp: "compare m key (array + of_nat (c * sz)) aux = cmp (bytes m key sz) (elems m array cnt sz ! c)"
    using assms(5) c(2) by (simp add: compares_def elems_def)
  show ?thesis
    unfolding search_loop.simps[of compare aux m key sz "array + of_nat (a * sz)" "array + of_nat (b * sz)"]
      subarray[OF assms(1-4)] Let_def mid cmp nxt ..
next
  case False
  then show ?thesis
    unfolding search_loop.simps[of compare aux m key sz "array + of_nat (a * sz)" "array + of_nat (b * sz)"]
      subarray[OF assms(1-4)] by simp
qed

context comparator
begin

lemma key_below: "cmp k x < 0 \<Longrightarrow> cmp x y \<le> 0 \<Longrightarrow> cmp k y < 0"
  using cmp_trans[of y k x] cmp_trans[of x y k] cmp_sym[of k y] cmp_sym[of y k] cmp_sym[of x k] cmp_sym[of k x] by linarith

lemma key_above: "cmp k x > 0 \<Longrightarrow> cmp y x \<le> 0 \<Longrightarrow> cmp k y > 0"
  using cmp_trans[of k y x] cmp_sym[of k y] cmp_sym[of y k] cmp_sym[of x k] cmp_sym[of k x] by linarith

end

text \<open>What a search for \<open>k\<close> may return: a matching element, or null when there is none.\<close>

definition found :: "(byte list \<Rightarrow> byte list \<Rightarrow> int) \<Rightarrow> byte list \<Rightarrow> addr \<Rightarrow> nat \<Rightarrow> byte list list \<Rightarrow> addr \<Rightarrow> bool" where
  "found cmp k array sz xs p \<longleftrightarrow>
     (if p = NULL then \<forall>x\<in>set xs. cmp k x \<noteq> 0
      else \<exists>i<length xs. p = array + of_nat (i * sz) \<and> cmp k (xs ! i) = 0)"

lemma search_loop_found:
  assumes "array_ok array cnt sz" and "unat array + cnt * sz < 2 ^ 32" and "comparator cmp"
    and "compares compare aux sz cmp" and "sorted_wrt (\<lambda>x y. cmp x y \<le> 0) (elems m array cnt sz)"
    and "a \<le> b" "b \<le> cnt"
    and "\<forall>i<a. cmp (bytes m key sz) (elems m array cnt sz ! i) > 0"
    and "\<forall>i. b \<le> i \<and> i < cnt \<longrightarrow> cmp (bytes m key sz) (elems m array cnt sz ! i) < 0"
  shows "\<exists>p. search_loop compare aux m key sz (array + of_nat (a * sz)) (array + of_nat (b * sz)) = Some p
    \<and> found cmp (bytes m key sz) array sz (elems m array cnt sz) p"
  using assms(6-9)
proof (induction "b - a" arbitrary: a b rule: less_induct)
  case less
  let ?k = "bytes m key sz" and ?xs = "elems m array cnt sz"
  define c where "c = a + (b - a) div 2"
  note step = search_loop_step[OF assms(1,2) less.prems(1,2) assms(4) c_def]
  note ord = sorted_wrt_nth_less[OF assms(5)]
  consider (empty) "a = b" | (left) "a < b" "cmp ?k (?xs ! c) < 0" | (right) "a < b" "cmp ?k (?xs ! c) > 0"
    | (hit) "a < b" "cmp ?k (?xs ! c) = 0" using less.prems(1) by linarith
  then show ?case
  proof cases
    case empty
    have "cmp ?k x \<noteq> 0" if x: "x \<in> set ?xs" for x
    proof -
      obtain i where "i < cnt" "x = ?xs ! i" using x[unfolded in_set_conv_nth] by auto
      then show ?thesis using less.prems(3,4) empty by (metis less_irrefl not_less)
    qed
    then show ?thesis unfolding step using empty by (simp add: found_def)
  next
    case left
    have "cmp ?k (?xs ! i) < 0" if "c \<le> i" "i < cnt" for i
      using comparator.key_below[OF assms(3) left(2)] ord[of c i] that left(2) by (cases "c = i") auto
    moreover have "a \<le> c" "c < b" "c - a < b - a" using left(1) by (auto simp: c_def)
    ultimately have "\<exists>p. search_loop compare aux m key sz (array + of_nat (a * sz)) (array + of_nat (c * sz)) = Some p
        \<and> found cmp ?k array sz ?xs p"
      using less.prems(2,3) by (intro less.hyps) auto
    then show ?thesis unfolding step using left by simp
  next
    case right
    have c: "c < b" using right(1) by (simp add: c_def)
    have "cmp ?k (?xs ! i) > 0" if "i < Suc c" for i
      using comparator.key_above[OF assms(3) right(2)] ord[of i c] that right(2) c less.prems(2) by (cases "c = i") auto
    moreover have "a \<le> Suc c" "b - Suc c < b - a" using c by (auto simp: c_def)
    ultimately have "\<exists>p. search_loop compare aux m key sz (array + of_nat (Suc c * sz)) (array + of_nat (b * sz)) = Some p
        \<and> found cmp ?k array sz ?xs p"
      using less.prems(2,4) c by (intro less.hyps) auto
    then show ?thesis unfolding step using right by simp
  next
    case hit
    have c: "c < cnt" using hit(1) less.prems(2) by (simp add: c_def)
    then have "c * sz \<le> cnt * sz" by simp
    then have "unat array + c * sz < 2 ^ 32" using assms(2) by linarith
    then have "unat (array + of_nat (c * sz)) = unat array + c * sz" by (rule unat_add_of_nat)
    moreover have "unat array \<noteq> 0" using assms(1) by (simp add: array_ok_def NULL_def unat_eq_0)
    ultimately have "array + of_nat (c * sz) \<noteq> NULL" by (metis NULL_def add_is_0 unat_0)
    then show ?thesis unfolding step using hit c by (auto simp: found_def)
  qed
qed

section \<open>The comparison of byte blocks\<close>

fun byte_cmp :: "byte list \<Rightarrow> byte list \<Rightarrow> int" where
  "byte_cmp [] [] = 0"
| "byte_cmp [] (y # ys) = - 1"
| "byte_cmp (x # xs) [] = 1"
| "byte_cmp (x # xs) (y # ys) = (if x \<noteq> y then if x > y then 1 else - 1 else byte_cmp xs ys)"

interpretation bytewise: comparator byte_cmp
proof
  show "0 < byte_cmp a b \<longleftrightarrow> byte_cmp b a < 0" for a b
    by (induction a b rule: byte_cmp.induct) (auto simp: not_less_iff_gr_or_eq)
  show "byte_cmp a b \<le> 0 \<Longrightarrow> byte_cmp b c \<le> 0 \<Longrightarrow> byte_cmp a c \<le> 0" for a b c
  proof (induction a c arbitrary: b rule: byte_cmp.induct)
    case (3 x xs)
    then show ?case by (cases b) (auto split: if_splits)
  next
    case (4 x xs y ys)
    then show ?case by (cases b) (auto split: if_splits)
  qed auto
qed

lemma bytes_Suc: "bytes m a (Suc n) = m a # bytes m (a + 1) n"
proof -
  have "[0..<Suc n] = 0 # map Suc [0..<n]" by (simp add: map_Suc_upt upt_conv_Cons del: upt_Suc)
  then show ?thesis by (simp add: bytes_def algebra_simps del: upt_Suc)
qed

lemma memcmp_loop_byte_cmp: "memcmp_loop m a b n = byte_cmp (bytes m a n) (bytes m b n)"
proof (induction n arbitrary: a b)
  case (Suc n)
  then show ?case by (simp add: bytes_Suc)
qed (simp add: bytes_def)

section \<open>Properties of the sorting and searching functions\<close>

lemma sort_array_ok:
  assumes "array_ok array cnt sz" and "compares compare aux sz cmp" and "comparator cmp"
  shows "\<exists>m'. sort_array compare aux array cnt sz m = Some (Inr m')
    \<and> mset (elems m' array cnt sz) = mset (elems m array cnt sz)
    \<and> sorted_wrt (\<lambda>x y. cmp x y \<le> 0) (elems m' array cnt sz) \<and> same_outside array (cnt * sz) m m'"
proof -
  let ?xs = "elems m array cnt sz"
  obtain m1 where m1: "build_heap compare aux array cnt sz (cnt div 2) m = Some m1"
    "elems m1 array cnt sz = lbuild cmp cnt (cnt div 2) ?xs" "same_outside array (cnt * sz) m m1"
    using build_heap_refines[OF assms(1,2), of "cnt div 2" m] by auto
  obtain m2 where m2: "sort_heap compare aux array sz cnt m1 = Some m2"
    "elems m2 array cnt sz = lsort cmp cnt (elems m1 array cnt sz)" "same_outside array (cnt * sz) m1 m2"
    using sort_heap_refines[OF assms(1,2) order.refl, of m1] by auto
  have "heap_above cmp 1 cnt (elems m1 array cnt sz)"
    unfolding m1(2) by (rule comparator.lbuild_heap[OF assms(3) heap_above_leaves]) auto
  then have "comparator.split_at cmp cnt (elems m1 array cnt sz)"
    by (simp add: comparator.split_at_def[OF assms(3)])
  then have "sorted_wrt (\<lambda>x y. cmp x y \<le> 0) (elems m2 array cnt sz)"
    unfolding m2(2) by (intro comparator.lsort_sorted[OF assms(3)]) auto
  moreover have "mset (elems m2 array cnt sz) = mset ?xs"
    using lsort_mset[of cnt "elems m1 array cnt sz" cmp] lbuild_mset[of "cnt div 2" cnt ?xs cmp] m1(2) m2(2) by simp
  ultimately show ?thesis
    using m1(1) m2(1) same_outside_trans[OF m1(3) m2(3)] assms(1) by (simp add: sort_array_def array_ok_def)
qed

text \<open>
  C15. \<open>sort\<close> and \<open>qsort\<close> with a comparison that depends on the contents of the elements
  and orders them totally always end, and leave the elements of the array sorted and none
  lost or copied; no byte outside the array is written.
\<close>

theorem sort_sorts:
  assumes "array_ok array cnt sz" and "\<And>m a b. compare m a b aux = cmp (bytes m a sz) (bytes m b sz)"
    and "\<And>a b. cmp a b > 0 \<longleftrightarrow> cmp b a < 0" and "\<And>a b c. cmp a b \<le> 0 \<Longrightarrow> cmp b c \<le> 0 \<Longrightarrow> cmp a c \<le> 0"
  shows "(\<exists>m'. sort_array compare aux array cnt sz m = Some (Inr m')
        \<and> mset (elems m' array cnt sz) = mset (elems m array cnt sz)
        \<and> sorted_wrt (\<lambda>x y. cmp x y \<le> 0) (elems m' array cnt sz) \<and> same_outside array (cnt * sz) m m')
    \<and> (\<exists>m'. qsort (\<lambda>m a b. compare m a b aux) array cnt sz m = Some (Inr m')
        \<and> mset (elems m' array cnt sz) = mset (elems m array cnt sz)
        \<and> sorted_wrt (\<lambda>x y. cmp x y \<le> 0) (elems m' array cnt sz) \<and> same_outside array (cnt * sz) m m')"
proof -
  have c: "comparator cmp" by (rule comparator.intro) (use assms(3,4) in blast)+
  have "compares compare aux sz cmp" "compares compare_thunk (\<lambda>m a b. compare m a b aux) sz cmp"
    using assms(2) by (simp_all add: compares_def compare_thunk_def)
  from sort_array_ok[OF assms(1) this(1) c, of m] sort_array_ok[OF assms(1) this(2) c, of m]
  show ?thesis unfolding qsort_def by (rule conjI)
qed

text \<open>The elements of an array of four bytes, of two bytes each.\<close>

definition ex_mem :: memory where
  "ex_mem a = (if a = 0x100 then 9 else if a = 0x101 then 1 else if a = 0x102 then 3 else 0)"

lemma ex_array: "array_ok 0x100 2 2" "elems ex_mem 0x100 2 2 = [[9, 1], [3, 0]]"
  by (simp_all add: array_ok_def NULL_def elems_def bytes_def ex_mem_def upt_rec)

theorem sort_sorts_witness:
  "\<exists>m'. qsort (\<lambda>m a b. memcmp_loop m a b 2) 0x100 2 2 ex_mem = Some (Inr m')
    \<and> mset (elems m' 0x100 2 2) = {#[9, 1], [3, 0]#}
    \<and> sorted_wrt (\<lambda>x y. byte_cmp x y \<le> 0) (elems m' 0x100 2 2)"
  using sort_sorts[OF ex_array(1), of "\<lambda>m a b _. memcmp_loop m a b 2" "()" byte_cmp ex_mem]
    memcmp_loop_byte_cmp bytewise.cmp_sym bytewise.cmp_trans ex_array(2) by auto

text \<open>
  C32. \<open>bsearch\<close> in a sorted array ends, and returns the address of an element equal to the
  key, or a null pointer exactly when there is none.
\<close>

theorem bsearch_finds:
  assumes "array_ok array cnt sz" and "unat array + cnt * sz < 2 ^ 32"
    and "\<And>m a b. compare m a b = cmp (bytes m a sz) (bytes m b sz)"
    and "\<And>a b. cmp a b > 0 \<longleftrightarrow> cmp b a < 0" and "\<And>a b c. cmp a b \<le> 0 \<Longrightarrow> cmp b c \<le> 0 \<Longrightarrow> cmp a c \<le> 0"
    and "sorted_wrt (\<lambda>x y. cmp x y \<le> 0) (elems m array cnt sz)"
  shows "\<exists>p. bsearch compare m key array cnt sz = Some p
    \<and> (p = NULL \<longrightarrow> (\<forall>x\<in>set (elems m array cnt sz). cmp (bytes m key sz) x \<noteq> 0))
    \<and> (p \<noteq> NULL \<longrightarrow> (\<exists>i<cnt. p = array + of_nat (i * sz) \<and> cmp (bytes m key sz) (elems m array cnt sz ! i) = 0))"
proof -
  have c: "comparator cmp" by (rule comparator.intro) (use assms(4,5) in blast)+
  have cs: "compares compare_thunk compare sz cmp" using assms(3) by (simp add: compares_def compare_thunk_def)
  have "sz * cnt < 2 ^ 32" using assms(2) by (simp add: mult.commute)
  then have e: "array + of_nat (sz_mul sz cnt) = array + of_nat (cnt * sz)" by (simp add: sz_mul_exact mult.commute)
  have "\<exists>p. search_loop compare_thunk compare m key sz (array + of_nat (0 * sz)) (array + of_nat (cnt * sz)) = Some p
    \<and> found cmp (bytes m key sz) array sz (elems m array cnt sz) p"
    by (rule search_loop_found[OF assms(1,2) c cs assms(6)]) auto
  then show ?thesis
    unfolding bsearch_def binary_search_def e by (auto simp: found_def split: if_splits)
qed

theorem bsearch_finds_witness:
  "\<exists>p. bsearch (\<lambda>m a b. - memcmp_loop m a b 2) ex_mem 0x102 0x100 2 2 = Some p
    \<and> (p = NULL \<longrightarrow> (\<forall>x\<in>set [[9, 1], [3, 0]]. - byte_cmp [3, 0] x \<noteq> 0))"
proof -
  have r: "- byte_cmp a b > 0 \<longleftrightarrow> - byte_cmp b a < 0" for a b using bytewise.cmp_sym[of b a] by auto
  have t: "- byte_cmp a b \<le> 0 \<Longrightarrow> - byte_cmp b c \<le> 0 \<Longrightarrow> - byte_cmp a c \<le> 0" for a b c
    using bytewise.cmp_trans[of c b a] bytewise.cmp_sym by (metis neg_le_0_iff_le not_le)
  have k: "bytes ex_mem 0x102 2 = [3, 0]" by (simp add: bytes_def ex_mem_def upt_rec)
  show ?thesis
    using bsearch_finds[OF ex_array(1), of "\<lambda>m a b. - memcmp_loop m a b 2" "\<lambda>a b. - byte_cmp a b" ex_mem "0x102"]
      memcmp_loop_byte_cmp r t ex_array(2) k by auto
qed

section \<open>Decimal numbers\<close>

definition digits_value :: "byte list \<Rightarrow> int" where
  "digits_value ds = foldl (\<lambda>v d. v * 10 + (uint d - 48)) 0 ds"

text \<open>The bytes at an address begin with a list of bytes, followed by another byte.\<close>

primrec reads :: "memory \<Rightarrow> addr \<Rightarrow> byte list \<Rightarrow> byte \<Rightarrow> bool" where
  "reads m s [] c \<longleftrightarrow> m s = c"
| "reads m s (x # xs) c \<longleftrightarrow> m s = x \<and> reads m (s + 1) xs c"

lemma reads_append: "reads m s (xs @ ys) c \<Longrightarrow> reads m (s + of_nat (length xs)) ys c"
proof (induction xs arbitrary: s)
  case (Cons x xs)
  then show ?case using Cons.IH[of "s + 1"] by (simp add: add.assoc)
qed simp

lemma reads_append_front: "reads m s (xs @ y # ys) c \<Longrightarrow> reads m s xs y"
  by (induction xs arbitrary: s) auto

lemma sint_digit: "isdigit (uint d) \<Longrightarrow> sint d = uint d" for d :: byte
  by (simp add: isdigit_def sint_uint signed_take_bit_int_eq_self)

lemma atoi_skip_reads:
  "reads m s ws c \<Longrightarrow> \<forall>w\<in>set ws. isspace (uint w) \<Longrightarrow> \<not> isspace (uint c) \<Longrightarrow> atoi_skip m s = Some (s + of_nat (length ws))"
proof (induction ws arbitrary: s)
  case Nil
  then show ?case by (subst atoi_skip.simps) simp
next
  case (Cons w ws)
  then show ?case by (subst atoi_skip.simps) (simp add: algebra_simps)
qed

lemma atoi_digits_reads:
  "reads m s ds c \<Longrightarrow> \<forall>d\<in>set ds. isdigit (uint d) \<Longrightarrow> \<not> isdigit (sint c)
    \<Longrightarrow> atoi_digits m s (word_of_int (- v)) = Some (word_of_int (- foldl (\<lambda>v d. v * 10 + (uint d - 48)) v ds))"
proof (induction ds arbitrary: s v)
  case Nil
  then show ?case by (subst atoi_digits.simps) simp
next
  case (Cons d ds)
  have "word_of_int (- v) * 10 - word_of_int (uint d - 48) = (word_of_int (- (v * 10 + (uint d - 48))) :: 32 word)"
    by simp
  then have "atoi_digits m s (word_of_int (- v)) = atoi_digits m (s + 1) (word_of_int (- (v * 10 + (uint d - 48))))"
    using Cons.prems sint_digit[of d] by (subst atoi_digits.simps) (simp add: algebra_simps)
  also have "\<dots> = Some (word_of_int (- foldl (\<lambda>v d. v * 10 + (uint d - 48)) (v * 10 + (uint d - 48)) ds))"
    using Cons.prems by (intro Cons.IH) auto
  finally show ?case by simp
qed

text \<open>
  C33. \<open>atoi\<close> skips white space, takes an optional sign and reads the decimal digits that
  follow. The result is the number written there when that number fits in an \<open>int\<close>.
\<close>

theorem atoi_value:
  assumes "s \<noteq> NULL" and "reads m s (ws @ sg @ ds) c"
    and "\<forall>w\<in>set ws. isspace (uint w)" and "sg = [] \<or> sg = [43] \<or> sg = [45]"
    and "ds \<noteq> []" and "\<forall>d\<in>set ds. isdigit (uint d)" and "\<not> isdigit (sint c)"
    and "v = (if sg = [45] then - digits_value ds else digits_value ds)" and "- (2 ^ 31) \<le> v" "v < 2 ^ 31"
  shows "\<exists>r. atoi m s = Some (Inr r) \<and> sint r = v"
proof -
  let ?p = "s + of_nat (length ws)"
  obtain d ds' where ds: "ds = d # ds'" using assms(5) by (cases ds) auto
  define f where "f = hd (sg @ ds)"
  have f: "sg @ ds = f # tl (sg @ ds)" using assms(5) by (cases "sg @ ds") (auto simp: f_def)
  have "isdigit (uint d)" using assms(6) ds by simp
  then have nsp: "\<not> isspace (uint f)" and d: "d \<noteq> 43" "d \<noteq> 45"
    using assms(4) ds by (auto simp: f_def isspace_def isdigit_def)
  have p: "m ?p = f" "reads m ?p (sg @ ds) c"
    using reads_append[OF assms(2)] f by (metis reads.simps(2))+
  have skip: "atoi_skip m s = Some ?p"
    using reads_append_front[of m s ws f "tl (sg @ ds)" c] assms(2,3) nsp f by (intro atoi_skip_reads) simp_all
  have dig: "atoi_digits m (?p + of_nat (length sg)) 0 = Some (word_of_int (- digits_value ds))"
    using atoi_digits_reads[of m "?p + of_nat (length sg)" ds c 0] reads_append[OF p(2)] assms(6,7)
    by (simp add: digits_value_def)
  have "sint (word_of_int v :: 32 word) = v"
    using assms(9,10) by (simp add: signed_of_int signed_take_bit_int_eq_self)
  moreover have "atoi m s = Some (Inr (word_of_int v))"
    using assms(1,4,8) skip dig p(1) d ds by (auto simp: atoi_def f_def)
  ultimately show ?thesis by blast
qed

theorem atoi_value_witness:
  "\<exists>r. atoi (\<lambda>a. if a = 0x200 then 32 else if a = 0x201 then 45 else if a = 0x202 then 52 else if a = 0x203 then 50 else 0) 0x200
     = Some (Inr r) \<and> sint r = - 42"
  using atoi_value[of "0x200" _ "[32]" "[45]" "[52, 50]" 0 "- 42"]
  by (simp add: NULL_def isspace_def isdigit_def digits_value_def)

end
