(* ===== verification/Arithmetic.thy ===== *)
theory Arithmetic
  imports Prelude "HOL-Library.Signed_Division"
begin

text \<open>
  The 64-bit division routines of \<open>src/lib/arithmetic.c\<close>, which the compiler calls for
  \<open>long long\<close> division on the 32-bit processor: the \<open>DIVL\<close> instruction with its trap, the
  count of leading zeros, unsigned division by the Hacker's Delight estimate, and the signed
  and remainder routines on top of it. The lemmas show that the quotients are exact and that
  the remainders go through a 32-bit return value.
\<close>

section \<open>Definitions\<close>

text \<open>
  The \<open>DIVL\<close> instruction divides the 64-bit number in two 32-bit registers by a 32-bit
  divisor and traps when the divisor is zero or the quotient does not fit.
\<close>

definition divl :: "64 word \<Rightarrow> 32 word \<Rightarrow> 32 word result" where
  "divl n d =
    (let n1 = ucast (drop_bit 32 n) :: 32 word;
         n0 = ucast n :: 32 word;
         q = (unat n1 * 2 ^ 32 + unat n0) div unat d
     in if d = 0 \<or> 2 ^ 32 \<le> q then Inl Div_fault else Inr (of_nat q))"

definition nlz :: "32 word \<Rightarrow> nat" where
  "nlz x =
    (let (n, x) = (0, x);
         (n, x) = (if x \<le> 0x0000FFFF then (n + 16, push_bit 16 x) else (n, x));
         (n, x) = (if x \<le> 0x00FFFFFF then (n + 8, push_bit 8 x) else (n, x));
         (n, x) = (if x \<le> 0x0FFFFFFF then (n + 4, push_bit 4 x) else (n, x));
         (n, x) = (if x \<le> 0x3FFFFFFF then (n + 2, push_bit 2 x) else (n, x))
     in if x \<le> 0x7FFFFFFF then n + 1 else n)"

definition udiv64 :: "64 word \<Rightarrow> 64 word \<Rightarrow> 64 word result" where
  "udiv64 n d =
    (if drop_bit 32 d = 0 then
       let b = push_bit 32 1 :: 64 word;
           n1 = ucast (drop_bit 32 n) :: 32 word;
           n0 = ucast n :: 32 word;
           d0 = ucast d :: 32 word
       in rbind (divl (b * ucast (n1 mod d0) + ucast n0) d0) (\<lambda>q. Inr (ucast q + b * ucast (n1 div d0)))
     else if n < d then Inr 0
     else
       let d1 = ucast (drop_bit 32 d) :: 32 word;
           s = nlz d1
       in rbind (divl (drop_bit 1 n) (ucast (drop_bit 32 (push_bit s d)))) (\<lambda>q0.
          let q = ucast (drop_bit (31 - s) q0) :: 64 word
          in Inr (if n - (q - 1) * d < d then q - 1 else q)))"

text \<open>The remainder is returned as a 32-bit number.\<close>

definition umod64 :: "64 word \<Rightarrow> 64 word \<Rightarrow> 32 word result" where
  "umod64 n d = rbind (udiv64 n d) (\<lambda>q. Inr (ucast (n - d * q)))"

text \<open>Signed numbers are words read with \<open>sint\<close>.\<close>

definition sdiv64 :: "64 word \<Rightarrow> 64 word \<Rightarrow> 64 word result" where
  "sdiv64 n d =
    (let n_abs = (if 0 \<le> sint n then n else - n);
         d_abs = (if 0 \<le> sint d then d else - d)
     in rbind (udiv64 n_abs d_abs) (\<lambda>q_abs.
        Inr (if (sint n < 0) = (sint d < 0) then q_abs else - q_abs)))"

definition smod64 :: "64 word \<Rightarrow> 64 word \<Rightarrow> 32 word result" where
  "smod64 n d = rbind (sdiv64 n d) (\<lambda>q. Inr (ucast (n - d * q)))"

definition divdi3 :: "64 word \<Rightarrow> 64 word \<Rightarrow> 64 word result" where
  "divdi3 n d = sdiv64 n d"

definition moddi3 :: "64 word \<Rightarrow> 64 word \<Rightarrow> 64 word result" where
  "moddi3 n d = rbind (smod64 n d) (\<lambda>r. Inr (scast r))"

definition udivdi3 :: "64 word \<Rightarrow> 64 word \<Rightarrow> 64 word result" where
  "udivdi3 n d = udiv64 n d"

definition umoddi3 :: "64 word \<Rightarrow> 64 word \<Rightarrow> 64 word result" where
  "umoddi3 n d = rbind (umod64 n d) (\<lambda>r. Inr (ucast r))"

section \<open>The instruction and the leading zeros\<close>

lemma unat_bound64: "unat (w :: 64 word) < 2 ^ 64"
  using unsigned_less[where ?'a = nat, of w] by simp

lemma unat_hi: "unat (ucast (drop_bit 32 n) :: 32 word) = unat n div 2 ^ 32" for n :: "64 word"
proof -
  have "unat n div 2 ^ 32 < 2 ^ 32" using unat_bound64[of n] by (intro less_mult_imp_div_less) simp
  then show ?thesis
    by (simp add: unsigned_ucast_eq unsigned_drop_bit_eq drop_bit_nat_def take_bit_nat_def)
qed

lemma unat_lo: "unat (ucast n :: 32 word) = unat n mod 2 ^ 32" for n :: "64 word"
  by (simp add: unsigned_ucast_eq take_bit_eq_mod)

lemma unat_widen: "unat (ucast w :: 64 word) = unat w" for w :: "32 word"
  by (simp add: unsigned_ucast_eq take_bit_nat_eq_self_iff order.strict_trans[OF unat_bound32])

lemma unat_halves: "unat (ucast (drop_bit 32 n) :: 32 word) * 2 ^ 32 + unat (ucast n :: 32 word) = unat n"
  for n :: "64 word"
  by (subst unat_hi, subst unat_lo) (rule div_mult_mod_eq)

lemma divl_eq:
  assumes "d \<noteq> 0" and "unat n div unat d < 2 ^ 32"
  shows "divl n d = Inr (of_nat (unat n div unat d))"
  unfolding divl_def Let_def unat_halves using assms by simp

lemma unat_push_exact: "unat x * 2 ^ k < 2 ^ 32 \<Longrightarrow> unat (push_bit k x) = unat x * 2 ^ k" for x :: "32 word"
  by (simp add: unsigned_push_bit_eq push_bit_nat_def take_bit_nat_eq_self)

lemma unat_push_exact64: "unat x * 2 ^ k < 2 ^ 64 \<Longrightarrow> unat (push_bit k x) = unat x * 2 ^ k" for x :: "64 word"
  by (simp add: unsigned_push_bit_eq push_bit_nat_def take_bit_nat_eq_self)

text \<open>One step of the search for the highest set bit: the shifted number is \<open>x * 2 ^ n\<close>.\<close>

definition nlz_step :: "nat \<Rightarrow> 32 word \<Rightarrow> nat \<times> 32 word \<Rightarrow> nat \<times> 32 word" where
  "nlz_step k t = (\<lambda>(n, x). if x \<le> t then (n + k, push_bit k x) else (n, x))"

lemma nlz_step_ok:
  assumes "unat y = unat x * 2 ^ n" and "nlz_step k t (n, y) = (n', y')" and "unat t = 2 ^ (32 - k) - 1" and "2 * k \<le> 32"
    and "2 ^ (32 - 2 * k) \<le> unat y"
  shows "unat y' = unat x * 2 ^ n'" "2 ^ (32 - k) \<le> unat y'" "n' \<le> n + k"
proof -
  have pos: "0 < (2 :: nat) ^ (32 - k)" by simp
  have le: "y \<le> t \<longleftrightarrow> unat y < 2 ^ (32 - k)"
    using assms(3) pos by (simp only: word_le_nat_alt) linarith
  have "unat (push_bit k y) = unat y * 2 ^ k" if "y \<le> t"
  proof (rule unat_push_exact)
    have "unat y * 2 ^ k < 2 ^ (32 - k) * 2 ^ k" using le that by simp
    also have "(2 :: nat) ^ (32 - k) * 2 ^ k = 2 ^ 32" using assms(4) by (simp flip: power_add)
    finally show "unat y * 2 ^ k < 2 ^ 32" .
  qed
  moreover have "(2 :: nat) ^ (32 - k) = 2 ^ (32 - 2 * k) * 2 ^ k" using assms(4) by (simp flip: power_add)
  ultimately show "unat y' = unat x * 2 ^ n'" "2 ^ (32 - k) \<le> unat y'" "n' \<le> n + k"
    using assms(1,2,5) le by (auto simp: nlz_step_def power_add split: if_splits)
qed

lemma nlz_eq_steps:
  "nlz x = fst (nlz_step 1 0x7FFFFFFF (nlz_step 2 0x3FFFFFFF (nlz_step 4 0x0FFFFFFF
     (nlz_step 8 0x00FFFFFF (nlz_step 16 0x0000FFFF (0, x))))))"
  by (simp add: nlz_def nlz_step_def Let_def split_beta)

lemma nlz_normalizes:
  assumes "x \<noteq> 0"
  shows "2 ^ 31 \<le> unat x * 2 ^ nlz x" "unat x * 2 ^ nlz x < 2 ^ 32" "nlz x \<le> 31"
proof -
  obtain n1 y1 where 1: "nlz_step 16 0x0000FFFF (0, x) = (n1, y1)" by fastforce
  obtain n2 y2 where 2: "nlz_step 8 0x00FFFFFF (n1, y1) = (n2, y2)" by fastforce
  obtain n3 y3 where 3: "nlz_step 4 0x0FFFFFFF (n2, y2) = (n3, y3)" by fastforce
  obtain n4 y4 where 4: "nlz_step 2 0x3FFFFFFF (n3, y3) = (n4, y4)" by fastforce
  obtain n5 y5 where 5: "nlz_step 1 0x7FFFFFFF (n4, y4) = (n5, y5)" by fastforce
  have "1 \<le> unat x" using assms by (simp add: Suc_leI unat_gt_0)
  then have *: "2 ^ (32 - 2 * 16) \<le> unat x" "unat x = unat x * 2 ^ 0" by simp_all
  note s1 = nlz_step_ok[OF *(2) 1 _ _ *(1), simplified]
  note s2 = nlz_step_ok[OF s1(1) 2, simplified, OF s1(2)]
  note s3 = nlz_step_ok[OF s2(1) 3, simplified, OF s2(2)]
  note s4 = nlz_step_ok[OF s3(1) 4, simplified, OF s3(2)]
  note s5 = nlz_step_ok[OF s4(1) 5, simplified, OF s4(2)]
  have "nlz x = n5" unfolding nlz_eq_steps 1 2 3 4 5 by simp
  then show "2 ^ 31 \<le> unat x * 2 ^ nlz x" "unat x * 2 ^ nlz x < 2 ^ 32" "nlz x \<le> 31"
    using s1(3) s2(3) s3(3) s4(3) s5 unat_bound32[of y5] by simp_all
qed


section \<open>Unsigned division\<close>

lemma unat_join: "unat (push_bit 32 1 * ucast r + ucast n0 :: 64 word) = unat r * 2 ^ 32 + unat n0"
  for r n0 :: "32 word"
proof -
  have "unat r * 2 ^ 32 + unat n0 < 2 ^ 64"
    using unat_bound32[of r] unat_bound32[of n0] by simp
  then show ?thesis
    by (simp add: push_bit_eq_mult unat_word_ariths unat_widen mult.commute)
qed

lemma div_by_digits:
  fixes h l d :: nat
  assumes "0 < d"
  shows "(h * b + l) div d = (h mod d * b + l) div d + b * (h div d)"
proof -
  have "h * b + l = (h mod d * b + l) + d * (b * (h div d))"
    using mod_mult_div_eq[of h d] by (metis add.assoc add.commute add_mult_distrib mult.assoc mult.commute)
  then show ?thesis using assms by (simp only: div_mult_self2 split: nat.splits)
qed

lemma udiv64_small:
  assumes "drop_bit 32 d = 0" and "d \<noteq> 0"
  shows "udiv64 n d = Inr (n div d)"
proof -
  define n1 n0 d0 :: "32 word" where "n1 = ucast (drop_bit 32 n)" and "n0 = ucast n" and "d0 = ucast d"
  have n: "unat n = unat n1 * 2 ^ 32 + unat n0" using unat_halves[of n] by (simp only: n1_def n0_def)
  have d: "unat d0 = unat d" using unat_halves[of d] assms(1) by (simp add: d0_def)
  then have dpos: "0 < unat d0" using assms(2) by (simp add: unat_gt_0)
  then have "d0 \<noteq> 0" by auto
  define r where "r = n1 mod d0"
  have r: "unat r = unat n1 mod unat d0" by (simp add: r_def unat_mod_distrib)
  have "unat r * 2 ^ 32 + unat n0 < unat d0 * 2 ^ 32"
  proof -
    have "Suc (unat r) * 2 ^ 32 \<le> unat d0 * 2 ^ 32" using dpos r by (intro mult_le_mono1) (simp add: Suc_leI)
    then show ?thesis using unat_bound32[of n0] by simp
  qed
  then have small: "(unat r * 2 ^ 32 + unat n0) div unat d0 < 2 ^ 32"
    by (intro less_mult_imp_div_less) (simp add: mult.commute)
  then have q: "divl (push_bit 32 1 * ucast r + ucast n0) d0 = Inr (of_nat ((unat r * 2 ^ 32 + unat n0) div unat d0))"
    using divl_eq[OF \<open>d0 \<noteq> 0\<close>, of "push_bit 32 1 * ucast r + ucast n0"] unfolding unat_join by blast
  let ?q = "of_nat ((unat r * 2 ^ 32 + unat n0) div unat d0) :: 32 word"
  have uq: "unat ?q = (unat r * 2 ^ 32 + unat n0) div unat d0"
    using small by (simp add: unat_of_nat)
  have "unat (push_bit 32 1 * ucast (n1 div d0) + ucast ?q :: 64 word) = unat n div unat d"
    unfolding unat_join uq n
    by (subst div_by_digits[OF dpos[unfolded d]]) (simp add: unat_div_distrib r d mult.commute)
  also have "\<dots> = unat (n div d)" by (simp add: unat_div_distrib)
  finally have "ucast ?q + push_bit 32 1 * ucast (n1 div d0) = n div d"
    by (simp add: word_unat_eq_iff add.commute)
  then show ?thesis
    using assms(1) q unfolding udiv64_def Let_def n1_def[symmetric] n0_def[symmetric] d0_def[symmetric] r_def[symmetric]
    by simp
qed


text \<open>
  The estimate of the quotient from the upper half of the divisor is exact or one too big
  (Hacker's Delight): \<open>w\<close> is the divisor rounded down to its 32 leading bits.
\<close>

lemma quotient_estimate:
  fixes n d w s :: nat
  assumes n: "n < 2 ^ 64" and s: "s \<le> 31" and d: "2 ^ (63 - s) \<le> d"
    and w: "w \<le> d" "2 ^ (63 - s) \<le> w" "d < w + 2 ^ (32 - s)"
  shows "n div d \<le> n div w" "n div w \<le> n div d + 1"
proof -
  have "0 < (2 :: nat) ^ (63 - s)" by simp
  then have pos: "0 < w" "0 < d" using w(2) d by linarith+
  show "n div d \<le> n div w" using pos w(1) by (simp add: div_le_mono2)
  define q where "q = n div w"
  have e1: "(2 :: nat) ^ (s + 1) * 2 ^ (63 - s) = 2 ^ 64" using s by (simp flip: power_add)
  have "q * 2 ^ (63 - s) \<le> q * w" using w(2) by simp
  also have "\<dots> \<le> n" by (simp add: q_def)
  finally have "q * 2 ^ (63 - s) < 2 ^ (s + 1) * 2 ^ (63 - s)" using n unfolding e1 by (rule le_less_trans)
  then have q: "q \<le> 2 ^ (s + 1)" by simp
  have gap: "d - w \<le> 2 ^ (32 - s) - 1" using w(1,3) by simp
  have "q * (d - w) \<le> 2 ^ (s + 1) * (2 ^ (32 - s) - 1)" by (rule mult_le_mono[OF q gap])
  also have "\<dots> \<le> 2 ^ (63 - s)"
  proof (cases "s = 31")
    case False
    have "(2 :: nat) ^ (s + 1) * (2 ^ (32 - s) - 1) \<le> 2 ^ (s + 1) * 2 ^ (32 - s)" by simp
    also have "\<dots> = 2 ^ 33" using s by (simp flip: power_add)
    also have "\<dots> \<le> (2 :: nat) ^ (63 - s)" using s False by (intro power_increasing) auto
    finally show ?thesis .
  qed simp
  finally have "q * (d - w) \<le> d" using d by simp
  then have "q * d \<le> n + d"
  proof -
    have "q * d = q * w + q * (d - w)" using w(1) by (metis add_mult_distrib2 le_add_diff_inverse)
    moreover have "q * w \<le> n" by (simp add: q_def)
    ultimately show ?thesis using \<open>q * (d - w) \<le> d\<close> by linarith
  qed
  then have "q \<le> (n + d) div d" using pos(2) by (simp add: less_eq_div_iff_mult_less_eq)
  also have "\<dots> = n div d + 1" using pos(2) by (simp add: div_add_self2)
  finally show "n div w \<le> n div d + 1" by (simp add: q_def)
qed

lemma quotient_correction:
  fixes n d q :: "64 word"
  assumes "d \<le> n" and "d \<noteq> 0" and "unat q = unat n div unat d \<or> unat q = unat n div unat d + 1"
  shows "(if n - (q - 1) * d < d then q - 1 else q) = n div d"
proof -
  let ?Q = "n div d"
  have uQ: "unat ?Q = unat n div unat d" by (simp add: unat_div_distrib)
  have dec: "n = ?Q * d + n mod d" by (simp only: div_mult_mod_eq)
  have md: "n mod d < d" using assms(2) by (simp add: word_mod_less_divisor word_gt_0)
  have Q1: "1 \<le> unat n div unat d"
    using assms(1,2) by (simp add: less_eq_div_iff_mult_less_eq unat_gt_0 word_le_nat_alt Suc_leI)
  show ?thesis
  proof (cases "unat q = unat n div unat d")
    case True
    then have q: "q = ?Q" using uQ by (simp add: word_unat_eq_iff)
    have "n - (q - 1) * d = n mod d + d"
      using dec q by (simp add: algebra_simps)
    moreover have "\<not> n mod d + d < d"
    proof -
      have "unat (n mod d) + unat d \<le> unat n"
        using Q1 unat_mod_distrib[of n d] by (metis One_nat_def add.commute add_le_cancel_left div_mult_mod_eq mult_1 mult_le_mono1)
      then have "unat (n mod d + d) = unat (n mod d) + unat d"
        using unat_bound64[of n] by (simp add: unat_word_ariths)
      then show ?thesis by (simp add: word_less_nat_alt)
    qed
    ultimately show ?thesis using q by simp
  next
    case False
    then have "unat q = unat ?Q + 1" using assms(3) uQ by simp
    then have "of_nat (unat q) = (of_nat (unat ?Q + 1) :: 64 word)" by (simp only:)
    then have "q = ?Q + 1" by simp
    then have "q - 1 = ?Q" by simp
    moreover have "n - ?Q * d = n mod d" using dec by (metis add_diff_cancel_left')
    ultimately show ?thesis using md by simp
  qed
qed


text \<open>The 32 leading bits of the divisor, shifted to the top of a word.\<close>

lemma normalized_divisor:
  fixes d :: "64 word" and v :: "32 word"
  assumes "drop_bit 32 d \<noteq> 0" and "s = nlz (ucast (drop_bit 32 d))"
    and "v = ucast (drop_bit 32 (push_bit s d))" and "w = unat v * 2 ^ (32 - s)"
  shows "s \<le> 31" "2 ^ 31 \<le> unat v" "w \<le> unat d" "2 ^ (63 - s) \<le> w" "unat d < w + 2 ^ (32 - s)"
proof -
  define d1 :: "32 word" where "d1 = ucast (drop_bit 32 d)"
  have ud1: "unat d1 = unat d div 2 ^ 32" by (simp only: d1_def unat_hi)
  have "unat (drop_bit 32 d) \<noteq> 0" using assms(1) by (simp only: unat_eq_0 not_False_eq_True)
  then have "unat d1 \<noteq> 0" unfolding ud1 using unat_bound64[of d] by (simp add: unsigned_drop_bit_eq drop_bit_nat_def take_bit_nat_eq_self)
  then have "d1 \<noteq> 0" by auto
  note s = nlz_normalizes[OF this, folded assms(2)[folded d1_def]]
  show "s \<le> 31" by (rule s(3))
  have pw: "(2 :: nat) ^ (32 - s) * 2 ^ s = 2 ^ 32" using s(3) by (simp flip: power_add)
  have "unat d1 * 2 ^ s < 2 ^ (32 - s) * 2 ^ s" using s(2) unfolding pw .
  then have d1lt: "unat d div 2 ^ 32 < 2 ^ (32 - s)" unfolding ud1 by simp
  then have "unat d < 2 ^ (32 - s) * 2 ^ 32" by (simp add: div_less_iff_less_mult)
  then have "unat d * 2 ^ s < 2 ^ (32 - s) * 2 ^ 32 * 2 ^ s" by simp
  also have "\<dots> = (2 :: nat) ^ 64" using pw by (simp add: mult.commute mult.left_commute)
  finally have ud: "unat (push_bit s d) = unat d * 2 ^ s" by (rule unat_push_exact64)
  then have uv: "unat v = unat d * 2 ^ s div 2 ^ 32" by (simp only: assms(3) unat_hi)
  have "unat d1 * 2 ^ s \<le> unat v"
    unfolding ud1 uv by (simp add: less_eq_div_iff_mult_less_eq mult.assoc mult.left_commute[of _ "2 ^ s"])
  then show v31: "2 ^ 31 \<le> unat v" using s(1) by linarith
  show w1: "w \<le> unat d"
  proof -
    have "unat v * 2 ^ 32 \<le> unat d * 2 ^ s" unfolding uv by simp
    then have "w * 2 ^ s \<le> unat d * 2 ^ s" unfolding assms(4) by (simp only: mult.assoc pw)
    then show ?thesis by simp
  qed
  show w2: "2 ^ (63 - s) \<le> w"
  proof -
    have "(2 :: nat) ^ (63 - s) = 2 ^ 31 * 2 ^ (32 - s)" using s(3) by (subst power_add[symmetric]) simp
    then show ?thesis using v31 by (simp only: assms(4) mult_le_mono1)
  qed
  show w3: "unat d < w + 2 ^ (32 - s)"
  proof -
    have "unat d * 2 ^ s < Suc (unat v) * 2 ^ 32" unfolding uv by (simp add: dividend_less_div_times)
    then have "unat d * 2 ^ s < (w + 2 ^ (32 - s)) * 2 ^ s"
      unfolding assms(4) by (simp only: mult.assoc pw add_mult_distrib mult_Suc add.commute)
    then show ?thesis by simp
  qed
qed

lemma udiv64_large:
  assumes "drop_bit 32 d \<noteq> 0" and "d \<le> n"
  shows "udiv64 n d = Inr (n div d)"
proof -
  define d1 :: "32 word" where "d1 = ucast (drop_bit 32 d)"
  define s where "s = nlz d1"
  define v :: "32 word" where "v = ucast (drop_bit 32 (push_bit s d))"
  define w where "w = unat v * 2 ^ (32 - s)"
  note nd = normalized_divisor[OF assms(1) s_def[unfolded d1_def] v_def w_def]
  note s = nd(1) and v31 = nd(2) and w1 = nd(3) and w2 = nd(4) and w3 = nd(5)
  have v0: "v \<noteq> 0" using v31 by auto
  have uh: "unat (drop_bit 1 n) = unat n div 2"
    using unat_bound64[of n] by (simp add: unsigned_drop_bit_eq drop_bit_nat_def take_bit_nat_eq_self)
  have fit: "unat n div 2 div unat v < 2 ^ 32"
  proof (rule less_mult_imp_div_less)
    have "unat n div 2 < 2 ^ 63" using unat_bound64[of n] by simp
    also have "(2 :: nat) ^ 63 \<le> 2 ^ 32 * unat v" using v31 by simp
    finally show "unat n div 2 < 2 ^ 32 * unat v" .
  qed
  define q0 where "q0 = (of_nat (unat n div 2 div unat v) :: 32 word)"
  have q0: "divl (drop_bit 1 n) v = Inr q0" using divl_eq[OF v0, of "drop_bit 1 n", unfolded uh, OF fit] by (simp only: q0_def)
  define q where "q = (ucast (drop_bit (31 - s) q0) :: 64 word)"
  have "unat q0 = unat n div 2 div unat v" using fit by (simp add: q0_def unat_of_nat)
  then have "unat q = unat n div 2 div unat v div 2 ^ (31 - s)"
    using fit by (simp add: q_def unat_widen unsigned_drop_bit_eq drop_bit_nat_def take_bit_nat_eq_self)
  also have "\<dots> = unat n div w"
  proof -
    have "32 - s = Suc (31 - s)" using s by simp
    then have "2 * unat v * 2 ^ (31 - s) = w" by (simp add: w_def)
    then show ?thesis by (simp only: div_mult2_eq[symmetric])
  qed
  finally have "unat q = unat n div unat d \<or> unat q = unat n div unat d + 1"
    using quotient_estimate[OF unat_bound64 s order.trans[OF w2 w1] w1 w2 w3, of n] by linarith
  moreover have "d \<noteq> 0" using assms(1) by auto
  ultimately have "(if n - (q - 1) * d < d then q - 1 else q) = n div d"
    using quotient_correction assms(2) by blast
  then show ?thesis
    using assms q0 unfolding udiv64_def Let_def d1_def[symmetric] s_def[symmetric] v_def[symmetric] q_def
    by (simp add: leD)
qed

lemma udiv64_eq: "udiv64 n d = (if d = 0 then Inl Div_fault else Inr (n div d))"
proof (cases "drop_bit 32 d = 0")
  case True
  then show ?thesis
    using udiv64_small[OF True, of n] by (auto simp: udiv64_def divl_def Let_def)
next
  case False
  then have "d \<noteq> 0" by auto
  moreover have "n div d = 0" if "n < d"
    using that by (simp add: word_unat_eq_iff unat_div_distrib word_less_nat_alt)
  ultimately show ?thesis
    using False udiv64_large[OF False, of n] by (cases "d \<le> n") (auto simp: udiv64_def)
qed


section \<open>Signed division\<close>

lemma sint_of_int64: "- (2 ^ 63) \<le> k \<Longrightarrow> k < 2 ^ 63 \<Longrightarrow> sint (word_of_int k :: 64 word) = k"
  by (simp add: signed_of_int signed_take_bit_int_eq_self)

lemma sint_range64: "- (2 ^ 63) \<le> sint (w :: 64 word)" "sint (w :: 64 word) < 2 ^ 63"
  using sint_range_size[of w] by (simp_all add: word_size)

lemma uint_of_int64: "0 \<le> k \<Longrightarrow> k < 2 ^ 64 \<Longrightarrow> uint (word_of_int k :: 64 word) = k"
  by (simp add: unsigned_of_int take_bit_int_eq_self)

lemma abs_word64: "(if 0 \<le> sint n then n else - n) = word_of_int \<bar>sint n\<bar>" for n :: "64 word"
  by (simp add: abs_if)

lemma abs_bound64: "0 \<le> \<bar>sint n\<bar>" "\<bar>sint n\<bar> < 2 ^ 64" for n :: "64 word"
  using sint_range64[of n] by simp_all

lemma uint_abs64: "uint (word_of_int \<bar>sint n\<bar> :: 64 word) = \<bar>sint n\<bar>" for n :: "64 word"
  by (rule uint_of_int64[OF abs_bound64])

lemma sint_nz64: "d \<noteq> 0 \<Longrightarrow> sint d \<noteq> 0" for d :: "64 word"
proof
  assume d: "d \<noteq> 0" "sint d = 0"
  have "(word_of_int (sint d) :: 64 word) = d" by simp
  with d show False by simp
qed

lemma sdiv_bound64:
  fixes n d :: "64 word"
  assumes "d \<noteq> 0" and "\<not> (sint n = - (2 ^ 63) \<and> sint d = - 1)"
  shows "- (2 ^ 63) \<le> sint n sdiv sint d" "sint n sdiv sint d < 2 ^ 63"
proof -
  let ?q = "\<bar>sint n\<bar> div \<bar>sint d\<bar>"
  have nb: "\<bar>sint n\<bar> \<le> 2 ^ 63" using sint_range64[of n] by linarith
  have d0: "0 < \<bar>sint d\<bar>" using sint_nz64[OF assms(1)] by simp
  have q: "0 \<le> ?q" "?q \<le> 2 ^ 63"
    using d0 nb zdiv_mono2[of "\<bar>sint n\<bar>" 1 "\<bar>sint d\<bar>"] by (simp_all add: pos_imp_zdiv_nonneg_iff int_one_le_iff_zero_less)
  have "- ?q \<le> sint n sdiv sint d" "sint n sdiv sint d \<le> ?q"
    using q(1) by (auto simp: signed_divide_int_def sgn_if)
  then show "- (2 ^ 63) \<le> sint n sdiv sint d" using q(2) by linarith
  show "sint n sdiv sint d < 2 ^ 63"
  proof (cases "\<bar>sint d\<bar> = 1")
    case True
    then show ?thesis using assms(2) sint_range64[of n] by (auto simp: signed_divide_int_def sgn_if abs_if split: if_splits)
  next
    case False
    then have "?q \<le> \<bar>sint n\<bar> div 2" using d0 by (intro zdiv_mono2) auto
    moreover have "\<bar>sint n\<bar> div 2 \<le> 2 ^ 62" using nb by simp
    ultimately have "sint n sdiv sint d \<le> 2 ^ 62" using \<open>sint n sdiv sint d \<le> ?q\<close> by linarith
    then show ?thesis by simp
  qed
qed

lemma sdiv64_eq:
  assumes "d \<noteq> 0"
  shows "sdiv64 n d = Inr (word_of_int (sint n sdiv sint d))"
proof -
  have d: "sint d \<noteq> 0" using sint_nz64[OF assms] .
  have "(word_of_int \<bar>sint n\<bar> :: 64 word) div word_of_int \<bar>sint d\<bar> = word_of_int (\<bar>sint n\<bar> div \<bar>sint d\<bar>)"
    by (simp only: word_div_def uint_abs64)
  moreover have "(word_of_int \<bar>sint d\<bar> :: 64 word) \<noteq> 0"
    using uint_abs64[of d] d by auto
  ultimately show ?thesis
    using d unfolding sdiv64_def abs_word64 Let_def
    by (auto simp: udiv64_eq signed_divide_int_def sgn_if)
qed


text \<open>
  C11. The 64-bit division routines that the compiler calls. The unsigned quotient is exact for
  every divisor but zero, for which the hardware traps; none of the two \<open>DIVL\<close> instructions
  traps otherwise. The signed quotient is the quotient rounded towards zero whenever that fits
  in 64 bits.
\<close>

theorem division_correct:
  "udivdi3 n d = (if d = 0 then Inl Div_fault else Inr (n div d))
    \<and> divdi3 n 0 = Inl Div_fault
    \<and> (d \<noteq> 0 \<and> \<not> (sint n = - (2 ^ 63) \<and> sint d = - 1)
         \<longrightarrow> (\<exists>q. divdi3 n d = Inr q \<and> sint q = sint n sdiv sint d))"
proof (intro conjI impI)
  show "udivdi3 n d = (if d = 0 then Inl Div_fault else Inr (n div d))"
    by (simp add: udivdi3_def udiv64_eq)
  show "divdi3 n 0 = Inl Div_fault" by (simp add: divdi3_def sdiv64_def udiv64_eq)
  assume *: "d \<noteq> 0 \<and> \<not> (sint n = - (2 ^ 63) \<and> sint d = - 1)"
  then have "sint (word_of_int (sint n sdiv sint d) :: 64 word) = sint n sdiv sint d"
    by (intro sint_of_int64 sdiv_bound64) auto
  then show "\<exists>q. divdi3 n d = Inr q \<and> sint q = sint n sdiv sint d"
    using sdiv64_eq[of d n] * by (simp add: divdi3_def)
qed

theorem division_correct_witness: "\<exists>q. divdi3 (- 7) 2 = Inr q \<and> sint q = sint (- 7 :: 64 word) sdiv sint (2 :: 64 word)"
  using division_correct[of "- 7" 2] by simp

lemma umod64_eq: "d \<noteq> 0 \<Longrightarrow> umod64 n d = Inr (ucast (n mod d))"
  by (simp add: umod64_def udiv64_eq minus_div_mult_eq_mod mult.commute[of d])

lemma smod64_eq: "d \<noteq> 0 \<Longrightarrow> smod64 n d = Inr (word_of_int (sint n smod sint d))"
proof -
  assume d: "d \<noteq> 0"
  have "n - d * word_of_int (sint n sdiv sint d) = (word_of_int (sint n - sint d * (sint n sdiv sint d)) :: 64 word)"
    by simp
  moreover have "sint n - sint d * (sint n sdiv sint d) = sint n smod sint d"
    using sdiv_mult_smod_eq[of "sint n" "sint d"] by (simp add: algebra_simps)
  moreover have "(ucast (word_of_int k :: 64 word) :: 32 word) = word_of_int k" for k
    by (rule bit_word_eqI) (simp add: bit_simps)
  ultimately show ?thesis using d by (simp add: smod64_def sdiv64_eq)
qed

text \<open>
  C31. The remainder routines pass the remainder through a 32-bit return value. \<open>umoddi3\<close> returns the
  low 32 bits of the remainder, extended with zeros, and \<open>moddi3\<close> the low 32 bits of the remainder
  of the division that rounds towards zero, extended with their sign. So they are right when the
  remainder fits, as it does for every divisor up to \<open>2 ^ 32\<close> (unsigned) or of magnitude at
  most \<open>2 ^ 31\<close> (signed).
\<close>

theorem remainder_truncates:
  assumes "d \<noteq> 0"
  shows "\<exists>r. umoddi3 n d = Inr r \<and> uint r = uint (n mod d) mod 2 ^ 32 \<and> (uint d \<le> 2 ^ 32 \<longrightarrow> r = n mod d)
    \<and> (\<exists>t. moddi3 n d = Inr t \<and> sint t = signed_take_bit 31 (sint n smod sint d)
         \<and> (\<bar>sint d\<bar> \<le> 2 ^ 31 \<longrightarrow> sint t = sint n smod sint d))"
proof -
  have u: "umoddi3 n d = Inr (ucast (ucast (n mod d) :: 32 word))"
    using assms by (simp add: umoddi3_def umod64_eq)
  have ur: "uint (ucast (ucast (n mod d) :: 32 word) :: 64 word) = uint (n mod d) mod 2 ^ 32"
    by (simp add: unsigned_ucast_eq take_bit_eq_mod uint_mod_distrib)
  have ud: "ucast (ucast (n mod d) :: 32 word) = n mod d" if "uint d \<le> 2 ^ 32"
  proof -
    have "0 < uint d" using assms by (metis order_less_le uint_0_iff uint_nonnegative)
    then have "uint (n mod d) < 2 ^ 32"
      unfolding uint_mod_distrib using that pos_mod_bound[of "uint d" "uint n"] by linarith
    then show ?thesis using ur by (simp add: word_uint_eq_iff)
  qed
  have m: "moddi3 n d = Inr (scast (word_of_int (sint n smod sint d) :: 32 word))"
    using assms by (simp add: moddi3_def smod64_eq)
  have v: "sint (scast (word_of_int (sint n smod sint d) :: 32 word) :: 64 word) = signed_take_bit 31 (sint n smod sint d)"
    by (simp add: sint_up_scast is_up signed_of_int)
  have "signed_take_bit 31 (sint n smod sint d) = sint n smod sint d" if "\<bar>sint d\<bar> \<le> 2 ^ 31"
  proof -
    have "\<bar>sint n\<bar> mod \<bar>sint d\<bar> < \<bar>sint d\<bar>" "0 \<le> \<bar>sint n\<bar> mod \<bar>sint d\<bar>"
      using sint_nz64[OF assms] by simp_all
    then have "- (2 ^ 31) \<le> sint n smod sint d" "sint n smod sint d < 2 ^ 31"
      using that by (auto simp: signed_modulo_int_def sgn_if)
    then show ?thesis by (simp add: signed_take_bit_int_eq_self)
  qed
  then show ?thesis using u ur ud m v by auto
qed

theorem remainder_truncates_witness:
  "\<exists>r. umoddi3 (2 ^ 40 + 5) (2 ^ 40) = Inr r \<and> uint r = 5
    \<and> (\<exists>t. moddi3 (2 ^ 40 + 5) (2 ^ 40) = Inr t \<and> sint t = 5)"
proof -
  have "(2 ^ 40 :: 64 word) \<noteq> 0" by simp
  from remainder_truncates[OF this, of "2 ^ 40 + 5"] obtain r t where
    "umoddi3 (2 ^ 40 + 5) (2 ^ 40) = Inr r" "uint r = uint ((2 ^ 40 + 5) mod 2 ^ 40 :: 64 word) mod 2 ^ 32"
    "moddi3 (2 ^ 40 + 5) (2 ^ 40) = Inr t" "sint t = signed_take_bit 31 (sint (2 ^ 40 + 5 :: 64 word) smod sint (2 ^ 40 :: 64 word))" by blast
  moreover have "sint (2 ^ 40 + 5 :: 64 word) smod sint (2 ^ 40 :: 64 word) = 5" by (simp add: signed_modulo_int_def)
  ultimately show ?thesis by (simp add: signed_take_bit_int_eq_self)
qed

text \<open>A remainder that needs more than 32 bits is returned wrong.\<close>

lemma umoddi3_wrong: "umoddi3 (2 ^ 33) (2 ^ 34) = Inr 0" "(2 ^ 33 :: 64 word) mod 2 ^ 34 = 2 ^ 33"
  by (simp_all add: umoddi3_def umod64_eq)

end
