(* ===== verification/Interrupt.thy ===== *)
theory Interrupt
  imports Memory
begin

text \<open>
  The interrupt system of \<open>src/threads/interrupt.c\<close>: the interrupt flag, the interrupt
  descriptor table with its bit-level gates, the handler table, the interrupt controller as
  the bytes written to its ports, and the common interrupt handler. The state is an
  extensible record, which the scheduler extends.
\<close>

section \<open>State\<close>

datatype intr_level = INTR_OFF | INTR_ON

text \<open>
  The interrupt flag of the processor, the tables of \<open>interrupt.c\<close>, and the bytes written to
  I/O ports, the last one first. A handler is the address of its function, a null pointer for
  none. The state is extended by the components that run under interrupts.
\<close>

record intr_state =
  if_flag :: bool
  idt :: "64 word list"
  idtr :: "64 word"
  intr_handlers :: "addr list"
  intr_names :: "string list"
  unexpected_cnt :: "32 word list"
  in_external_intr :: bool
  yield_on_return :: bool
  port_out :: "(nat \<times> byte) list"

definition INTR_CNT :: nat where
  "INTR_CNT = 256"

definition SEL_KCSEG :: "32 word" where
  "SEL_KCSEG = 0x08"

section \<open>Interrupt level\<close>

definition intr_context :: "'a intr_state_scheme \<Rightarrow> bool" where
  "intr_context s = in_external_intr s"

definition intr_get_level :: "'a intr_state_scheme \<Rightarrow> intr_level" where
  "intr_get_level s = (if if_flag s then INTR_ON else INTR_OFF)"

definition intr_enable :: "'a intr_state_scheme \<Rightarrow> (intr_level \<times> 'a intr_state_scheme) result" where
  "intr_enable s =
    (let old_level = intr_get_level s in
     rbind (rassert (\<not> intr_context s)) (\<lambda>_. Inr (old_level, s\<lparr>if_flag := True\<rparr>)))"

definition intr_disable :: "'a intr_state_scheme \<Rightarrow> intr_level \<times> 'a intr_state_scheme" where
  "intr_disable s = (let old_level = intr_get_level s in (old_level, s\<lparr>if_flag := False\<rparr>))"

definition intr_set_level :: "intr_level \<Rightarrow> 'a intr_state_scheme \<Rightarrow> (intr_level \<times> 'a intr_state_scheme) result" where
  "intr_set_level level s = (if level = INTR_ON then intr_enable s else Inr (intr_disable s))"

definition intr_yield_on_return :: "'a intr_state_scheme \<Rightarrow> 'a intr_state_scheme result" where
  "intr_yield_on_return s = rbind (rassert (intr_context s)) (\<lambda>_. Inr (s\<lparr>yield_on_return := True\<rparr>))"

section \<open>Interrupt controller\<close>

definition outb :: "nat \<Rightarrow> byte \<Rightarrow> 'a intr_state_scheme \<Rightarrow> 'a intr_state_scheme" where
  "outb port data s = s\<lparr>port_out := (port, data) # port_out s\<rparr>"

definition pic_init :: "'a intr_state_scheme \<Rightarrow> 'a intr_state_scheme" where
  "pic_init s = fold (\<lambda>(port, data). outb port data)
     [(0x21, 0xff), (0xa1, 0xff),
      (0x20, 0x11), (0x21, 0x20), (0x21, 0x04), (0x21, 0x01),
      (0xa0, 0x11), (0xa1, 0x28), (0xa1, 0x02), (0xa1, 0x01),
      (0x21, 0x00), (0xa1, 0x00)] s"

definition pic_end_of_interrupt :: "nat \<Rightarrow> 'a intr_state_scheme \<Rightarrow> 'a intr_state_scheme result" where
  "pic_end_of_interrupt irq s =
     rbind (rassert (irq \<ge> 0x20 \<and> irq < 0x30)) (\<lambda>_.
     let s = outb 0x20 0x20 s
     in Inr (if irq \<ge> 0x28 then outb 0xa0 0x20 s else s))"

section \<open>Gates\<close>

definition make_gate :: "addr \<Rightarrow> nat \<Rightarrow> nat \<Rightarrow> 64 word result" where
  "make_gate function dpl type =
     rbind (rassert (function \<noteq> NULL)) (\<lambda>_.
     rbind (rassert (dpl \<le> 3)) (\<lambda>_.
     rbind (rassert (type \<le> 15)) (\<lambda>_.
     let e0 = (function AND 0xffff) OR push_bit 16 SEL_KCSEG;
         e1 = (function AND 0xffff0000) OR push_bit 15 1 OR push_bit 13 (of_nat dpl)
              OR push_bit 12 0 OR push_bit 8 (of_nat type)
     in Inr (ucast e0 OR push_bit 32 (ucast e1)))))"

definition make_intr_gate :: "addr \<Rightarrow> nat \<Rightarrow> 64 word result" where
  "make_intr_gate function dpl = make_gate function dpl 14"

definition make_trap_gate :: "addr \<Rightarrow> nat \<Rightarrow> 64 word result" where
  "make_trap_gate function dpl = make_gate function dpl 15"

definition make_idtr_operand :: "16 word \<Rightarrow> addr \<Rightarrow> 64 word" where
  "make_idtr_operand limit base = ucast limit OR push_bit 16 (ucast base)"

section \<open>Registration\<close>

text \<open>The table of entry points \<open>intr_stubs\<close> of \<open>intr-stubs.S\<close> and the address of the table are parameters.\<close>

definition intr_init :: "(nat \<Rightarrow> addr) \<Rightarrow> addr \<Rightarrow> 'a intr_state_scheme \<Rightarrow> 'a intr_state_scheme result" where
  "intr_init intr_stubs idt_addr s =
    (let s = pic_init s in
     rbind (rfor (\<lambda>i s. rbind (make_intr_gate (intr_stubs i) 0) (\<lambda>g.
                   rbind (rput (idt s) i g) (\<lambda>t. Inr (s\<lparr>idt := t\<rparr>)))) [0..<INTR_CNT] s) (\<lambda>s.
     let s = s\<lparr>idtr := make_idtr_operand (of_nat (8 * INTR_CNT) - 1) idt_addr\<rparr>;
         names = (replicate INTR_CNT ''unknown'')
           [0 := ''#DE Divide Error'', 1 := ''#DB Debug Exception'', 2 := ''NMI Interrupt'',
            3 := ''#BP Breakpoint Exception'', 4 := ''#OF Overflow Exception'',
            5 := ''#BR BOUND Range Exceeded Exception'', 6 := ''#UD Invalid Opcode Exception'',
            7 := ''#NM Device Not Available Exception'', 8 := ''#DF Double Fault Exception'',
            9 := ''Coprocessor Segment Overrun'', 10 := ''#TS Invalid TSS Exception'',
            11 := ''#NP Segment Not Present'', 12 := ''#SS Stack Fault Exception'',
            13 := ''#GP General Protection Exception'', 14 := ''#PF Page-Fault Exception'',
            16 := ''#MF x87 FPU Floating-Point Error'', 17 := ''#AC Alignment Check Exception'',
            18 := ''#MC Machine-Check Exception'', 19 := ''#XF SIMD Floating-Point Exception'']
     in Inr (s\<lparr>intr_names := names\<rparr>)))"

definition register_handler ::
    "(nat \<Rightarrow> addr) \<Rightarrow> nat \<Rightarrow> nat \<Rightarrow> intr_level \<Rightarrow> addr \<Rightarrow> string \<Rightarrow> 'a intr_state_scheme \<Rightarrow> 'a intr_state_scheme result" where
  "register_handler intr_stubs vec_no dpl level handler name s =
     rbind (rget (intr_handlers s) vec_no) (\<lambda>h.
     rbind (rassert (h = NULL)) (\<lambda>_.
     rbind (if level = INTR_ON then make_trap_gate (intr_stubs vec_no) dpl
            else make_intr_gate (intr_stubs vec_no) dpl) (\<lambda>g.
     rbind (rput (idt s) vec_no g) (\<lambda>t.
     rbind (rput (intr_handlers s) vec_no handler) (\<lambda>hs.
     rbind (rput (intr_names s) vec_no name) (\<lambda>ns.
     Inr (s\<lparr>idt := t, intr_handlers := hs, intr_names := ns\<rparr>)))))))"

definition intr_register_ext ::
    "(nat \<Rightarrow> addr) \<Rightarrow> nat \<Rightarrow> addr \<Rightarrow> string \<Rightarrow> 'a intr_state_scheme \<Rightarrow> 'a intr_state_scheme result" where
  "intr_register_ext intr_stubs vec_no handler name s =
     rbind (rassert (vec_no \<ge> 0x20 \<and> vec_no \<le> 0x2f)) (\<lambda>_.
     register_handler intr_stubs vec_no 0 INTR_OFF handler name s)"

definition intr_register_int ::
    "(nat \<Rightarrow> addr) \<Rightarrow> nat \<Rightarrow> nat \<Rightarrow> intr_level \<Rightarrow> addr \<Rightarrow> string \<Rightarrow> 'a intr_state_scheme \<Rightarrow> 'a intr_state_scheme result" where
  "intr_register_int intr_stubs vec_no dpl level handler name s =
     rbind (rassert (vec_no < 0x20 \<or> vec_no > 0x2f)) (\<lambda>_.
     register_handler intr_stubs vec_no dpl level handler name s)"

definition intr_name :: "nat \<Rightarrow> 'a intr_state_scheme \<Rightarrow> string result" where
  "intr_name vec s = rget (intr_names s) vec"

section \<open>Handling\<close>

text \<open>The message that every power of two unexpected interrupts prints is not part of the state.\<close>

definition unexpected_interrupt :: "nat \<Rightarrow> 'a intr_state_scheme \<Rightarrow> 'a intr_state_scheme result" where
  "unexpected_interrupt vec_no s =
     rbind (rget (unexpected_cnt s) vec_no) (\<lambda>n.
     rbind (rput (unexpected_cnt s) vec_no (n + 1)) (\<lambda>cs.
     Inr (s\<lparr>unexpected_cnt := cs\<rparr>)))"

text \<open>
  \<open>call\<close> is the effect of calling a handler by its address, and \<open>thread_yield\<close> the function of
  \<open>thread.c\<close>, which this file calls.
\<close>

definition intr_handler ::
    "(addr \<Rightarrow> nat \<Rightarrow> 'a intr_state_scheme \<Rightarrow> 'a intr_state_scheme result) \<Rightarrow>
     ('a intr_state_scheme \<Rightarrow> 'a intr_state_scheme result) \<Rightarrow> nat \<Rightarrow> 'a intr_state_scheme \<Rightarrow> 'a intr_state_scheme result" where
  "intr_handler call thread_yield vec_no s =
    (let external = (vec_no \<ge> 0x20 \<and> vec_no < 0x30) in
     rbind (if external then
              rbind (rassert (intr_get_level s = INTR_OFF)) (\<lambda>_.
              rbind (rassert (\<not> intr_context s)) (\<lambda>_.
              Inr (s\<lparr>in_external_intr := True, yield_on_return := False\<rparr>)))
            else Inr s) (\<lambda>s.
     rbind (rget (intr_handlers s) vec_no) (\<lambda>handler.
     rbind (if handler \<noteq> NULL then call handler vec_no s
            else if vec_no = 0x27 \<or> vec_no = 0x2f then Inr s
            else unexpected_interrupt vec_no s) (\<lambda>s.
     if external then
       rbind (rassert (intr_get_level s = INTR_OFF)) (\<lambda>_.
       rbind (rassert (intr_context s)) (\<lambda>_.
       rbind (pic_end_of_interrupt vec_no (s\<lparr>in_external_intr := False\<rparr>)) (\<lambda>s.
       if yield_on_return s then thread_yield s else Inr s)))
     else Inr s))))"

section \<open>What the processor reads from a gate\<close>

text \<open>The fields of a gate descriptor, as the processor decodes them.\<close>

definition gate_offset :: "64 word \<Rightarrow> addr" where
  "gate_offset g = ucast (take_bit 16 g) OR push_bit 16 (ucast (drop_bit 48 g))"

definition gate_selector :: "64 word \<Rightarrow> 16 word" where
  "gate_selector g = ucast (drop_bit 16 g)"

definition gate_dpl :: "64 word \<Rightarrow> nat" where
  "gate_dpl g = unat (take_bit 2 (drop_bit 45 g))"

definition gate_type :: "64 word \<Rightarrow> nat" where
  "gate_type g = unat (take_bit 4 (drop_bit 40 g))"

definition gate_present :: "64 word \<Rightarrow> bool" where
  "gate_present g = bit g 47"

lemma bit_0xffff: "bit (0xffff :: addr) n \<longleftrightarrow> n < 16"
proof -
  have eq: "(0xffff :: addr) = mask 16" by (simp add: mask_eq_exp_minus_1)
  show ?thesis unfolding eq bit_mask_iff by auto
qed

lemma bit_0xffff0000: "bit (0xffff0000 :: addr) n \<longleftrightarrow> 16 \<le> n \<and> n < 32"
proof -
  have eq: "(0xffff0000 :: addr) = push_bit 16 (mask 16)" by (simp add: mask_eq_exp_minus_1)
  show ?thesis unfolding eq by (auto simp: bit_push_bit_iff bit_mask_iff)
qed

lemma bit_SEL_KCSEG: "bit SEL_KCSEG n \<longleftrightarrow> n = 3"
proof -
  have eq: "SEL_KCSEG = push_bit 3 1" by (simp add: SEL_KCSEG_def)
  show ?thesis unfolding eq bit_push_bit_iff bit_1_iff by auto
qed

lemma bit_of_nat32: "bit (of_nat k :: 32 word) n \<longleftrightarrow> n < 32 \<and> bit k n"
  by (simp add: bit_of_nat_iff)

lemma small_bit: "k < 2 ^ m \<Longrightarrow> bit k n \<Longrightarrow> n < m" for k :: nat
proof (rule ccontr)
  assume "k < 2 ^ m" "bit k n" "\<not> n < m"
  then have "k < 2 ^ n" by (meson less_le_trans not_less one_le_numeral power_increasing)
  then show False using \<open>bit k n\<close> by (simp add: bit_iff_odd)
qed

text \<open>The two halves of the gate.\<close>

definition gate_lo :: "addr \<Rightarrow> 32 word" where
  "gate_lo f = (f AND 0xffff) OR push_bit 16 SEL_KCSEG"

definition gate_hi :: "addr \<Rightarrow> nat \<Rightarrow> nat \<Rightarrow> 32 word" where
  "gate_hi f dpl type = (f AND 0xffff0000) OR push_bit 15 1 OR push_bit 13 (of_nat dpl)
     OR push_bit 12 0 OR push_bit 8 (of_nat type)"

lemma make_gate_halves:
  assumes "make_gate f dpl type = Inr g"
  shows "f \<noteq> NULL" "dpl < 4" "type < 16" "bit g n \<longleftrightarrow> (if n < 32 then bit (gate_lo f) n else bit (gate_hi f dpl type) (n - 32))"
proof -
  have g: "g = ucast (gate_lo f) OR push_bit 32 (ucast (gate_hi f dpl type))" and "f \<noteq> NULL" "dpl \<le> 3" "type \<le> 15"
    using assms by (auto simp: make_gate_def gate_lo_def gate_hi_def Let_def)
  then show "f \<noteq> NULL" "dpl < 4" "type < 16" by auto
  show "bit g n \<longleftrightarrow> (if n < 32 then bit (gate_lo f) n else bit (gate_hi f dpl type) (n - 32))"
    unfolding g using bit_imp_le_length[of "gate_lo f" n] bit_imp_le_length[of "gate_hi f dpl type" "n - 32"]
    by (auto simp: bit_simps)
qed

lemma bit_gate_lo: "bit (gate_lo f) n \<longleftrightarrow> n < 16 \<and> bit f n \<or> n = 19"
  unfolding gate_lo_def bit_or_iff bit_and_iff bit_0xffff bit_push_bit_iff bit_SEL_KCSEG by auto

lemma bit_gate_hi:
  assumes "dpl < 4" "type < 16"
  shows "bit (gate_hi f dpl type) n \<longleftrightarrow> 16 \<le> n \<and> bit f n \<or> n = 15 \<or> 13 \<le> n \<and> bit dpl (n - 13) \<or> 8 \<le> n \<and> bit type (n - 8)"
proof -
  have "bit dpl k \<Longrightarrow> k < 2" "bit type k \<Longrightarrow> k < 4" for k
    using small_bit[of dpl 2 k] small_bit[of type 4 k] assms by auto
  then have d: "bit dpl (n - 13) \<Longrightarrow> n < 15" "bit type (n - 8) \<Longrightarrow> n < 12"
    by fastforce+
  show ?thesis
    unfolding gate_hi_def bit_or_iff bit_and_iff bit_0xffff0000 bit_push_bit_iff bit_of_nat32
    using d bit_imp_le_length[of f n] by (auto simp: bit_1_iff)
qed

lemma make_gate_decodes_fields:
  assumes "make_gate f dpl type = Inr g"
  shows "gate_offset g = f \<and> gate_selector g = 0x08 \<and> gate_dpl g = dpl \<and> gate_type g = type \<and> gate_present g"
proof (intro conjI)
  note h = make_gate_halves[OF assms]
  note hi = bit_gate_hi[OF h(2,3)]
  have dpl: "\<not> bit dpl k" if "2 \<le> k" for k using small_bit[of dpl 2 k] h(2) that by auto
  have tpb: "\<not> bit type k" if "4 \<le> k" for k using small_bit[of "type" 4 k] h(3) that by auto
  show "gate_offset g = f"
  proof (rule bit_word_eqI)
    fix n assume n: "n < LENGTH(32)"
    have "\<not> bit dpl (n - 13)" "\<not> bit type (n - 8)" if "16 \<le> n" using dpl[of "n - 13"] tpb[of "n - 8"] that by auto
    then show "bit (gate_offset g) n = bit f n"
      using n by (cases "n < 16") (auto simp: gate_offset_def bit_simps h(4) bit_gate_lo hi)
  qed
  show "gate_selector g = 0x08"
  proof (rule bit_word_eqI)
    fix n assume n: "n < LENGTH(16)"
    have "(0x08 :: 16 word) = push_bit 3 1" by simp
    then have "bit (0x08 :: 16 word) n \<longleftrightarrow> n = 3" by (simp only: bit_push_bit_iff bit_1_iff) auto
    then show "bit (gate_selector g) n = bit (0x08 :: 16 word) n"
      using n by (auto simp: gate_selector_def bit_simps h(4) bit_gate_lo)
  qed
  have "take_bit 2 (drop_bit 45 g) = of_nat dpl"
  proof (rule bit_word_eqI)
    fix n assume n: "n < LENGTH(64)"
    show "bit (take_bit 2 (drop_bit 45 g)) n = bit (of_nat dpl :: 64 word) n"
      using n dpl[of n] tpb[of "5 + n"] by (cases "n < 2") (auto simp: bit_simps h(4) hi bit_of_nat_iff)
  qed
  then show "gate_dpl g = dpl" using h(2) by (simp add: gate_dpl_def unat_of_nat)
  have "take_bit 4 (drop_bit 40 g) = of_nat type"
  proof (rule bit_word_eqI)
    fix n assume n: "n < LENGTH(64)"
    show "bit (take_bit 4 (drop_bit 40 g)) n = bit (of_nat type :: 64 word) n"
      using n tpb[of n] by (cases "n < 4") (auto simp: bit_simps h(4) hi bit_of_nat_iff)
  qed
  then show "gate_type g = type" using h(3) by (simp add: gate_type_def unat_of_nat)
  show "gate_present g" using h(4)[of 47] hi[of f 15] by (simp add: gate_present_def)
qed

text \<open>
  C24. A gate built by \<open>make_gate\<close> is read by the processor as a present gate with the given
  entry point, privilege level and type, in the kernel code segment.
\<close>

theorem make_gate_decodes:
  assumes "make_gate f dpl type = Inr g"
  shows "gate_offset g = f \<and> gate_selector g = 0x08 \<and> gate_dpl g = dpl \<and> gate_type g = type \<and> gate_present g"
  by (rule make_gate_decodes_fields[OF assms])

theorem make_gate_decodes_witness:
  "\<exists>g. make_gate 0xc0021234 3 15 = Inr g \<and> gate_offset g = 0xc0021234 \<and> gate_dpl g = 3"
proof -
  obtain g where g: "make_gate 0xc0021234 3 15 = Inr g" by (simp add: make_gate_def NULL_def Let_def)
  then show ?thesis using make_gate_decodes[OF g] by blast
qed

section \<open>The handler table\<close>

definition intr_ok :: "'a intr_state_scheme \<Rightarrow> bool" where
  "intr_ok s \<longleftrightarrow> length (idt s) = INTR_CNT \<and> length (intr_handlers s) = INTR_CNT \<and> length (intr_names s) = INTR_CNT
     \<and> length (unexpected_cnt s) = INTR_CNT"

text \<open>
  C34. Registering a handler for an unused vector succeeds, enters the handler, its name and a
  gate to the vector's stub, and changes no other vector; a trap gate, which leaves interrupts
  on, is used exactly when the level is \<open>INTR_ON\<close>. Registering the vector again fails.
\<close>

theorem register_handler_installs:
  assumes "intr_ok s" and "vec < INTR_CNT" and "intr_handlers s ! vec = NULL" and "dpl \<le> 3" and "stubs vec \<noteq> NULL"
  shows "\<exists>s'. register_handler stubs vec dpl level h name s = Inr s' \<and> intr_ok s'
    \<and> intr_handlers s' ! vec = h \<and> intr_name vec s' = Inr name
    \<and> gate_offset (idt s' ! vec) = stubs vec \<and> gate_dpl (idt s' ! vec) = dpl
    \<and> gate_type (idt s' ! vec) = (if level = INTR_ON then 15 else 14)
    \<and> (\<forall>v. v \<noteq> vec \<longrightarrow> intr_handlers s' ! v = intr_handlers s ! v \<and> idt s' ! v = idt s ! v \<and> intr_names s' ! v = intr_names s ! v)
    \<and> (h \<noteq> NULL \<longrightarrow> register_handler stubs vec dpl' level' h' name' s' = Inl Assert_fail)"
proof -
  obtain g where g: "make_gate (stubs vec) dpl (if level = INTR_ON then 15 else 14) = Inr g"
    using assms(4,5) by (auto simp: make_gate_def Let_def)
  then have g': "(if level = INTR_ON then make_trap_gate (stubs vec) dpl else make_intr_gate (stubs vec) dpl) = Inr g"
    by (simp add: make_trap_gate_def make_intr_gate_def split: if_splits)
  define s' where "s' = s\<lparr>idt := (idt s)[vec := g], intr_handlers := (intr_handlers s)[vec := h], intr_names := (intr_names s)[vec := name]\<rparr>"
  have reg: "register_handler stubs vec dpl level h name s = Inr s'"
    using assms(1-3) g' by (simp add: register_handler_def intr_ok_def s'_def)
  have at: "idt s' ! vec = g" "intr_handlers s' ! vec = h" "intr_name vec s' = Inr name"
    using assms(1,2) by (simp_all add: s'_def intr_ok_def intr_name_def)
  have again: "h \<noteq> NULL \<longrightarrow> register_handler stubs vec dpl' level' h' name' s' = Inl Assert_fail"
    using assms(1,2) at(2) by (simp add: register_handler_def s'_def intr_ok_def)
  have "intr_ok s'" using assms(1) by (simp add: s'_def intr_ok_def)
  moreover have "\<forall>v. v \<noteq> vec \<longrightarrow> intr_handlers s' ! v = intr_handlers s ! v \<and> idt s' ! v = idt s ! v \<and> intr_names s' ! v = intr_names s ! v"
    by (simp add: s'_def)
  ultimately show ?thesis
    using reg at again make_gate_decodes_fields[OF g] by (intro exI[of _ s']) simp
qed

definition ex_intr :: intr_state where
  "ex_intr = \<lparr>if_flag = False, idt = replicate 256 0, idtr = 0, intr_handlers = replicate 256 NULL,
     intr_names = replicate 256 [], unexpected_cnt = replicate 256 0, in_external_intr = False,
     yield_on_return = False, port_out = []\<rparr>"

lemma ex_intr_ok: "intr_ok ex_intr"
  by (simp add: ex_intr_def intr_ok_def INTR_CNT_def)

theorem register_handler_installs_witness:
  "\<exists>s'. register_handler (\<lambda>_. 0xc0020000) 0x30 3 INTR_ON 0xc0021000 ''syscall'' ex_intr = Inr s'
    \<and> intr_handlers s' ! 0x30 = 0xc0021000 \<and> gate_type (idt s' ! 0x30) = 15"
proof -
  have "intr_handlers ex_intr ! 0x30 = NULL" "(0x30 :: nat) < INTR_CNT"
    by (simp_all add: ex_intr_def INTR_CNT_def)
  from register_handler_installs[OF ex_intr_ok this(2,1), of 3 "\<lambda>_. 0xc0020000" INTR_ON "0xc0021000" "''syscall''" 0 INTR_ON 0 "[]"]
  show ?thesis by (auto simp: NULL_def)
qed

end
