(* ===== verification/Thread.thy ===== *)
theory Thread
  imports Malloc Interrupt
begin

text \<open>
  The threads of \<open>src/threads/thread.c\<close>: thread records, the run queue, the switch from one
  thread to the next, and thread creation and exit. The second part gives every scheduling
  operation a closed form on states whose queue is well formed.
\<close>

section \<open>State\<close>

datatype thread_status = THREAD_RUNNING | THREAD_READY | THREAD_BLOCKED | THREAD_DYING

record thread =
  tid :: int
  status :: thread_status
  name :: "byte list"
  stack :: addr
  priority :: int
  exit_status :: int
  child_list :: "addr list"
  pagedir :: addr
  load_succeeded :: bool
  next_fd :: int
  fd_table :: addr
  thread_magic :: "32 word"

record semaphore =
  val :: nat
  waiters :: "addr list"

text \<open>
  The state of the scheduler extends the interrupt state. Threads and semaphores are named by
  their addresses. The lists of threads are the sequences that the kernel lists implement.
  \<open>running\<close> is the page of the stack pointer; \<open>cr3\<close> and \<open>esp0\<close> are set by a thread switch.
\<close>

text \<open>
  The calls a thread has on its stack, as far as they are inside the kernel's scheduling and
  synchronization code. A call that switches threads leaves the rest of its work as the top
  of the stack of its thread.
\<close>

datatype kcall =
    Kernel_thread addr addr
  | Yield
  | Block
  | Set_level intr_level
  | Idle_loop
  | Idle_wake
  | Sema_down addr
  | Sema_retest addr intr_level
  | Sema_try_down addr
  | Sema_up addr
  | Lock_acquire addr
  | Lock_try_acquire addr
  | Lock_taken addr
  | Lock_release addr
  | Cond_wait addr addr addr
  | Cond_signal addr addr
  | Cond_broadcast addr addr
  | Timer_sleep int
  | Sleep_loop int int
  | Timer_intr
  | Iret

record kstate = intr_state +
  threads :: "addr \<Rightarrow> thread option"
  running :: addr
  conts :: "addr \<Rightarrow> kcall list"
  ready_list :: "addr list"
  all_list :: "addr list"
  idle_thread :: addr
  initial_thread :: addr
  tid_lock :: bool
  next_tid :: int
  thread_ticks :: nat
  idle_ticks :: int
  kernel_ticks :: int
  user_ticks :: int
  timer_ticks :: int
  semas :: "addr \<Rightarrow> semaphore"
  holder :: "addr \<Rightarrow> addr"
  cond_waiters :: "addr \<Rightarrow> addr list"
  cr3 :: addr
  esp0 :: addr
  init_page_dir :: addr
  pal :: palloc_state

definition THREAD_MAGIC :: "32 word" where
  "THREAD_MAGIC = 0xcd6abf4b"

definition PRI_MIN :: int where "PRI_MIN = 0"
definition PRI_DEFAULT :: int where "PRI_DEFAULT = 31"
definition PRI_MAX :: int where "PRI_MAX = 63"
definition TID_ERROR :: int where "TID_ERROR = - 1"
definition TIME_SLICE :: nat where "TIME_SLICE = 4"

text \<open>The offsets of the semaphores inside a thread.\<close>

definition wait_sema :: "addr \<Rightarrow> addr" where "wait_sema t = t + 80"
definition destroy_sema :: "addr \<Rightarrow> addr" where "destroy_sema t = t + 100"
definition load_sema :: "addr \<Rightarrow> addr" where "load_sema t = t + 124"

definition get_thread :: "kstate \<Rightarrow> addr \<Rightarrow> thread result" where
  "get_thread s t = (case threads s t of None \<Rightarrow> Inl Mem_fault | Some x \<Rightarrow> Inr x)"

definition put_thread :: "addr \<Rightarrow> thread \<Rightarrow> kstate \<Rightarrow> kstate" where
  "put_thread t x s = s\<lparr>threads := (threads s)(t \<mapsto> x)\<rparr>"

definition set_status :: "addr \<Rightarrow> thread_status \<Rightarrow> kstate \<Rightarrow> kstate result" where
  "set_status t st s = rbind (get_thread s t) (\<lambda>x. Inr (put_thread t (x\<lparr>status := st\<rparr>) s))"

section \<open>The running thread\<close>

definition running_thread :: "kstate \<Rightarrow> addr" where
  "running_thread s = running s"

definition is_thread :: "kstate \<Rightarrow> addr \<Rightarrow> bool" where
  "is_thread s t \<longleftrightarrow> t \<noteq> NULL \<and> (case threads s t of None \<Rightarrow> False | Some x \<Rightarrow> thread_magic x = THREAD_MAGIC)"

definition thread_current :: "kstate \<Rightarrow> addr result" where
  "thread_current s =
    (let t = running_thread s in
     rbind (rassert (is_thread s t)) (\<lambda>_.
     rbind (get_thread s t) (\<lambda>x.
     rbind (rassert (status x = THREAD_RUNNING)) (\<lambda>_. Inr t))))"

definition thread_name :: "kstate \<Rightarrow> byte list result" where
  "thread_name s = rbind (thread_current s) (\<lambda>t. rbind (get_thread s t) (\<lambda>x. Inr (name x)))"

definition thread_tid :: "kstate \<Rightarrow> int result" where
  "thread_tid s = rbind (thread_current s) (\<lambda>t. rbind (get_thread s t) (\<lambda>x. Inr (tid x)))"

definition thread_get_priority :: "kstate \<Rightarrow> int result" where
  "thread_get_priority s = rbind (thread_current s) (\<lambda>t. rbind (get_thread s t) (\<lambda>x. Inr (priority x)))"

definition thread_set_priority :: "int \<Rightarrow> kstate \<Rightarrow> kstate result" where
  "thread_set_priority new_priority s =
     rbind (thread_current s) (\<lambda>t. rbind (get_thread s t) (\<lambda>x. Inr (put_thread t (x\<lparr>priority := new_priority\<rparr>) s)))"

definition thread_set_nice :: "int \<Rightarrow> kstate \<Rightarrow> kstate" where "thread_set_nice nice s = s"
definition thread_get_nice :: "kstate \<Rightarrow> int" where "thread_get_nice s = 0"
definition thread_get_load_avg :: "kstate \<Rightarrow> int" where "thread_get_load_avg s = 0"
definition thread_get_recent_cpu :: "kstate \<Rightarrow> int" where "thread_get_recent_cpu s = 0"

fun find_child :: "kstate \<Rightarrow> int \<Rightarrow> addr list \<Rightarrow> addr result" where
  "find_child s i [] = Inr NULL"
| "find_child s i (t # ts) = rbind (get_thread s t) (\<lambda>x. if tid x = i then Inr t else find_child s i ts)"

definition thread_get_child :: "int \<Rightarrow> kstate \<Rightarrow> addr result" where
  "thread_get_child i s =
     rbind (thread_current s) (\<lambda>t. rbind (get_thread s t) (\<lambda>x. find_child s i (child_list x)))"

definition thread_foreach :: "(addr \<Rightarrow> kstate \<Rightarrow> kstate result) \<Rightarrow> kstate \<Rightarrow> kstate result" where
  "thread_foreach func s =
     rbind (rassert (intr_get_level s = INTR_OFF)) (\<lambda>_. rfor func (all_list s) s)"

section \<open>Scheduling\<close>

definition next_thread_to_run :: "kstate \<Rightarrow> addr \<times> kstate" where
  "next_thread_to_run s =
    (case ready_list s of [] \<Rightarrow> (idle_thread s, s) | t # ts \<Rightarrow> (t, s\<lparr>ready_list := ts\<rparr>))"

text \<open>\<open>process_activate\<close> of \<open>process.c\<close>: the page directory and the kernel stack of the new thread.\<close>

definition process_activate :: "kstate \<Rightarrow> kstate result" where
  "process_activate s =
     rbind (thread_current s) (\<lambda>t.
     rbind (get_thread s t) (\<lambda>x.
     rbind (vtop (if pagedir x = NULL then init_page_dir s else pagedir x)) (\<lambda>pa.
     Inr (s\<lparr>cr3 := pa, esp0 := t + PGSIZE\<rparr>))))"

definition thread_schedule_tail :: "addr \<Rightarrow> kstate \<Rightarrow> kstate result" where
  "thread_schedule_tail prev s =
    (let cur = running_thread s in
     rbind (rassert (intr_get_level s = INTR_OFF)) (\<lambda>_.
     rbind (set_status cur THREAD_RUNNING s) (\<lambda>s.
     rbind (process_activate (s\<lparr>thread_ticks := 0\<rparr>)) (\<lambda>s.
     if prev \<noteq> NULL then
       rbind (get_thread s prev) (\<lambda>p.
       if status p = THREAD_DYING \<and> prev \<noteq> initial_thread s then
         rbind (rassert (prev \<noteq> cur)) (\<lambda>_.
         rbind (palloc_free_page prev (pal s)) (\<lambda>ps.
         Inr (s\<lparr>pal := ps, threads := (threads s)(prev := None)\<rparr>)))
       else Inr s)
     else Inr s))))"

text \<open>
  \<open>switch_threads\<close> (in assembly) makes the next thread the running one; the call returns in
  the next thread, which runs \<open>thread_schedule_tail\<close> there.
\<close>

definition schedule :: "kstate \<Rightarrow> kstate result" where
  "schedule s =
    (let cur = running_thread s; (nxt, s) = next_thread_to_run s in
     rbind (rassert (intr_get_level s = INTR_OFF)) (\<lambda>_.
     rbind (get_thread s cur) (\<lambda>c.
     rbind (rassert (status c \<noteq> THREAD_RUNNING)) (\<lambda>_.
     rbind (rassert (is_thread s nxt)) (\<lambda>_.
     if cur \<noteq> nxt then thread_schedule_tail cur (s\<lparr>running := nxt\<rparr>)
     else thread_schedule_tail NULL s)))))"

definition thread_block :: "kstate \<Rightarrow> kstate result" where
  "thread_block s =
     rbind (rassert (\<not> intr_context s)) (\<lambda>_.
     rbind (rassert (intr_get_level s = INTR_OFF)) (\<lambda>_.
     rbind (thread_current s) (\<lambda>cur.
     rbind (set_status cur THREAD_BLOCKED s) schedule)))"

definition thread_unblock :: "addr \<Rightarrow> kstate \<Rightarrow> kstate result" where
  "thread_unblock t s =
     rbind (rassert (is_thread s t)) (\<lambda>_.
     let (old_level, s) = intr_disable s in
     rbind (get_thread s t) (\<lambda>x.
     rbind (rassert (status x = THREAD_BLOCKED)) (\<lambda>_.
     rbind (set_status t THREAD_READY (s\<lparr>ready_list := ready_list s @ [t]\<rparr>)) (\<lambda>s.
     rbind (intr_set_level old_level s) (\<lambda>(_, s). Inr s)))))"

text \<open>
  The first half of \<open>thread_yield\<close>, up to the switch. Its second half, \<open>intr_set_level
  (old_level)\<close>, runs when the thread is scheduled again.
\<close>

definition thread_yield :: "kstate \<Rightarrow> (intr_level \<times> kstate) result" where
  "thread_yield s =
     rbind (thread_current s) (\<lambda>cur.
     rbind (rassert (\<not> intr_context s)) (\<lambda>_.
     let (old_level, s) = intr_disable s;
         s = (if cur \<noteq> idle_thread s then s\<lparr>ready_list := ready_list s @ [cur]\<rparr> else s) in
     rbind (set_status cur THREAD_READY s) (\<lambda>s.
     rbind (schedule s) (\<lambda>s. Inr (old_level, s)))))"

text \<open>\<open>process_exit\<close> of \<open>process.c\<close> runs first; the thread is gone after the switch.\<close>

definition thread_exit :: "(kstate \<Rightarrow> kstate result) \<Rightarrow> kstate \<Rightarrow> kstate result" where
  "thread_exit process_exit s =
     rbind (rassert (\<not> intr_context s)) (\<lambda>_.
     rbind (process_exit s) (\<lambda>s.
     let (_, s) = intr_disable s in
     rbind (thread_current s) (\<lambda>cur.
     rbind (rassert (cur \<in> set (all_list s))) (\<lambda>_.
     rbind (set_status cur THREAD_DYING (s\<lparr>all_list := remove1 cur (all_list s)\<rparr>)) schedule))))"

definition thread_tick :: "kstate \<Rightarrow> kstate result" where
  "thread_tick s =
     rbind (thread_current s) (\<lambda>t.
     rbind (get_thread s t) (\<lambda>x.
     let s = (if t = idle_thread s then s\<lparr>idle_ticks := idle_ticks s + 1\<rparr>
              else if pagedir x \<noteq> NULL then s\<lparr>user_ticks := user_ticks s + 1\<rparr>
              else s\<lparr>kernel_ticks := kernel_ticks s + 1\<rparr>);
         s = s\<lparr>thread_ticks := sz_add (thread_ticks s) 1\<rparr>
     in if thread_ticks s \<ge> TIME_SLICE then intr_yield_on_return s else Inr s))"

text \<open>The two halves of an iteration of \<open>idle\<close>, around the switch.\<close>

definition idle_block :: "kstate \<Rightarrow> kstate result" where
  "idle_block s = (let (_, s) = intr_disable s in thread_block s)"

definition idle_wake :: "kstate \<Rightarrow> kstate" where
  "idle_wake s = s\<lparr>if_flag := True\<rparr>"

text \<open>The part of \<open>kernel_thread\<close> before the thread function.\<close>

definition enter_thread :: "addr \<Rightarrow> kstate \<Rightarrow> kstate result" where
  "enter_thread function s =
     rbind (rassert (function \<noteq> NULL)) (\<lambda>_. rbind (intr_enable s) (\<lambda>(_, s). Inr s))"

section \<open>Creation\<close>

text \<open>The lock is taken and given back inside the call.\<close>

definition allocate_tid :: "kstate \<Rightarrow> (int \<times> kstate) result" where
  "allocate_tid s =
     rbind (rassert (\<not> tid_lock s)) (\<lambda>_. Inr (next_tid s, s\<lparr>next_tid := next_tid s + 1\<rparr>))"

definition sema_init :: "addr \<Rightarrow> nat \<Rightarrow> kstate \<Rightarrow> kstate result" where
  "sema_init sema v s =
     rbind (rassert (sema \<noteq> NULL)) (\<lambda>_. Inr (s\<lparr>semas := (semas s)(sema := \<lparr>val = v, waiters = []\<rparr>)\<rparr>))"

definition init_thread :: "addr \<Rightarrow> byte list \<Rightarrow> int \<Rightarrow> kstate \<Rightarrow> kstate result" where
  "init_thread t nm prio s =
     rbind (rassert (t \<noteq> NULL)) (\<lambda>_.
     rbind (rassert (PRI_MIN \<le> prio \<and> prio \<le> PRI_MAX)) (\<lambda>_.
     let x = \<lparr>tid = 0, status = THREAD_BLOCKED, name = take 15 nm, stack = t + PGSIZE, priority = prio,
              exit_status = 0, child_list = [], pagedir = NULL, load_succeeded = False, next_fd = 0,
              fd_table = NULL, thread_magic = THREAD_MAGIC\<rparr> in
     rbind (sema_init (wait_sema t) 0 (put_thread t x s)) (\<lambda>s.
     rbind (sema_init (destroy_sema t) 0 s) (\<lambda>s.
     rbind (sema_init (load_sema t) 0 s) (\<lambda>s.
     let (old_level, s) = intr_disable s in
     rbind (intr_set_level old_level (s\<lparr>all_list := all_list s @ [t]\<rparr>)) (\<lambda>(_, s). Inr s))))))"

definition thread_init :: "kstate \<Rightarrow> kstate result" where
  "thread_init s =
     rbind (rassert (intr_get_level s = INTR_OFF)) (\<lambda>_.
     let s = s\<lparr>tid_lock := False, ready_list := [], all_list := [], initial_thread := running_thread s\<rparr> in
     rbind (init_thread (initial_thread s) (map of_nat [109, 97, 105, 110]) PRI_DEFAULT s) (\<lambda>s.
     rbind (set_status (initial_thread s) THREAD_RUNNING s) (\<lambda>s.
     rbind (allocate_tid s) (\<lambda>(i, s).
     rbind (get_thread s (initial_thread s)) (\<lambda>x.
     Inr (put_thread (initial_thread s) (x\<lparr>tid := i\<rparr>) s))))))"

definition alloc_frame :: "addr \<Rightarrow> nat \<Rightarrow> kstate \<Rightarrow> (addr \<times> kstate) result" where
  "alloc_frame t sz s =
     rbind (rassert (is_thread s t)) (\<lambda>_.
     rbind (rassert (sz mod 4 = 0)) (\<lambda>_.
     rbind (get_thread s t) (\<lambda>x.
     let p = stack x - of_nat sz in Inr (p, put_thread t (x\<lparr>stack := p\<rparr>) s))))"

definition store32 :: "addr \<Rightarrow> 32 word \<Rightarrow> memory \<Rightarrow> memory" where
  "store32 a v m = m(a := ucast v, a + 1 := ucast (drop_bit 8 v), a + 2 := ucast (drop_bit 16 v), a + 3 := ucast (drop_bit 24 v))"

definition poke :: "addr \<Rightarrow> 32 word \<Rightarrow> kstate \<Rightarrow> kstate" where
  "poke a v s = s\<lparr>pal := (pal s)\<lparr>ram := store32 a v (ram (pal s))\<rparr>\<rparr>"

text \<open>
  The stack frames of a new thread. \<open>kernel_thread\<close> and \<open>switch_entry\<close> stand for the addresses
  of the two functions.
\<close>

definition push_frames :: "addr \<Rightarrow> addr \<Rightarrow> addr \<Rightarrow> addr \<Rightarrow> addr \<Rightarrow> kstate \<Rightarrow> kstate result" where
  "push_frames kernel_thread switch_entry t function aux s =
     rbind (alloc_frame t 12 s) (\<lambda>(kf, s).
     let s = poke (kf + 8) aux (poke (kf + 4) function (poke kf NULL s)) in
     rbind (alloc_frame t 4 s) (\<lambda>(ef, s).
     let s = poke ef kernel_thread s in
     rbind (alloc_frame t 28 s) (\<lambda>(sf, s).
     let s = poke (sf + 8) 0 (poke (sf + 16) switch_entry s) in
     Inr (s\<lparr>conts := (conts s)(t := [Kernel_thread function aux])\<rparr>))))"

definition finish_create :: "addr \<Rightarrow> addr \<Rightarrow> addr \<Rightarrow> addr \<Rightarrow> addr \<Rightarrow> int \<Rightarrow> addr \<Rightarrow> kstate \<Rightarrow> (int \<times> kstate) result" where
  "finish_create kernel_thread switch_entry function aux t i fds s =
     rbind (get_thread s t) (\<lambda>x.
     let s = put_thread t (x\<lparr>next_fd := 2, fd_table := fds - 8\<rparr>) s in
     rbind (thread_current s) (\<lambda>cur.
     rbind (get_thread s cur) (\<lambda>c.
     let s = put_thread cur (c\<lparr>child_list := child_list c @ [t]\<rparr>) s in
     rbind (push_frames kernel_thread switch_entry t function aux s) (\<lambda>s.
     rbind (thread_unblock t s) (\<lambda>s. Inr (i, s))))))"

definition thread_create ::
    "addr \<Rightarrow> addr \<Rightarrow> byte list \<Rightarrow> int \<Rightarrow> addr \<Rightarrow> addr \<Rightarrow> kstate \<Rightarrow> (int \<times> kstate) result option" where
  "thread_create kernel_thread switch_entry nm prio function aux s =
     obind (oassert (function \<noteq> NULL)) (\<lambda>_.
     obind (palloc_get_page PAL_ZERO (pal s)) (\<lambda>(t, ps).
     let s = s\<lparr>pal := ps\<rparr> in
     if t = NULL then Some (Inr (TID_ERROR, s))
     else
       obind (Some (init_thread t nm prio s)) (\<lambda>s.
       obind (Some (allocate_tid s)) (\<lambda>(i, s).
       obind (Some (get_thread s t)) (\<lambda>x.
       let s = put_thread t (x\<lparr>tid := i\<rparr>) s in
       obind (palloc_get_multiple PAL_ZERO 2 (pal s)) (\<lambda>(fds, ps).
       let s = s\<lparr>pal := ps\<rparr> in
       if fds = NULL then
         obind (Some (palloc_free_page t (pal s))) (\<lambda>ps.
         Some (Inr (TID_ERROR, s\<lparr>pal := ps, threads := (threads s)(t := None)\<rparr>)))
       else Some (finish_create kernel_thread switch_entry function aux t i fds s)))))))"

section \<open>Invariant\<close>

definition st :: "kstate \<Rightarrow> addr \<Rightarrow> thread_status option" where
  "st s t = map_option status (threads s t)"

definition env_ok :: "kstate \<Rightarrow> bool" where
  "env_ok s \<longleftrightarrow> finite (dom (threads s)) \<and> is_kernel_vaddr (init_page_dir s)
     \<and> (\<forall>t x. threads s t = Some x \<longrightarrow> t \<noteq> NULL \<and> thread_magic x = THREAD_MAGIC
          \<and> (pagedir x \<noteq> NULL \<longrightarrow> is_kernel_vaddr (pagedir x)))
     \<and> length (intr_handlers s) = INTR_CNT \<and> intr_handlers s ! 0x20 \<noteq> NULL \<and> \<not> in_external_intr s"

definition queue_ok :: "kstate \<Rightarrow> bool" where
  "queue_ok s \<longleftrightarrow> distinct (ready_list s) \<and> (\<forall>t \<in> set (ready_list s). st s t = Some THREAD_READY)
     \<and> (\<forall>t. st s t = Some THREAD_READY \<longrightarrow> t \<in> set (ready_list s) \<or> t = idle_thread s)
     \<and> idle_thread s \<notin> set (ready_list s) \<and> st s (idle_thread s) \<noteq> None
     \<and> (\<forall>t. st s t = Some THREAD_RUNNING \<longrightarrow> t = running s) \<and> (\<forall>t. st s t \<noteq> Some THREAD_DYING)"

definition set_st :: "addr \<Rightarrow> thread_status \<Rightarrow> kstate \<Rightarrow> kstate" where
  "set_st t z s = s\<lparr>threads := (threads s)(t := map_option (\<lambda>x. x\<lparr>status := z\<rparr>) (threads s t))\<rparr>"

text \<open>The state after a switch to the next thread.\<close>

definition next_of :: "kstate \<Rightarrow> addr" where
  "next_of s = (case ready_list s of [] \<Rightarrow> idle_thread s | t # ts \<Rightarrow> t)"

definition switched :: "kstate \<Rightarrow> kstate" where
  "switched s = (let t = next_of s; pd = (case threads s t of None \<Rightarrow> NULL | Some x \<Rightarrow> pagedir x) in
     (set_st t THREAD_RUNNING s)\<lparr>running := t, ready_list := List.tl (ready_list s), thread_ticks := 0,
        cr3 := (if pd = NULL then init_page_dir s else pd) - PHYS_BASE, esp0 := t + PGSIZE\<rparr>)"

lemma set_status_eq: "threads s t \<noteq> None \<Longrightarrow> set_status t z s = Inr (set_st t z s)"
  by (auto simp: set_status_def get_thread_def put_thread_def set_st_def)

lemma st_set_st: "st (set_st t z s) u = (if u = t then map_option (\<lambda>_. z) (st s t) else st s u)"
  by (auto simp: st_def set_st_def option.map_comp comp_def)

lemma set_status_st: "st s t = Some y \<Longrightarrow> set_status t z s = Inr (set_st t z s)"
  by (rule set_status_eq) (auto simp: st_def)

lemma set_st_sel [simp]:
  "if_flag (set_st t z s) = if_flag s" "in_external_intr (set_st t z s) = in_external_intr s"
  "running (set_st t z s) = running s" "ready_list (set_st t z s) = ready_list s" "idle_thread (set_st t z s) = idle_thread s"
  "semas (set_st t z s) = semas s" "conts (set_st t z s) = conts s" "init_page_dir (set_st t z s) = init_page_dir s"
  "intr_handlers (set_st t z s) = intr_handlers s" "dom (threads (set_st t z s)) = dom (threads s)"
  "holder (set_st t z s) = holder s" "timer_ticks (set_st t z s) = timer_ticks s" "thread_ticks (set_st t z s) = thread_ticks s"
  by (auto simp: set_st_def dom_def)

lemma env_ok_set_st: "env_ok s \<Longrightarrow> env_ok (set_st t z s)"
  unfolding env_ok_def set_st_sel by (auto simp: set_st_def)

lemma switched_sel [simp]:
  "if_flag (switched s) = if_flag s" "in_external_intr (switched s) = in_external_intr s"
  "running (switched s) = next_of s" "ready_list (switched s) = List.tl (ready_list s)" "idle_thread (switched s) = idle_thread s"
  "semas (switched s) = semas s" "conts (switched s) = conts s" "init_page_dir (switched s) = init_page_dir s"
  "intr_handlers (switched s) = intr_handlers s" "dom (threads (switched s)) = dom (threads s)"
  "holder (switched s) = holder s" "timer_ticks (switched s) = timer_ticks s" "thread_ticks (switched s) = 0"
  by (auto simp: switched_def Let_def)

lemma threads_switched: "threads (switched s) = threads (set_st (next_of s) THREAD_RUNNING s)"
  by (simp add: switched_def Let_def)

lemma st_switched: "st (switched s) u = (if u = next_of s then map_option (\<lambda>_. THREAD_RUNNING) (st s u) else st s u)"
  using st_set_st[of "next_of s" THREAD_RUNNING s u] by (simp add: st_def threads_switched)

lemma env_ok_cong:
  "threads s' = threads s \<Longrightarrow> init_page_dir s' = init_page_dir s \<Longrightarrow> intr_handlers s' = intr_handlers s
   \<Longrightarrow> in_external_intr s' = in_external_intr s \<Longrightarrow> env_ok s' = env_ok s"
  by (simp only: env_ok_def)

lemma env_ok_switched: "env_ok s \<Longrightarrow> env_ok (switched s)"
  using env_ok_cong[of "switched s" "set_st (next_of s) THREAD_RUNNING s"] env_ok_set_st
  by (simp add: threads_switched)

lemma env_okD:
  assumes "env_ok s"
  shows "threads s t = Some x \<Longrightarrow> t \<noteq> NULL" and "threads s t = Some x \<Longrightarrow> thread_magic x = THREAD_MAGIC"
    and "threads s t = Some x \<Longrightarrow> pagedir x \<noteq> NULL \<Longrightarrow> is_kernel_vaddr (pagedir x)"
    and "is_kernel_vaddr (init_page_dir s)" and "\<not> in_external_intr s"
  using assms by (auto simp: env_ok_def)

lemma is_thread_ok: "env_ok s \<Longrightarrow> st s t \<noteq> None \<Longrightarrow> is_thread s t"
  using env_okD(1,2)[of s t] by (auto simp: is_thread_def st_def)

lemma thread_current_ok:
  "env_ok s \<Longrightarrow> st s (running s) = Some THREAD_RUNNING \<Longrightarrow> thread_current s = Inr (running s)"
  using is_thread_ok[of s "running s"]
  by (auto simp: thread_current_def running_thread_def get_thread_def st_def)

lemma schedule_tail_eq:
  assumes "env_ok s" and "\<not> if_flag s" and "threads s (running s) = Some x"
    and "prev = NULL \<or> (\<exists>z. st s prev = Some z \<and> z \<noteq> THREAD_DYING)"
  shows "thread_schedule_tail prev s = Inr ((set_st (running s) THREAD_RUNNING s)\<lparr>thread_ticks := 0,
     cr3 := (if pagedir x = NULL then init_page_dir s else pagedir x) - PHYS_BASE, esp0 := running s + PGSIZE\<rparr>)" (is "_ = Inr ?r")
proof -
  let ?s = "(set_st (running s) THREAD_RUNNING s)\<lparr>thread_ticks := 0\<rparr>"
  have env: "env_ok ?s" using env_ok_set_st[OF assms(1)] env_ok_cong[of ?s "set_st (running s) THREAD_RUNNING s"] by simp
  have x: "threads ?s (running s) = Some (x\<lparr>status := THREAD_RUNNING\<rparr>)" using assms(3) by (simp add: set_st_def)
  have cur: "thread_current ?s = Inr (running s)"
    using thread_current_ok[OF env] x by (simp add: st_def)
  have pd: "is_kernel_vaddr (if pagedir x = NULL then init_page_dir s else pagedir x)"
    using env_okD(3,4)[OF assms(1)] assms(3) by auto
  have act: "process_activate ?s = Inr ?r"
    using cur x pd by (cases "pagedir x = NULL") (simp_all add: process_activate_def get_thread_def vtop_def)
  have st: "set_status (running s) THREAD_RUNNING s = Inr (set_st (running s) THREAD_RUNNING s)"
    using assms(3) by (simp add: set_status_eq)
  have last: "prev = NULL \<or> (\<exists>y. threads ?r prev = Some y \<and> status y \<noteq> THREAD_DYING)"
    using assms(4) by (auto simp: set_st_def st_def)
  have "thread_schedule_tail prev s = (if prev \<noteq> NULL then
       rbind (get_thread ?r prev) (\<lambda>p. if status p = THREAD_DYING \<and> prev \<noteq> initial_thread ?r then
         rbind (rassert (prev \<noteq> running s)) (\<lambda>_.
         rbind (palloc_free_page prev (pal ?r)) (\<lambda>ps. Inr (?r\<lparr>pal := ps, threads := (threads ?r)(prev := None)\<rparr>)))
       else Inr ?r) else Inr ?r)"
    unfolding thread_schedule_tail_def Let_def running_thread_def
    using assms(2) st act by (simp add: intr_get_level_def)
  also have "\<dots> = Inr ?r"
    using last by (cases "prev = NULL") (auto simp: get_thread_def)
  finally show ?thesis .
qed

lemma next_thread_eq: "next_thread_to_run s = (next_of s, s\<lparr>ready_list := List.tl (ready_list s)\<rparr>)"
  by (cases "ready_list s") (simp_all add: next_thread_to_run_def next_of_def)

lemma next_of_thread: "queue_ok s \<Longrightarrow> st s (next_of s) \<noteq> None"
  by (auto simp: queue_ok_def next_of_def split: list.splits)

lemma schedule_eq:
  assumes "env_ok s" and "queue_ok s" and "\<not> if_flag s" and "st s (running s) = Some z" and "z \<noteq> THREAD_RUNNING"
  shows "schedule s = Inr (switched s)"
proof -
  let ?n = "next_of s" and ?q = "s\<lparr>ready_list := List.tl (ready_list s)\<rparr>"
  let ?r = "s\<lparr>ready_list := List.tl (ready_list s), running := next_of s\<rparr>"
  have env: "env_ok ?q" "env_ok ?r" using assms(1) env_ok_cong[of ?q s] env_ok_cong[of ?r s] by simp_all
  obtain x where x: "threads s ?n = Some x" using next_of_thread[OF assms(2)] by (auto simp: st_def)
  have nt: "is_thread ?q ?n" using is_thread_ok[OF env(1)] x by (simp add: st_def)
  have dying: "z \<noteq> THREAD_DYING" using assms(2,4) by (auto simp: queue_ok_def)
  have tail: "prev = NULL \<or> prev = running s \<Longrightarrow> thread_schedule_tail prev ?r = Inr (switched s)" for prev
    using schedule_tail_eq[OF env(2), of x prev] assms(3,4) x dying
    by (auto simp: switched_def Let_def set_st_def st_def)
  obtain c where c: "threads s (running s) = Some c" "status c \<noteq> THREAD_RUNNING"
    using assms(4,5) by (auto simp: st_def)
  have q: "running s = ?n \<Longrightarrow> ?q = ?r" by simp
  show ?thesis
  proof (cases "running s = ?n")
    case True
    then show ?thesis
      using nt assms(3) c tail[of NULL] q[OF True]
      by (simp add: schedule_def next_thread_eq running_thread_def get_thread_def intr_get_level_def)
  next
    case False
    then show ?thesis
      using nt assms(3) c tail[of "running s"]
      by (simp add: schedule_def next_thread_eq running_thread_def get_thread_def intr_get_level_def)
  qed
qed

lemma queue_ok_switched:
  assumes "queue_ok s" and "st s (running s) \<noteq> Some THREAD_RUNNING"
  shows "queue_ok (switched s)" and "st (switched s) (next_of s) = Some THREAD_RUNNING"
proof -
  have none: "\<forall>t. st s t \<noteq> Some THREAD_RUNNING" using assms by (auto simp: queue_ok_def)
  show r: "st (switched s) (next_of s) = Some THREAD_RUNNING"
    using next_of_thread[OF assms(1)] by (auto simp: st_switched)
  show "queue_ok (switched s)"
    using assms(1) none r
    by (cases "ready_list s") (auto simp: queue_ok_def st_switched next_of_def)
qed

section \<open>The scheduling operations\<close>

definition sched_ok :: "kstate \<Rightarrow> bool" where
  "sched_ok s \<longleftrightarrow> env_ok s \<and> queue_ok s \<and> st s (running s) = Some THREAD_RUNNING"

definition blocked :: "kstate \<Rightarrow> kstate" where
  "blocked s = switched (set_st (running s) THREAD_BLOCKED s)"

definition yielded :: "kstate \<Rightarrow> kstate" where
  "yielded s = switched (set_st (running s) THREAD_READY
     (s\<lparr>if_flag := False, ready_list := ready_list s @ (if running s = idle_thread s then [] else [running s])\<rparr>))"

lemma queue_okD:
  assumes "queue_ok s"
  shows "distinct (ready_list s)" and "t \<in> set (ready_list s) \<Longrightarrow> st s t = Some THREAD_READY"
    and "st s t = Some THREAD_READY \<Longrightarrow> t \<in> set (ready_list s) \<or> t = idle_thread s"
    and "idle_thread s \<notin> set (ready_list s)" and "st s (idle_thread s) \<noteq> None"
    and "st s t = Some THREAD_RUNNING \<Longrightarrow> t = running s" and "st s t \<noteq> Some THREAD_DYING"
  using assms unfolding queue_ok_def by blast+

lemma queue_ok_blocked:
  assumes "queue_ok s" and "st s (running s) = Some THREAD_RUNNING"
  shows "queue_ok (set_st (running s) THREAD_BLOCKED s)"
proof -
  have st: "st (set_st (running s) THREAD_BLOCKED s) t = (if t = running s then Some THREAD_BLOCKED else st s t)" for t
    using assms(2) by (simp add: st_set_st)
  have "running s \<notin> set (ready_list s)" using queue_okD(2)[OF assms(1)] assms(2) by fastforce
  then show ?thesis
    using queue_okD[OF assms(1)] unfolding queue_ok_def st set_st_sel
    by (intro conjI allI ballI impI) (auto split: if_splits)
qed

lemma thread_block_eq:
  assumes "sched_ok s" and "\<not> if_flag s"
  shows "thread_block s = Inr (blocked s)" and "sched_ok (blocked s)"
proof -
  let ?s = "set_st (running s) THREAD_BLOCKED s"
  have env: "env_ok ?s" and q: "queue_ok ?s" and b: "st ?s (running ?s) = Some THREAD_BLOCKED"
    using assms(1) env_ok_set_st queue_ok_blocked by (auto simp: sched_ok_def st_set_st)
  have "thread_current s = Inr (running s)" using assms(1) thread_current_ok by (simp add: sched_ok_def)
  moreover have "set_status (running s) THREAD_BLOCKED s = Inr ?s"
    using assms(1) by (simp add: set_status_st sched_ok_def)
  ultimately show "thread_block s = Inr (blocked s)"
    using assms env_okD(5) schedule_eq[OF env q _ b]
    by (simp add: thread_block_def intr_get_level_def intr_context_def sched_ok_def blocked_def)
  show "sched_ok (blocked s)"
    using queue_ok_switched[OF q] env_ok_switched[OF env] b by (simp add: sched_ok_def blocked_def)
qed

lemma thread_yield_eq:
  assumes "sched_ok s"
  shows "thread_yield s = Inr (intr_get_level s, yielded s)" and "sched_ok (yielded s)"
proof -
  let ?r = "s\<lparr>if_flag := False, ready_list := ready_list s @ (if running s = idle_thread s then [] else [running s])\<rparr>"
  let ?s = "set_st (running s) THREAD_READY ?r"
  have "env_ok ?r" using assms env_ok_cong[of ?r s] by (simp add: sched_ok_def)
  then have env: "env_ok ?s" by (rule env_ok_set_st)
  have same: "st ?r = st s" by (simp add: fun_eq_iff st_def)
  have "running s \<notin> set (ready_list s)" using assms by (auto simp: sched_ok_def queue_ok_def)
  moreover have st: "st ?s t = (if t = running s then Some THREAD_READY else st s t)" for t
    using assms by (simp add: st_set_st same sched_ok_def)
  moreover have "queue_ok s" using assms by (simp add: sched_ok_def)
  ultimately have q: "queue_ok ?s"
    using queue_okD[of s] unfolding queue_ok_def[of ?s] st set_st_sel
    by (intro conjI allI ballI impI) (auto split: if_splits)
  have b: "st ?s (running ?s) = Some THREAD_READY"
    using assms by (simp add: sched_ok_def st_set_st same)
  have set: "set_status (running s) THREAD_READY ?r = Inr ?s"
    using assms set_status_st[of ?r "running s"] by (simp add: sched_ok_def same)
  have cur: "thread_current s = Inr (running s)" using assms thread_current_ok by (simp add: sched_ok_def)
  define r' where "r' = ?r"
  have "schedule (set_st (running s) THREAD_READY r') = Inr (yielded s)"
    using schedule_eq[OF env q _ b] by (simp add: r'_def yielded_def)
  moreover have "running s \<noteq> idle_thread s \<Longrightarrow> s\<lparr>if_flag := False, ready_list := ready_list s @ [running s]\<rparr> = r'"
    "running s = idle_thread s \<Longrightarrow> s\<lparr>if_flag := False\<rparr> = r'" "idle_thread r' = idle_thread s"
    by (simp_all add: r'_def)
  moreover have "set_status (running s) THREAD_READY r' = Inr (set_st (running s) THREAD_READY r')"
    using set by (simp only: r'_def)
  ultimately show "thread_yield s = Inr (intr_get_level s, yielded s)"
    using cur env_okD(5)[of s] assms
    by (cases "running s = idle_thread s")
       (simp_all add: thread_yield_def intr_disable_def intr_context_def sched_ok_def)
  show "sched_ok (yielded s)"
    using queue_ok_switched[OF q] env_ok_switched[OF env] b by (simp add: sched_ok_def yielded_def)
qed

definition unblocked :: "addr \<Rightarrow> kstate \<Rightarrow> kstate" where
  "unblocked t s = set_st t THREAD_READY (s\<lparr>ready_list := ready_list s @ [t]\<rparr>)"

lemma set_level_back:
  assumes "\<not> in_external_intr s"
  shows "intr_set_level l s = Inr (intr_get_level s, s\<lparr>if_flag := (l = INTR_ON)\<rparr>)"
  using assms by (cases l) (simp_all add: intr_set_level_def intr_enable_def intr_disable_def intr_context_def Let_def)

lemma thread_unblock_eq:
  assumes "env_ok s" and "st s t = Some THREAD_BLOCKED"
  shows "thread_unblock t s = Inr (unblocked t s)"
proof -
  let ?r = "s\<lparr>if_flag := False, ready_list := ready_list s @ [t]\<rparr>"
  obtain x where x: "threads s t = Some x" "status x = THREAD_BLOCKED" using assms(2) by (auto simp: st_def)
  have "is_thread s t" using is_thread_ok[OF assms(1)] assms(2) by simp
  moreover have "set_status t THREAD_READY ?r = Inr (set_st t THREAD_READY ?r)"
    using x(1) by (simp add: set_status_eq)
  moreover have "intr_set_level (intr_get_level s) (set_st t THREAD_READY ?r) = Inr (INTR_OFF, unblocked t s)"
    using set_level_back[of "set_st t THREAD_READY ?r"] env_okD(5)[OF assms(1)]
    by (simp add: unblocked_def intr_get_level_def set_st_def)
  ultimately show ?thesis
    using x by (simp add: thread_unblock_def intr_disable_def get_thread_def)
qed

lemma st_unblocked: "st s t = Some z \<Longrightarrow> st (unblocked t s) u = (if u = t then Some THREAD_READY else st s u)"
  by (auto simp: unblocked_def set_st_def st_def)

lemma unblocked_sel [simp]:
  "if_flag (unblocked t s) = if_flag s" "in_external_intr (unblocked t s) = in_external_intr s"
  "running (unblocked t s) = running s" "ready_list (unblocked t s) = ready_list s @ [t]" "idle_thread (unblocked t s) = idle_thread s"
  "semas (unblocked t s) = semas s" "conts (unblocked t s) = conts s" "holder (unblocked t s) = holder s"
  "dom (threads (unblocked t s)) = dom (threads s)" "thread_ticks (unblocked t s) = thread_ticks s"
  by (simp_all add: unblocked_def)

lemma env_ok_unblocked: "env_ok s \<Longrightarrow> env_ok (unblocked t s)"
  using env_ok_cong[of "s\<lparr>ready_list := ready_list s @ [t]\<rparr>" s] env_ok_set_st by (simp add: unblocked_def)

lemma queue_ok_unblocked:
  assumes "queue_ok s" and "st s t = Some THREAD_BLOCKED" and "t \<noteq> idle_thread s"
  shows "queue_ok (unblocked t s)"
proof -
  have "t \<notin> set (ready_list s)" using queue_okD(2)[OF assms(1), of t] assms(2) by fastforce
  then show ?thesis
    using queue_okD[OF assms(1)] assms(3) unfolding queue_ok_def st_unblocked[OF assms(2)] unblocked_sel
    by (intro conjI allI ballI impI) (auto split: if_splits)
qed

end
