(* ===== verification/Synch.thy ===== *)
theory Synch
  imports Thread
begin

text \<open>
  Semaphores, locks and condition variables of \<open>src/threads/synch.c\<close> and the sleeping calls of
  \<open>src/devices/timer.c\<close>, as steps of a machine in which threads switch inside calls and the
  timer interrupts them, with the invariant of that machine.
\<close>

section \<open>Semaphores\<close>

text \<open>
  A call that may switch threads returns the calls its thread still has to make, and the state
  in which the processor continues, perhaps in another thread.
\<close>

type_synonym progress = "(kcall list \<times> kstate) result"

definition set_val :: "addr \<Rightarrow> nat \<Rightarrow> kstate \<Rightarrow> kstate" where
  "set_val sema v s = s\<lparr>semas := (semas s)(sema := (semas s sema)\<lparr>val := v\<rparr>)\<rparr>"

definition set_waiters :: "addr \<Rightarrow> addr list \<Rightarrow> kstate \<Rightarrow> kstate" where
  "set_waiters sema ws s = s\<lparr>semas := (semas s)(sema := (semas s sema)\<lparr>waiters := ws\<rparr>)\<rparr>"

text \<open>The loop of \<open>sema_down\<close>, from the test of the value.\<close>

definition sema_retest :: "addr \<Rightarrow> intr_level \<Rightarrow> kstate \<Rightarrow> progress" where
  "sema_retest sema old_level s =
    (if val (semas s sema) = 0 then
       rbind (thread_current s) (\<lambda>cur.
       rbind (thread_block (set_waiters sema (waiters (semas s sema) @ [cur]) s)) (\<lambda>s.
       Inr ([Sema_retest sema old_level], s)))
     else
       rbind (intr_set_level old_level (set_val sema (val (semas s sema) - 1) s)) (\<lambda>(_, s). Inr ([], s)))"

definition sema_down :: "addr \<Rightarrow> kstate \<Rightarrow> progress" where
  "sema_down sema s =
     rbind (rassert (sema \<noteq> NULL)) (\<lambda>_.
     rbind (rassert (\<not> intr_context s)) (\<lambda>_.
     let (old_level, s) = intr_disable s in sema_retest sema old_level s))"

definition sema_try_down :: "addr \<Rightarrow> kstate \<Rightarrow> (bool \<times> kstate) result" where
  "sema_try_down sema s =
     rbind (rassert (sema \<noteq> NULL)) (\<lambda>_.
     let (old_level, s) = intr_disable s;
         (success, s) = (if val (semas s sema) > 0 then (True, set_val sema (val (semas s sema) - 1) s) else (False, s)) in
     rbind (intr_set_level old_level s) (\<lambda>(_, s). Inr (success, s)))"

definition sema_up :: "addr \<Rightarrow> kstate \<Rightarrow> kstate result" where
  "sema_up sema s =
     rbind (rassert (sema \<noteq> NULL)) (\<lambda>_.
     let (old_level, s) = intr_disable s in
     rbind (case waiters (semas s sema) of [] \<Rightarrow> Inr s
            | t # ts \<Rightarrow> thread_unblock t (set_waiters sema ts s)) (\<lambda>s.
     rbind (intr_set_level old_level (set_val sema (sz_add (val (semas s sema)) 1) s)) (\<lambda>(_, s). Inr s)))"

section \<open>Locks\<close>

text \<open>A lock is its holder and, behind it, its semaphore.\<close>

definition lock_sema :: "addr \<Rightarrow> addr" where
  "lock_sema lock = lock + 4"

definition lock_init :: "addr \<Rightarrow> kstate \<Rightarrow> kstate result" where
  "lock_init lock s =
     rbind (rassert (lock \<noteq> NULL)) (\<lambda>_. sema_init (lock_sema lock) 1 (s\<lparr>holder := (holder s)(lock := NULL)\<rparr>))"

definition lock_held_by_current_thread :: "addr \<Rightarrow> kstate \<Rightarrow> bool result" where
  "lock_held_by_current_thread lock s =
     rbind (rassert (lock \<noteq> NULL)) (\<lambda>_. rbind (thread_current s) (\<lambda>t. Inr (holder s lock = t)))"

definition lock_acquire :: "addr \<Rightarrow> kstate \<Rightarrow> progress" where
  "lock_acquire lock s =
     rbind (rassert (lock \<noteq> NULL)) (\<lambda>_.
     rbind (rassert (\<not> intr_context s)) (\<lambda>_.
     rbind (lock_held_by_current_thread lock s) (\<lambda>held.
     rbind (rassert (\<not> held)) (\<lambda>_.
     rbind (sema_down (lock_sema lock) s) (\<lambda>(k, s). Inr (k @ [Lock_taken lock], s))))))"

definition lock_taken :: "addr \<Rightarrow> kstate \<Rightarrow> kstate result" where
  "lock_taken lock s = rbind (thread_current s) (\<lambda>t. Inr (s\<lparr>holder := (holder s)(lock := t)\<rparr>))"

text \<open>
  The result of the call, and what is left to do after the \<open>sema_try_down\<close>: interrupts may come
  before the holder is set.
\<close>

definition lock_try_acquire :: "addr \<Rightarrow> kstate \<Rightarrow> (bool \<times> kcall list \<times> kstate) result" where
  "lock_try_acquire lock s =
     rbind (rassert (lock \<noteq> NULL)) (\<lambda>_.
     rbind (lock_held_by_current_thread lock s) (\<lambda>held.
     rbind (rassert (\<not> held)) (\<lambda>_.
     rbind (sema_try_down (lock_sema lock) s) (\<lambda>(success, s).
     Inr (success, if success then [Lock_taken lock] else [], s)))))"

definition lock_release :: "addr \<Rightarrow> kstate \<Rightarrow> progress" where
  "lock_release lock s =
     rbind (rassert (lock \<noteq> NULL)) (\<lambda>_.
     rbind (lock_held_by_current_thread lock s) (\<lambda>held.
     rbind (rassert held) (\<lambda>_.
     Inr ([Sema_up (lock_sema lock)], s\<lparr>holder := (holder s)(lock := NULL)\<rparr>))))"

section \<open>Condition variables\<close>

definition cond_init :: "addr \<Rightarrow> kstate \<Rightarrow> kstate result" where
  "cond_init cond s =
     rbind (rassert (cond \<noteq> NULL)) (\<lambda>_. Inr (s\<lparr>cond_waiters := (cond_waiters s)(cond := [])\<rparr>))"

text \<open>\<open>waiter\<close> is the address of the semaphore in the local variable of that name.\<close>

definition cond_wait :: "addr \<Rightarrow> addr \<Rightarrow> addr \<Rightarrow> kstate \<Rightarrow> progress" where
  "cond_wait cond lock waiter s =
     rbind (rassert (cond \<noteq> NULL)) (\<lambda>_.
     rbind (rassert (lock \<noteq> NULL)) (\<lambda>_.
     rbind (rassert (\<not> intr_context s)) (\<lambda>_.
     rbind (lock_held_by_current_thread lock s) (\<lambda>held.
     rbind (rassert held) (\<lambda>_.
     rbind (sema_init waiter 0 s) (\<lambda>s.
     Inr ([Lock_release lock, Sema_down waiter, Lock_acquire lock],
          s\<lparr>cond_waiters := (cond_waiters s)(cond := cond_waiters s cond @ [waiter])\<rparr>)))))))"

definition cond_signal :: "addr \<Rightarrow> addr \<Rightarrow> kstate \<Rightarrow> progress" where
  "cond_signal cond lock s =
     rbind (rassert (cond \<noteq> NULL)) (\<lambda>_.
     rbind (rassert (lock \<noteq> NULL)) (\<lambda>_.
     rbind (rassert (\<not> intr_context s)) (\<lambda>_.
     rbind (lock_held_by_current_thread lock s) (\<lambda>held.
     rbind (rassert held) (\<lambda>_.
     case cond_waiters s cond of [] \<Rightarrow> Inr ([], s)
     | w # ws \<Rightarrow> Inr ([Sema_up w], s\<lparr>cond_waiters := (cond_waiters s)(cond := ws)\<rparr>))))))"

definition cond_broadcast :: "addr \<Rightarrow> addr \<Rightarrow> kstate \<Rightarrow> progress" where
  "cond_broadcast cond lock s =
     rbind (rassert (cond \<noteq> NULL)) (\<lambda>_.
     rbind (rassert (lock \<noteq> NULL)) (\<lambda>_.
     Inr (if cond_waiters s cond = [] then [] else [Cond_signal cond lock, Cond_broadcast cond lock], s)))"

section \<open>Timer\<close>

text \<open>
  The counter \<open>ticks\<close> and the times computed from it, 64-bit in the code, are unbounded integers. An
  interrupt may come between the test of the loop in \<open>timer_sleep\<close> and its call of \<open>thread_yield\<close>.
\<close>

definition timer_interrupt :: "kstate \<Rightarrow> kstate result" where
  "timer_interrupt s = thread_tick (s\<lparr>timer_ticks := timer_ticks s + 1\<rparr>)"

definition timer_elapsed :: "int \<Rightarrow> kstate \<Rightarrow> int" where
  "timer_elapsed since s = timer_ticks s - since"

definition sleep_loop :: "int \<Rightarrow> int \<Rightarrow> kstate \<Rightarrow> progress" where
  "sleep_loop start n s = Inr (if timer_elapsed start s < n then [Yield, Sleep_loop start n] else [], s)"

definition timer_sleep :: "int \<Rightarrow> kstate \<Rightarrow> progress" where
  "timer_sleep n s =
    (let start = timer_ticks s in
     rbind (rassert (intr_get_level s = INTR_ON)) (\<lambda>_. Inr ([Sleep_loop start n], s)))"

section \<open>Steps\<close>

text \<open>
  The timer interrupt, through the common handler. When the handler ends in \<open>thread_yield\<close>, the
  rest of that call sets the level that it found, which is off, before the return from the
  interrupt.
\<close>

definition timer_intr :: "kstate \<Rightarrow> progress" where
  "timer_intr s =
     rbind (intr_handler (\<lambda>_ _. timer_interrupt) (\<lambda>s. rbind (thread_yield s) (\<lambda>(_, s). Inr s)) 0x20 s) (\<lambda>s.
     Inr ([Set_level INTR_OFF, Iret], s))"

text \<open>
  A thread that blocks outside the semaphores, as a reader of an empty device queue does: it turns
  interrupts off, calls \<open>thread_block\<close>, and sets the old level when it runs again.
\<close>

definition block_self :: "kstate \<Rightarrow> progress" where
  "block_self s =
    (let (old_level, s) = intr_disable s in
     rbind (thread_block s) (\<lambda>s. Inr ([Set_level old_level], s)))"

definition done_with :: "kstate result \<Rightarrow> progress" where
  "done_with r = rbind r (\<lambda>s. Inr ([], s))"

fun exec :: "kcall \<Rightarrow> kstate \<Rightarrow> progress" where
  "exec (Kernel_thread function aux) s = done_with (enter_thread function s)"
| "exec Yield s = rbind (thread_yield s) (\<lambda>(old_level, s). Inr ([Set_level old_level], s))"
| "exec Block s = block_self s"
| "exec (Set_level level) s = rbind (intr_set_level level s) (\<lambda>(_, s). Inr ([], s))"
| "exec Idle_loop s = rbind (idle_block s) (\<lambda>s. Inr ([Idle_wake], s))"
| "exec Idle_wake s = Inr ([Idle_loop], idle_wake s)"
| "exec (Sema_down sema) s = sema_down sema s"
| "exec (Sema_retest sema level) s = sema_retest sema level s"
| "exec (Sema_try_down sema) s = rbind (sema_try_down sema s) (\<lambda>(_, s). Inr ([], s))"
| "exec (Sema_up sema) s = done_with (sema_up sema s)"
| "exec (Lock_acquire lock) s = lock_acquire lock s"
| "exec (Lock_try_acquire lock) s = rbind (lock_try_acquire lock s) (\<lambda>(_, k, s). Inr (k, s))"
| "exec (Lock_taken lock) s = done_with (lock_taken lock s)"
| "exec (Lock_release lock) s = lock_release lock s"
| "exec (Cond_wait cond lock waiter) s = cond_wait cond lock waiter s"
| "exec (Cond_signal cond lock) s = cond_signal cond lock s"
| "exec (Cond_broadcast cond lock) s = cond_broadcast cond lock s"
| "exec (Timer_sleep n) s = timer_sleep n s"
| "exec (Sleep_loop start n) s = sleep_loop start n s"
| "exec Timer_intr s = timer_intr s"
| "exec Iret s = Inr ([], s\<lparr>if_flag := True\<rparr>)"

definition set_conts :: "addr \<Rightarrow> kcall list \<Rightarrow> kstate \<Rightarrow> kstate" where
  "set_conts t k s = s\<lparr>conts := (conts s)(t := k)\<rparr>"

text \<open>The semaphore whose value a thread is about to test again.\<close>

definition wants :: "kstate \<Rightarrow> addr \<Rightarrow> addr option" where
  "wants s t = (case conts s t of Sema_retest a l # _ \<Rightarrow> Some a | _ \<Rightarrow> None)"

text \<open>
  A step of the kernel: the running thread makes the topmost call of its stack, a thread whose
  stack is empty makes one of the calls that \<open>api\<close> gives it, the timer interrupts, or a part of
  the kernel that is not in the machine, such as a device driver, calls \<open>thread_unblock\<close> on a thread
  that has blocked outside the semaphores.
\<close>

datatype event = Run kcall | Call kcall | Tick | Wake addr

inductive kstep :: "(addr \<Rightarrow> kcall set) \<Rightarrow> kstate \<Rightarrow> event \<Rightarrow> kstate \<Rightarrow> bool" for api where
  run: "conts s (running s) = op # rest \<Longrightarrow> exec op s = Inr (k, s')
        \<Longrightarrow> kstep api s (Run op) (set_conts (running s) (k @ rest) s')"
| call: "conts s (running s) = [] \<Longrightarrow> op \<in> api (running s) \<Longrightarrow> kstep api s (Call op) (set_conts (running s) [op] s)"
| tick: "if_flag s \<Longrightarrow> kstep api s Tick (set_conts (running s) (Timer_intr # conts s (running s)) (s\<lparr>if_flag := False\<rparr>))"
| wake: "st s t = Some THREAD_BLOCKED \<Longrightarrow> t \<noteq> idle_thread s \<Longrightarrow> wants s t = None \<Longrightarrow> thread_unblock t s = Inr s'
        \<Longrightarrow> kstep api s (Wake t) s'"

inductive ksteps :: "(addr \<Rightarrow> kcall set) \<Rightarrow> kstate \<Rightarrow> event list \<Rightarrow> kstate \<Rightarrow> bool" for api where
  start: "ksteps api s [] s"
| more: "ksteps api s es s' \<Longrightarrow> kstep api s' e s'' \<Longrightarrow> ksteps api s (es @ [e]) s''"

section \<open>Waiting threads\<close>

definition awake :: "kstate \<Rightarrow> addr \<Rightarrow> bool" where
  "awake s t \<longleftrightarrow> st s t = Some THREAD_READY \<or> st s t = Some THREAD_RUNNING"

definition wait_ok :: "kstate \<Rightarrow> bool" where
  "wait_ok s \<longleftrightarrow> (\<forall>a. distinct (waiters (semas s a)))
     \<and> (\<forall>a. \<forall>t \<in> set (waiters (semas s a)). st s t = Some THREAD_BLOCKED \<and> t \<noteq> idle_thread s \<and> wants s t = Some a)
     \<and> (\<forall>t a. st s t = Some THREAD_BLOCKED \<longrightarrow> wants s t = Some a \<longrightarrow> t \<in> set (waiters (semas s a)))"

text \<open>
  No wakeup is lost: while threads wait for a semaphore, every unit of its value is matched by
  a thread that has been woken and has yet to test the value again.
\<close>

definition wake_ok :: "kstate \<Rightarrow> bool" where
  "wake_ok s \<longleftrightarrow> (\<forall>a. waiters (semas s a) \<noteq> [] \<longrightarrow> val (semas s a) \<le> card {t. awake s t \<and> wants s t = Some a})"

text \<open>The calls that are only ever on top of a stack, and that start with interrupts off.\<close>

fun starts_off :: "kcall \<Rightarrow> bool" where
  "starts_off (Sema_retest a l) = True"
| "starts_off Timer_intr = True"
| "starts_off _ = False"

definition top_off :: "kcall list \<Rightarrow> bool" where
  "top_off k \<longleftrightarrow> k \<noteq> [] \<and> starts_off (hd k)"

fun idle_call :: "kcall \<Rightarrow> bool" where
  "idle_call Idle_loop = True"
| "idle_call Idle_wake = True"
| "idle_call (Set_level l) = True"
| "idle_call Timer_intr = True"
| "idle_call Iret = True"
| "idle_call _ = False"

definition idle_stack :: "kcall list \<Rightarrow> bool" where
  "idle_stack k \<longleftrightarrow> list_all idle_call k \<and> k \<noteq> [] \<and> List.last k \<in> {Idle_loop, Idle_wake}"

text \<open>
  Which semaphores a thread other than the idle one may wait for. \<open>owner\<close> names the thread on whose stack a semaphore
  lies, and is \<open>None\<close> for one that is shared.
\<close>

fun call_ok :: "(addr \<Rightarrow> addr option) \<Rightarrow> addr \<Rightarrow> kcall \<Rightarrow> bool" where
  "call_ok owner t (Sema_down a) = (owner a = None \<or> owner a = Some t)"
| "call_ok owner t (Sema_retest a l) = (owner a = None \<or> owner a = Some t)"
| "call_ok owner t (Lock_acquire l) = (owner (lock_sema l) = None)"
| "call_ok owner t (Cond_wait c l w) = (owner w = Some t \<and> owner (lock_sema l) = None)"
| "call_ok owner t Idle_loop = False"
| "call_ok owner t Idle_wake = False"
| "call_ok owner t _ = True"

definition stack_ok :: "(addr \<Rightarrow> addr option) \<Rightarrow> kstate \<Rightarrow> bool" where
  "stack_ok owner s \<longleftrightarrow> (\<forall>t. \<forall>op \<in> set (List.tl (conts s t)). \<not> starts_off op)
     \<and> (\<forall>t. t \<noteq> idle_thread s \<longrightarrow> (\<forall>op \<in> set (conts s t). call_ok owner t op))
     \<and> (top_off (conts s (running s)) \<longrightarrow> \<not> if_flag s) \<and> idle_stack (conts s (idle_thread s))"

definition kinv :: "(addr \<Rightarrow> addr option) \<Rightarrow> kstate \<Rightarrow> bool" where
  "kinv owner s \<longleftrightarrow> sched_ok s \<and> thread_ticks s < TIME_SLICE \<and> wait_ok s \<and> wake_ok s \<and> stack_ok owner s"

lemma kinvD:
  assumes "kinv owner s"
  shows "sched_ok s" and "env_ok s" and "queue_ok s" and "st s (running s) = Some THREAD_RUNNING"
    and "thread_ticks s < TIME_SLICE" and "wait_ok s" and "wake_ok s" and "stack_ok owner s" and "\<not> in_external_intr s"
  using assms env_okD(5)[of s] unfolding kinv_def sched_ok_def by blast+

lemma wait_okD:
  assumes "wait_ok s"
  shows "distinct (waiters (semas s a))" and "t \<in> set (waiters (semas s a)) \<Longrightarrow> st s t = Some THREAD_BLOCKED"
    and "t \<in> set (waiters (semas s a)) \<Longrightarrow> t \<noteq> idle_thread s" and "t \<in> set (waiters (semas s a)) \<Longrightarrow> wants s t = Some a"
    and "st s t = Some THREAD_BLOCKED \<Longrightarrow> wants s t = Some a \<Longrightarrow> t \<in> set (waiters (semas s a))"
  using assms unfolding wait_ok_def by blast+

lemma stack_okD:
  assumes "stack_ok owner s"
  shows "op \<in> set (List.tl (conts s t)) \<Longrightarrow> \<not> starts_off op" and "t \<noteq> idle_thread s \<Longrightarrow> op \<in> set (conts s t) \<Longrightarrow> call_ok owner t op"
    and "top_off (conts s (running s)) \<Longrightarrow> \<not> if_flag s" and "idle_stack (conts s (idle_thread s))"
  using assms unfolding stack_ok_def by blast+

lemma set_conts_sel [simp]:
  "if_flag (set_conts t k s) = if_flag s" "in_external_intr (set_conts t k s) = in_external_intr s"
  "running (set_conts t k s) = running s" "ready_list (set_conts t k s) = ready_list s" "idle_thread (set_conts t k s) = idle_thread s"
  "semas (set_conts t k s) = semas s" "conts (set_conts t k s) = (conts s)(t := k)" "init_page_dir (set_conts t k s) = init_page_dir s"
  "intr_handlers (set_conts t k s) = intr_handlers s" "threads (set_conts t k s) = threads s" "st (set_conts t k s) = st s"
  "holder (set_conts t k s) = holder s" "timer_ticks (set_conts t k s) = timer_ticks s" "thread_ticks (set_conts t k s) = thread_ticks s"
  "cond_waiters (set_conts t k s) = cond_waiters s"
  by (simp_all add: set_conts_def st_def fun_eq_iff)

text \<open>The top of a stack decides what its thread wants.\<close>

fun top_wants :: "kcall list \<Rightarrow> addr option" where
  "top_wants (Sema_retest a l # ks) = Some a"
| "top_wants _ = None"

lemma wants_top: "wants s t = top_wants (conts s t)"
  by (cases "conts s t" rule: top_wants.cases) (simp_all add: wants_def)

lemma idle_wants: "idle_stack k \<Longrightarrow> top_wants k = None"
  by (cases k rule: top_wants.cases) (auto simp: idle_stack_def)

lemma wants_idle: "stack_ok owner s \<Longrightarrow> wants s (idle_thread s) = None"
  using stack_okD(4) idle_wants by (simp add: wants_top)

lemma top_off_wants: "\<not> top_off k \<Longrightarrow> top_wants k = None"
  by (cases k rule: top_wants.cases) (auto simp: top_off_def)

lemma queue_ok_cong:
  "st s' = st s \<Longrightarrow> ready_list s' = ready_list s \<Longrightarrow> idle_thread s' = idle_thread s \<Longrightarrow> running s' = running s
   \<Longrightarrow> queue_ok s' = queue_ok s"
  by (simp only: queue_ok_def)

lemma sched_ok_cong:
  assumes "threads s' = threads s" "init_page_dir s' = init_page_dir s" "intr_handlers s' = intr_handlers s"
    "in_external_intr s' = in_external_intr s" "ready_list s' = ready_list s" "idle_thread s' = idle_thread s" "running s' = running s"
  shows "sched_ok s' = sched_ok s"
  using env_ok_cong[OF assms(1-4)] assms by (simp add: sched_ok_def queue_ok_def st_def)

lemma finite_threads: "env_ok s \<Longrightarrow> finite {t. awake s t \<and> P t}"
  by (rule finite_subset[of _ "dom (threads s)"]) (auto simp: awake_def st_def env_ok_def)

section \<open>Steps preserve the invariant\<close>

text \<open>The conditions on the rest of a thread's stack after a call of it.\<close>

definition rest_ok :: "(addr \<Rightarrow> addr option) \<Rightarrow> kstate \<Rightarrow> kcall list \<Rightarrow> bool" where
  "rest_ok owner s k \<longleftrightarrow> (\<forall>op \<in> set (List.tl k). \<not> starts_off op) 
     \<and> (if running s = idle_thread s then idle_stack k else \<forall>op \<in> set k. call_ok owner (running s) op)"

lemma stack_ok_step:
  assumes "stack_ok owner s" and "conts s' = (conts s)(running s := k)" and "idle_thread s' = idle_thread s"
    and "rest_ok owner s k" and "top_off (conts s' (running s')) \<longrightarrow> \<not> if_flag s'"
  shows "stack_ok owner s'"
  using assms(1,4,5) unfolding stack_ok_def rest_ok_def assms(2,3) by (auto split: if_splits)

lemma wants_step: "conts s' = (conts s)(t := k) \<Longrightarrow> wants s' u = (if u = t then top_wants k else wants s u)"
  by (simp add: wants_top)

text \<open>A call that switches no thread and wakes none.\<close>

lemma kinv_still:
  assumes inv: "kinv owner s"
    and same: "threads s' = threads s" "init_page_dir s' = init_page_dir s" "intr_handlers s' = intr_handlers s"
      "in_external_intr s' = in_external_intr s" "ready_list s' = ready_list s" "idle_thread s' = idle_thread s" "running s' = running s"
    and ticks: "thread_ticks s' < TIME_SLICE"
    and waiters: "\<And>a. waiters (semas s' a) = waiters (semas s a)"
    and val: "\<And>a. waiters (semas s a) \<noteq> [] \<Longrightarrow> val (semas s' a) + (if wants s (running s) = Some a then 1 else 0) \<le> val (semas s a)"
    and conts: "conts s' = (conts s)(running s := k)" and k: "rest_ok owner s k" and top: "top_wants k = None" and off: "top_off k \<Longrightarrow> \<not> if_flag s'"
  shows "kinv owner s'"
proof -
  have st: "st s' = st s" using same(1) by (simp add: st_def fun_eq_iff)
  have w: "wants s' u = (if u = running s then None else wants s u)" for u using wants_step[OF conts] top by simp
  have "sched_ok s'" using kinvD(1)[OF inv] sched_ok_cong[OF same] by simp
  moreover have "wait_ok s'"
    unfolding wait_ok_def st waiters same(6) w
  proof (intro conjI allI ballI impI)
    note W = wait_okD[OF kinvD(6)[OF inv]]
    fix a show "distinct (waiters (semas s a))" by (rule W(1))
    fix t
    { assume t: "t \<in> set (waiters (semas s a))"
      then show "st s t = Some THREAD_BLOCKED" "t \<noteq> idle_thread s" by (rule W(2), intro W(3)[OF t])
      then have "t \<noteq> running s" using kinvD(4)[OF inv] by auto
      then show "(if t = running s then None else wants s t) = Some a" using W(4)[OF t] by simp }
    show "t \<in> set (waiters (semas s a))"
      if "st s t = Some THREAD_BLOCKED" "(if t = running s then None else wants s t) = Some a"
      using W(5)[OF that(1)] that(2) by (simp split: if_splits)
  qed
  moreover have "wake_ok s'" unfolding wake_ok_def waiters
  proof (intro allI impI)
    fix a assume ne: "waiters (semas s a) \<noteq> []"
    let ?P = "{t. awake s t \<and> wants s t = Some a}"
    have P: "{t. awake s' t \<and> wants s' t = Some a} = ?P - {running s}" by (auto simp: awake_def st w)
    have fin: "finite ?P" using finite_threads[OF kinvD(2)[OF inv]] .
    have le: "val (semas s a) \<le> card ?P" using kinvD(7)[OF inv] ne by (simp add: wake_ok_def)
    have mem: "running s \<in> ?P \<longleftrightarrow> wants s (running s) = Some a" using kinvD(4)[OF inv] by (simp add: awake_def)
    show "val (semas s' a) \<le> card {t. awake s' t \<and> wants s' t = Some a}"
      unfolding P using val[OF ne] le mem fin by (cases "wants s (running s) = Some a") (simp_all add: card_Diff_singleton)
  qed
  moreover have "stack_ok owner s'"
    using stack_ok_step[OF kinvD(8)[OF inv] conts same(6) k] off conts same(7) by simp
  ultimately show ?thesis using ticks by (simp add: kinv_def)
qed

lemma next_not_waiting:
  assumes "kinv owner s" and "t \<in> set (waiters (semas s a))"
  shows "t \<noteq> next_of s" and "t \<noteq> running s"
proof -
  have b: "st s t = Some THREAD_BLOCKED" and i: "t \<noteq> idle_thread s"
    using wait_okD(2,3)[OF kinvD(6)[OF assms(1)] assms(2)] by auto
  then show "t \<noteq> next_of s"
    using queue_okD(2)[OF kinvD(3)[OF assms(1)], of t] by (auto simp: next_of_def split: list.splits)
  show "t \<noteq> running s" using b kinvD(4)[OF assms(1)] by auto
qed

lemma next_not_running: "kinv owner s \<Longrightarrow> running s \<noteq> idle_thread s \<Longrightarrow> next_of s \<noteq> running s"
  using queue_okD(2)[OF kinvD(3), of owner s "running s"] kinvD(4)[of owner s]
  by (auto simp: next_of_def split: list.splits)

lemma kinv_quiet:
  assumes inv: "kinv owner s"
    and same: "threads s' = threads s" "init_page_dir s' = init_page_dir s" "intr_handlers s' = intr_handlers s"
      "in_external_intr s' = in_external_intr s" "ready_list s' = ready_list s" "idle_thread s' = idle_thread s" "running s' = running s"
    and ticks: "thread_ticks s' < TIME_SLICE"
    and waiters: "\<And>a. waiters (semas s' a) = waiters (semas s a)"
    and val: "\<And>a. waiters (semas s a) \<noteq> [] \<Longrightarrow> val (semas s' a) + (if wants s (running s) = Some a then 1 else 0) \<le> val (semas s a)"
    and conts: "conts s' = (conts s)(running s := k)" and k: "rest_ok owner s k" and top: "\<not> top_off k"
  shows "kinv owner s'"
  by (rule kinv_still[OF inv same ticks waiters val conts k top_off_wants[OF top]]) (use top in simp_all)

text \<open>A thread that is in \<open>sema_down\<close> finds the value zero.\<close>

definition down_blocked :: "addr \<Rightarrow> kstate \<Rightarrow> kstate" where
  "down_blocked a s = blocked (set_waiters a (waiters (semas s a) @ [running s]) (s\<lparr>if_flag := False\<rparr>))"

lemma set_waiters_sel [simp]:
  "if_flag (set_waiters a ws s) = if_flag s" "in_external_intr (set_waiters a ws s) = in_external_intr s"
  "running (set_waiters a ws s) = running s" "ready_list (set_waiters a ws s) = ready_list s" "idle_thread (set_waiters a ws s) = idle_thread s"
  "semas (set_waiters a ws s) = (semas s)(a := (semas s a)\<lparr>waiters := ws\<rparr>)" "conts (set_waiters a ws s) = conts s"
  "init_page_dir (set_waiters a ws s) = init_page_dir s" "intr_handlers (set_waiters a ws s) = intr_handlers s"
  "threads (set_waiters a ws s) = threads s" "st (set_waiters a ws s) = st s" "holder (set_waiters a ws s) = holder s"
  "thread_ticks (set_waiters a ws s) = thread_ticks s" "timer_ticks (set_waiters a ws s) = timer_ticks s"
  by (simp_all add: set_waiters_def st_def fun_eq_iff)

lemma set_val_sel [simp]:
  "if_flag (set_val a v s) = if_flag s" "in_external_intr (set_val a v s) = in_external_intr s"
  "running (set_val a v s) = running s" "ready_list (set_val a v s) = ready_list s" "idle_thread (set_val a v s) = idle_thread s"
  "semas (set_val a v s) = (semas s)(a := (semas s a)\<lparr>val := v\<rparr>)" "conts (set_val a v s) = conts s"
  "init_page_dir (set_val a v s) = init_page_dir s" "intr_handlers (set_val a v s) = intr_handlers s"
  "threads (set_val a v s) = threads s" "st (set_val a v s) = st s" "holder (set_val a v s) = holder s"
  "thread_ticks (set_val a v s) = thread_ticks s" "timer_ticks (set_val a v s) = timer_ticks s"
  by (simp_all add: set_val_def st_def fun_eq_iff)

lemma st_if_flag [simp]: "st (s\<lparr>if_flag := b\<rparr>) = st s"
  by (simp add: st_def fun_eq_iff)

lemma next_of_upd [simp]:
  "next_of (set_st t z s) = next_of s" "next_of (set_waiters a ws s) = next_of s" "next_of (s\<lparr>if_flag := b\<rparr>) = next_of s"
  by (simp_all add: next_of_def split: list.split)

lemma down_blocked_sel [simp]:
  "if_flag (down_blocked a s) = False" "running (down_blocked a s) = next_of s" "ready_list (down_blocked a s) = List.tl (ready_list s)"
  "idle_thread (down_blocked a s) = idle_thread s" "conts (down_blocked a s) = conts s" "thread_ticks (down_blocked a s) = 0"
  "semas (down_blocked a s) = (semas s)(a := (semas s a)\<lparr>waiters := waiters (semas s a) @ [running s]\<rparr>)"
  "holder (down_blocked a s) = holder s"
  by (simp_all add: down_blocked_def blocked_def)

lemma st_down_blocked:
  assumes "kinv owner s" and "running s \<noteq> idle_thread s"
  shows "st (down_blocked a s) u =
    (if u = next_of s then Some THREAD_RUNNING else if u = running s then Some THREAD_BLOCKED else st s u)"
  using next_not_running[OF assms] next_of_thread[OF kinvD(3)[OF assms(1)]] kinvD(4)[OF assms(1)]
  by (auto simp: down_blocked_def blocked_def st_switched st_set_st)

lemma sched_ok_down_blocked: "sched_ok s \<Longrightarrow> sched_ok (down_blocked a s)"
  unfolding down_blocked_def
  by (rule thread_block_eq(2)) (simp_all add: sched_ok_cong[of "set_waiters a _ (s\<lparr>if_flag := False\<rparr>)" s])

lemma kinv_down_blocked:
  assumes inv: "kinv owner s" and ne: "running s \<noteq> idle_thread s" and zero: "val (semas s a) = 0"
    and w: "wants s (running s) = None \<or> wants s (running s) = Some a"
    and k: "rest_ok owner s (Sema_retest a l # rest)"
  shows "kinv owner (set_conts (running s) (Sema_retest a l # rest) (down_blocked a s))" (is "kinv _ ?s")
proof -
  note st = st_down_blocked[OF inv ne] and nr = next_not_running[OF inv ne]
  have wants: "wants ?s u = (if u = running s then Some a else wants s u)" for u
    using wants_step[of ?s s "running s"] by simp
  have nw: "t \<in> set (waiters (semas s b)) \<Longrightarrow> t \<noteq> next_of s \<and> t \<noteq> running s" for t b
    using next_not_waiting[OF inv] by blast
  note W = wait_okD[OF kinvD(6)[OF inv]]
  have "sched_ok ?s"
    using sched_ok_cong[of ?s "down_blocked a s"] sched_ok_down_blocked[OF kinvD(1)[OF inv]] by simp
  moreover have "wait_ok ?s" unfolding wait_ok_def wants
  proof (intro conjI allI ballI impI)
    fix b show "distinct (waiters (semas ?s b))" using W(1)[of b] nw[of "running s" a] by auto
  next
    fix b t assume t: "t \<in> set (waiters (semas ?s b))"
    then have c: "t = running s \<and> b = a \<or> t \<in> set (waiters (semas s b))" by (auto split: if_splits)
    show "st ?s t = Some THREAD_BLOCKED" using c nw[of t b] W(2)[of t b] nr by (auto simp: st)
    show "t \<noteq> idle_thread ?s" using c ne W(3)[of t b] by auto
    show "(if t = running s then Some a else wants s t) = Some b" using c nw[of t b] W(4)[of t b] by auto
  next
    fix t b assume t: "st ?s t = Some THREAD_BLOCKED" "(if t = running s then Some a else wants s t) = Some b"
    show "t \<in> set (waiters (semas ?s b))"
    proof (cases "t = running s")
      case True then show ?thesis using t(2) by simp
    next
      case False
      then have "t \<in> set (waiters (semas s b))" using t W(5)[of t b] by (auto simp: st split: if_splits)
      then show ?thesis by auto
    qed
  qed
  moreover have "wake_ok ?s" unfolding wake_ok_def
  proof (intro allI impI)
    fix b assume b: "waiters (semas ?s b) \<noteq> []"
    show "val (semas ?s b) \<le> card {t. awake ?s t \<and> wants ?s t = Some b}"
    proof (cases "b = a")
      case True then show ?thesis using zero by simp
    next
      case False
      then have "{t. awake s t \<and> wants s t = Some b} \<subseteq> {t. awake ?s t \<and> wants ?s t = Some b}"
        using w by (auto simp: awake_def st wants)
      moreover have "finite {t. awake ?s t \<and> wants ?s t = Some b}"
        using \<open>sched_ok ?s\<close> finite_threads by (simp add: sched_ok_def)
      ultimately have "card {t. awake s t \<and> wants s t = Some b} \<le> card {t. awake ?s t \<and> wants ?s t = Some b}"
        by (rule card_mono[rotated])
      moreover have "val (semas s b) \<le> card {t. awake s t \<and> wants s t = Some b}"
        using kinvD(7)[OF inv] b False by (simp add: wake_ok_def)
      ultimately show ?thesis using False by simp
    qed
  qed
  moreover have "stack_ok owner ?s"
    using stack_ok_step[OF kinvD(8)[OF inv] _ _ k, of ?s] by simp
  ultimately show ?thesis by (simp add: kinv_def TIME_SLICE_def)
qed

text \<open>A thread gives up the processor and stays ready; the idle thread blocks.\<close>

lemma yielded_sel [simp]:
  "if_flag (yielded s) = False" "idle_thread (yielded s) = idle_thread s" "conts (yielded s) = conts s"
  "thread_ticks (yielded s) = 0" "semas (yielded s) = semas s" "holder (yielded s) = holder s" "timer_ticks (yielded s) = timer_ticks s"
  by (simp_all add: yielded_def)

lemma blocked_sel [simp]:
  "if_flag (blocked s) = if_flag s" "idle_thread (blocked s) = idle_thread s" "conts (blocked s) = conts s"
  "thread_ticks (blocked s) = 0" "semas (blocked s) = semas s" "holder (blocked s) = holder s" "timer_ticks (blocked s) = timer_ticks s"
  "running (blocked s) = next_of s"
  by (simp_all add: blocked_def)

lemma kinv_switch:
  assumes inv: "kinv owner s" and sched: "sched_ok s'"
    and same: "idle_thread s' = idle_thread s" "semas s' = semas s" "thread_ticks s' = 0" "\<not> if_flag s'"
    and blk: "\<And>t a. wants s t = Some a \<Longrightarrow> (st s' t = Some THREAD_BLOCKED) = (st s t = Some THREAD_BLOCKED)"
    and awk: "\<And>t a. wants s t = Some a \<Longrightarrow> awake s' t = awake s t"
    and conts: "conts s' = (conts s)(running s := k)" and k: "rest_ok owner s k" and top: "\<not> top_off k"
    and w: "wants s (running s) = None"
  shows "kinv owner s'"
proof -
  have wants: "wants s' = wants s" using wants_step[OF conts] top_off_wants[OF top] w by auto
  note W = wait_okD[OF kinvD(6)[OF inv]]
  have "wait_ok s'"
    unfolding wait_ok_def wants same(1,2)
    using W blk by (intro conjI allI ballI impI) blast+
  moreover have "{t. awake s' t \<and> wants s' t = Some a} = {t. awake s t \<and> wants s t = Some a}" for a
    unfolding wants using awk by blast
  then have "wake_ok s'" using kinvD(7)[OF inv] by (simp add: wake_ok_def same)
  moreover have "stack_ok owner s'"
    using stack_ok_step[OF kinvD(8)[OF inv] conts same(1) k] same(4) by simp
  ultimately show ?thesis using sched same(3) by (simp add: kinv_def TIME_SLICE_def)
qed

lemma st_yielded:
  assumes "kinv owner s" and "t \<noteq> idle_thread s"
  shows "(st (yielded s) t = Some THREAD_BLOCKED) = (st s t = Some THREAD_BLOCKED)" and "awake (yielded s) t = awake s t"
proof -
  let ?r = "s\<lparr>if_flag := False, ready_list := ready_list s @ (if running s = idle_thread s then [] else [running s])\<rparr>"
  let ?n = "next_of (set_st (running s) THREAD_READY ?r)"
  have same: "st ?r = st s" by (simp add: fun_eq_iff st_def)
  have st: "st (yielded s) u = (if u = ?n then map_option (\<lambda>_. THREAD_RUNNING) (st s u) else if u = running s then Some THREAD_READY else st s u)" for u
    using kinvD(4)[OF assms(1)] unfolding yielded_def st_switched st_set_st same by auto
  have "?n \<in> set (ready_list s) \<or> ?n = running s \<or> ?n = idle_thread s"
    by (cases "ready_list s") (auto simp: next_of_def)
  then have n: "t = ?n \<Longrightarrow> st s t = Some THREAD_READY \<or> st s t = Some THREAD_RUNNING"
    using queue_okD(2)[OF kinvD(3)[OF assms(1)], of t] kinvD(4)[OF assms(1)] assms(2) by metis
  show "(st (yielded s) t = Some THREAD_BLOCKED) = (st s t = Some THREAD_BLOCKED)"
    using n kinvD(4)[OF assms(1)] unfolding st by auto
  show "awake (yielded s) t = awake s t"
    using n kinvD(4)[OF assms(1)] unfolding awake_def st by auto
qed

lemma kinv_yielded:
  assumes "kinv owner s" and "wants s (running s) = None" and "rest_ok owner s k" and "\<not> top_off k"
  shows "kinv owner (set_conts (running s) k (yielded s))"
proof (rule kinv_switch[OF assms(1) _ _ _ _ _ _ _ _ assms(3,4,2)])
  show "sched_ok (set_conts (running s) k (yielded s))"
    using sched_ok_cong[of "set_conts (running s) k (yielded s)" "yielded s"] thread_yield_eq(2)[OF kinvD(1)[OF assms(1)]] by simp
  fix t a assume "wants s t = Some a"
  then have "t \<noteq> idle_thread s" using wants_idle[OF kinvD(8)[OF assms(1)]] by auto
  then show "(st (set_conts (running s) k (yielded s)) t = Some THREAD_BLOCKED) = (st s t = Some THREAD_BLOCKED)"
    "awake (set_conts (running s) k (yielded s)) t = awake s t"
    using st_yielded[OF assms(1)] by (simp_all add: awake_def)
qed simp_all

lemma kinv_blocked:
  assumes "kinv owner s" and "wants s (running s) = None" and "rest_ok owner s k" and "\<not> top_off k"
  shows "kinv owner (set_conts (running s) k (blocked (s\<lparr>if_flag := False\<rparr>)))"
proof -
  let ?r = "s\<lparr>if_flag := False\<rparr>"
  let ?b = "blocked ?r"
  have "sched_ok ?r" using sched_ok_cong[of ?r s] kinvD(1)[OF assms(1)] by simp
  then have sched: "sched_ok ?b" using thread_block_eq(2)[of ?r] by simp
  have st: "st ?b t = (if t = next_of s then map_option (\<lambda>_. THREAD_RUNNING) (st s t) else st s t)" if "t \<noteq> running s" for t
    using that by (simp add: blocked_def st_switched st_set_st)
  have n: "t \<noteq> idle_thread s \<Longrightarrow> t = next_of s \<Longrightarrow> st s t = Some THREAD_READY" for t
    using queue_okD(2)[OF kinvD(3)[OF assms(1)], of t] by (auto simp: next_of_def split: list.splits)
  have ne: "wants s t = Some a \<Longrightarrow> t \<noteq> idle_thread s \<and> t \<noteq> running s" for t a
    using wants_idle[OF kinvD(8)[OF assms(1)]] assms(2) by auto
  show ?thesis
  proof (rule kinv_switch[OF assms(1) _ _ _ _ _ _ _ _ assms(3,4,2)])
    show "sched_ok (set_conts (running s) k ?b)"
      using sched_ok_cong[of "set_conts (running s) k ?b" ?b] sched by simp
    show "wants s t = Some a \<Longrightarrow> (st (set_conts (running s) k ?b) t = Some THREAD_BLOCKED) = (st s t = Some THREAD_BLOCKED)" for t a
      using st[of t] n[of t] ne[of t a] by auto
    show "wants s t = Some a \<Longrightarrow> awake (set_conts (running s) k ?b) t = awake s t" for t a
      using st[of t] n[of t] ne[of t a] by (auto simp: awake_def)
  qed simp_all
qed

text \<open>\<open>sema_up\<close>, with and without a waiting thread.\<close>

definition upped :: "addr \<Rightarrow> kstate \<Rightarrow> kstate" where
  "upped a s = set_val a (sz_add (val (semas s a)) 1)
     (case waiters (semas s a) of [] \<Rightarrow> s | t # ts \<Rightarrow> unblocked t (set_waiters a ts s))"

lemma env_ok_waiters: "env_ok (set_waiters a ws s) = env_ok s" "env_ok (s\<lparr>if_flag := b\<rparr>) = env_ok s"
  by (rule env_ok_cong; simp)+

lemma flag_commute: "set_val a v (unblocked t (set_waiters a ts (s\<lparr>if_flag := b\<rparr>)))\<lparr>if_flag := if_flag s\<rparr> = set_val a v (unblocked t (set_waiters a ts s))"
  "set_val a v (s\<lparr>if_flag := b\<rparr>)\<lparr>if_flag := if_flag s\<rparr> = set_val a v s"
  by (simp_all add: set_val_def unblocked_def set_waiters_def set_st_def)

lemma level_flag: "(intr_get_level s = INTR_ON) = if_flag s"
  by (simp add: intr_get_level_def)

lemma sema_up_eq:
  assumes "kinv owner s" and "a \<noteq> NULL"
  shows "sema_up a s = Inr (upped a s)"
proof (cases "waiters (semas s a)")
  case Nil
  then show ?thesis
    using assms(2) kinvD(9)[OF assms(1)]
    by (simp add: sema_up_def intr_disable_def upped_def set_level_back level_flag flag_commute)
next
  case (Cons t ts)
  let ?r = "set_waiters a ts (s\<lparr>if_flag := False\<rparr>)"
  have "st ?r t = Some THREAD_BLOCKED" using wait_okD(2)[OF kinvD(6)[OF assms(1)], of t a] Cons by simp
  then have "thread_unblock t ?r = Inr (unblocked t ?r)"
    using thread_unblock_eq[of ?r t] kinvD(2)[OF assms(1)] by (simp add: env_ok_waiters)
  then show ?thesis
    using assms(2) kinvD(9)[OF assms(1)] Cons
    by (simp add: sema_up_def intr_disable_def upped_def set_level_back level_flag flag_commute)
qed

lemma sz_add_le: "sz_add x y \<le> x + y"
  by (simp add: sz_add_def)

lemma st_set_val [simp]: "st (set_val a v s) = st s"
  by simp

lemma kinv_upped_wake:
  assumes inv: "kinv owner s" and W: "waiters (semas s a) = t # ts"
    and w: "wants s (running s) = None" and k: "rest_ok owner s k" and top: "\<not> top_off k"
  shows "kinv owner (set_conts (running s) k (upped a s))" (is "kinv _ ?s")
proof -
  note K = kinvD[OF inv] and O = wait_okD[OF kinvD(6)[OF inv]]
  have b: "st s t = Some THREAD_BLOCKED" and i: "t \<noteq> idle_thread s" and wt: "wants s t = Some a"
    using O(2,3,4)[of t a] W by auto
  have d: "t \<notin> set ts" "distinct ts" using O(1)[of a] W by auto
  let ?u = "unblocked t (set_waiters a ts s)"
  have up: "upped a s = set_val a (sz_add (val (semas s a)) 1) ?u" using W by (simp add: upped_def)
  have st: "st (upped a s) u = (if u = t then Some THREAD_READY else st s u)" for u
    using st_unblocked[of "set_waiters a ts s" t] b by (simp add: up)
  have wants: "wants ?s = wants s" using wants_step[of ?s s "running s" k] top_off_wants[OF top] w by (auto simp: up)
  have semas: "semas (upped a s) = (semas s)(a := \<lparr>val = sz_add (val (semas s a)) 1, waiters = ts\<rparr>)"
    by (cases "semas s a") (simp add: up)
  have only: "u \<in> set (waiters (semas s b)) \<Longrightarrow> u = t \<Longrightarrow> b = a" for u b using O(4)[of u b] wt by simp
  have env: "env_ok ?s"
    using env_ok_cong[of ?s ?u] env_ok_unblocked[of "set_waiters a ts s" t] K(2)
    by (simp add: up env_ok_waiters unblocked_def)
  have q: "queue_ok (set_waiters a ts s)" using K(3) queue_ok_cong[of "set_waiters a ts s" s] by simp
  have "queue_ok ?u" using queue_ok_unblocked[OF q] b i by simp
  then have "queue_ok ?s" using queue_ok_cong[of ?s ?u] by (simp add: up)
  moreover have "running s \<noteq> t" using b K(4) by auto
  ultimately have "sched_ok ?s" using env K(4) st[of "running s"] by (simp add: sched_ok_def) (simp add: up)
  moreover have "wait_ok ?s" unfolding wait_ok_def wants set_conts_sel st
  proof (intro conjI allI ballI impI)
    fix b show "distinct (waiters (semas (upped a s) b))" using O(1)[of b] d by (simp add: semas)
  next
    fix b u assume "u \<in> set (waiters (semas (upped a s) b))"
    then have u: "u \<in> set (waiters (semas s b))" "u \<noteq> t" using only[of u b] d W by (auto simp: semas split: if_splits)
    show "(if u = t then Some THREAD_READY else st s u) = Some THREAD_BLOCKED" "u \<noteq> idle_thread (upped a s)" "wants s u = Some b"
      using O(2-4)[OF u(1)] u(2) by (simp_all add: up)
  next
    fix u b assume "(if u = t then Some THREAD_READY else st s u) = Some THREAD_BLOCKED" "wants s u = Some b"
    then have "u \<in> set (waiters (semas s b))" "u \<noteq> t" using O(5)[of u b] by (auto split: if_splits)
    then show "u \<in> set (waiters (semas (upped a s) b))" using W by (auto simp: semas)
  qed
  moreover have "wake_ok ?s" unfolding wake_ok_def
  proof (intro allI impI)
    fix b assume ne: "waiters (semas ?s b) \<noteq> []"
    let ?P = "{u. awake s u \<and> wants s u = Some b}"
    have nb: "waiters (semas s b) \<noteq> []" using ne W by (auto simp: semas split: if_splits)
    then have le: "val (semas s b) \<le> card ?P" using K(7) by (simp add: wake_ok_def)
    have P: "{u. awake ?s u \<and> wants ?s u = Some b} = (if b = a then insert t ?P else ?P)"
      using wt by (auto simp: awake_def st wants)
    have "t \<notin> ?P" using \<open>st s t = Some THREAD_BLOCKED\<close> by (simp add: awake_def)
    then have c: "card (insert t ?P) = Suc (card ?P)"
      using finite_threads[OF K(2)] by (rule card_insert_disjoint[rotated])
    show "val (semas ?s b) \<le> card {u. awake ?s u \<and> wants ?s u = Some b}"
    proof (cases "b = a")
      case True
      then show ?thesis
        unfolding P using le sz_add_le[of "val (semas s a)" 1] c by (simp add: semas del: card_insert_disjoint)
    qed (use P le in \<open>simp add: semas\<close>)
  qed
  moreover have "stack_ok owner ?s"
    using stack_ok_step[OF K(8) _ _ k, of ?s] top by (simp add: up)
  ultimately show ?thesis using K(5) by (simp add: kinv_def up)
qed

lemma kinv_upped:
  assumes inv: "kinv owner s" and w: "wants s (running s) = None" and k: "rest_ok owner s k" and top: "\<not> top_off k"
  shows "kinv owner (set_conts (running s) k (upped a s))"
proof (cases "waiters (semas s a)")
  case Nil
  then show ?thesis
    by (intro kinv_quiet[OF inv _ _ _ _ _ _ _ _ _ _ _ k top]) (use kinvD(5)[OF inv] w in \<open>auto simp: upped_def\<close>)
next
  case (Cons t ts)
  then show ?thesis using kinv_upped_wake[OF inv _ w k top] by simp
qed

text \<open>The timer interrupt: the tick is counted, and the time slice may end.\<close>

definition ticked :: "kstate \<Rightarrow> kstate" where
  "ticked s = (let s = s\<lparr>timer_ticks := timer_ticks s + 1\<rparr>;
      s = (if running s = idle_thread s then s\<lparr>idle_ticks := idle_ticks s + 1\<rparr>
           else if pagedir (the (threads s (running s))) \<noteq> NULL then s\<lparr>user_ticks := user_ticks s + 1\<rparr>
           else s\<lparr>kernel_ticks := kernel_ticks s + 1\<rparr>)
    in outb 0x20 0x20 (s\<lparr>thread_ticks := sz_add (thread_ticks s) 1, yield_on_return := (sz_add (thread_ticks s) 1 \<ge> TIME_SLICE)\<rparr>))"

lemma ticked_sel [simp]:
  "if_flag (ticked s) = if_flag s" "in_external_intr (ticked s) = in_external_intr s"
  "running (ticked s) = running s" "ready_list (ticked s) = ready_list s" "idle_thread (ticked s) = idle_thread s"
  "semas (ticked s) = semas s" "conts (ticked s) = conts s"
  "init_page_dir (ticked s) = init_page_dir s" "intr_handlers (ticked s) = intr_handlers s"
  "threads (ticked s) = threads s" "st (ticked s) = st s" "holder (ticked s) = holder s"
  "thread_ticks (ticked s) = sz_add (thread_ticks s) 1" "timer_ticks (ticked s) = timer_ticks s + 1"
  "yield_on_return (ticked s) = (sz_add (thread_ticks s) 1 \<ge> TIME_SLICE)" "cond_waiters (ticked s) = cond_waiters s"
  by (simp_all add: ticked_def Let_def outb_def st_def fun_eq_iff)

lemma timer_interrupt_eq:
  assumes "sched_ok s" and "in_external_intr r" and "r = s\<lparr>in_external_intr := True, yield_on_return := False\<rparr>"
    and "\<not> in_external_intr s"
  shows "\<exists>u. timer_interrupt r = Inr u \<and> outb 0x20 0x20 (u\<lparr>in_external_intr := False\<rparr>) = ticked s \<and> if_flag u = if_flag s
    \<and> in_external_intr u"
proof -
  obtain x where x: "threads s (running s) = Some x" "status x = THREAD_RUNNING"
    using assms(1) by (auto simp: sched_ok_def st_def)
  let ?r = "r\<lparr>timer_ticks := timer_ticks r + 1\<rparr>"
  have "is_thread ?r (running s)"
    using is_thread_ok[of s "running s"] assms(1,3) by (simp add: sched_ok_def is_thread_def)
  then have cur: "thread_current ?r = Inr (running s)"
    using x assms(3) by (simp add: thread_current_def running_thread_def get_thread_def)
  show ?thesis
    using x cur assms(3,4)
    by (simp add: timer_interrupt_def thread_tick_def get_thread_def ticked_def outb_def intr_yield_on_return_def intr_context_def Let_def)
qed

lemma timer_intr_eq:
  assumes "kinv owner s" and "\<not> if_flag s"
  shows "timer_intr s = Inr ([Set_level INTR_OFF, Iret],
    if sz_add (thread_ticks s) 1 \<ge> TIME_SLICE then yielded (ticked s) else ticked s)"
proof -
  note K = kinvD[OF assms(1)]
  let ?r = "s\<lparr>in_external_intr := True, yield_on_return := False\<rparr>"
  obtain u where u: "timer_interrupt ?r = Inr u" "outb 0x20 0x20 (u\<lparr>in_external_intr := False\<rparr>) = ticked s"
    "if_flag u = if_flag s" "in_external_intr u"
    using timer_interrupt_eq[OF K(1) _ refl K(9)] by auto
  have h: "rget (intr_handlers s) 0x20 = Inr (intr_handlers s ! 0x20)" "intr_handlers s ! 0x20 \<noteq> NULL"
    using K(2) by (simp_all add: env_ok_def INTR_CNT_def)
  have "sched_ok (ticked s)" using sched_ok_cong[of "ticked s" s] K(1) by simp
  note y = thread_yield_eq(1)[OF this]
  have pic: "pic_end_of_interrupt 0x20 (u\<lparr>in_external_intr := False\<rparr>) = Inr (ticked s)"
    using u(2) by (simp add: pic_end_of_interrupt_def)
  show ?thesis
    using h u(1,3,4) assms(2) K(9) y pic
    by (simp add: timer_intr_def intr_handler_def intr_get_level_def intr_context_def)
qed

lemma tick_bound: "thread_ticks s < TIME_SLICE \<Longrightarrow> sz_add (thread_ticks s) 1 = Suc (thread_ticks s)"
  by (simp add: sz_add_def TIME_SLICE_def)

lemma kinv_ticked:
  assumes "kinv owner s" and "\<not> sz_add (thread_ticks s) 1 \<ge> TIME_SLICE" and "wants s (running s) = None"
    and "rest_ok owner s k" and "\<not> top_off k"
  shows "kinv owner (set_conts (running s) k (ticked s))"
  by (rule kinv_quiet[OF assms(1) _ _ _ _ _ _ _ _ _ _ _ assms(4,5)]) (use assms(2,3) in simp_all)

subsection \<open>Every call\<close>

lemma rest_ok_step:
  assumes inv: "kinv owner s" and c: "conts s (running s) = op # rest"
    and k: "\<forall>x \<in> set (List.tl k). \<not> starts_off x" "\<forall>x \<in> set k. call_ok owner (running s) x"
    and i: "\<not> idle_call op"
  shows "rest_ok owner s (k @ rest)" and "running s \<noteq> idle_thread s"
proof -
  note S = stack_okD[OF kinvD(8)[OF inv]]
  have "running s = idle_thread s \<Longrightarrow> idle_call op" using S(4) c by (auto simp: idle_stack_def)
  then show ni: "running s \<noteq> idle_thread s" using i by blast
  have "x \<in> set rest \<Longrightarrow> \<not> starts_off x \<and> call_ok owner (running s) x" for x
    using S(1)[of x "running s"] S(2)[OF ni, of x] c by simp
  moreover have "set (List.tl (k @ rest)) \<subseteq> set (List.tl k) \<union> set rest"
    by (cases k; cases rest) auto
  ultimately show "rest_ok owner s (k @ rest)" using k ni by (auto simp: rest_ok_def)
qed

lemma rest_ok_idle_call:
  assumes inv: "kinv owner s" and c: "conts s (running s) = op # rest"
    and k: "\<forall>x \<in> set k. idle_call x \<and> \<not> starts_off x \<and> call_ok owner (running s) x" and i: "idle_call op" "op \<noteq> Idle_loop" "op \<noteq> Idle_wake"
  shows "rest_ok owner s (k @ rest)"
proof -
  note S = stack_okD[OF kinvD(8)[OF inv]]
  have "set (List.tl (k @ rest)) \<subseteq> set k \<union> set rest"
    by (cases k; cases rest) auto
  then have r: "\<forall>x \<in> set (List.tl (k @ rest)). \<not> starts_off x"
    using S(1)[of _ "running s"] c k by auto
  show ?thesis
  proof (cases "running s = idle_thread s")
    case True
    then have "idle_stack (op # rest)" using S(4) c by simp
    then have "idle_stack (k @ rest)" using i k by (auto simp: idle_stack_def list_all_iff split: if_splits)
    then show ?thesis using r True by (simp add: rest_ok_def)
  next
    case False
    then show ?thesis using S(2)[of "running s"] c k r by (auto simp: rest_ok_def)
  qed
qed

lemma top_rest:
  assumes "kinv owner s" and "conts s (running s) = op # rest" and "k \<noteq> [] \<Longrightarrow> \<not> starts_off (hd k)"
  shows "\<not> top_off (k @ rest)"
proof (cases k)
  case Nil
  have "x \<in> set rest \<Longrightarrow> \<not> starts_off x" for x
    using stack_okD(1)[OF kinvD(8)[OF assms(1)], of x "running s"] assms(2) by simp
  then show ?thesis using Nil by (cases rest) (simp_all add: top_off_def)
next
  case (Cons x xs)
  then show ?thesis using assms(3) by (simp add: top_off_def)
qed

lemma top_call: "conts s (running s) = op # rest \<Longrightarrow> \<not> starts_off op \<Longrightarrow> wants s (running s) = None"
  by (cases op) (simp_all add: wants_top)

lemma top_intr: "conts s (running s) = Timer_intr # rest \<Longrightarrow> wants s (running s) = None"
  by (simp add: wants_top)

text \<open>A call whose only effect on what the invariant reads is to shorten the stack.\<close>

lemma kinv_plain:
  assumes inv: "kinv owner s" and c: "conts s (running s) = op # rest" and op: "\<not> starts_off op"
    and same: "threads s' = threads s" "init_page_dir s' = init_page_dir s" "intr_handlers s' = intr_handlers s"
      "in_external_intr s' = in_external_intr s" "ready_list s' = ready_list s" "idle_thread s' = idle_thread s" "running s' = running s"
      "thread_ticks s' = thread_ticks s" "conts s' = conts s"
    and semas: "\<And>a. waiters (semas s' a) = waiters (semas s a)" "\<And>a. waiters (semas s a) \<noteq> [] \<Longrightarrow> val (semas s' a) \<le> val (semas s a)"
    and k: "rest_ok owner s (k @ rest)" "k \<noteq> [] \<Longrightarrow> \<not> starts_off (hd k)"
  shows "kinv owner (set_conts (running s) (k @ rest) s')"
  by (rule kinv_quiet[OF inv _ _ _ _ _ _ _ _ _ _ _ k(1) top_rest[OF inv c k(2)]])
     (use same semas kinvD(5)[OF inv] top_call[OF c op] in \<open>simp_all\<close>)

lemma kinv_sema_retest:
  assumes inv: "kinv owner s" and off: "\<not> if_flag s \<or> \<not> starts_off op" and c: "conts s (running s) = op # rest"
    and op: "op = Sema_retest a l \<or> \<not> starts_off op \<and> \<not> idle_call op" and a: "owner a = None \<or> owner a = Some (running s)"
    and k: "\<forall>x \<in> set k'. \<not> starts_off x \<and> call_ok owner (running s) x"
  shows "\<exists>k s'. sema_retest a l (s\<lparr>if_flag := False\<rparr>) = Inr (k, s') \<and> kinv owner (set_conts (running s) (k @ k' @ rest) s')"
proof -
  let ?r = "s\<lparr>if_flag := False\<rparr>"
  have ni: "\<not> idle_call op" using op by auto
  have w: "wants s (running s) = None \<or> wants s (running s) = Some a"
    using op top_call[OF c] c by (auto simp: wants_top)
  have sr: "sched_ok ?r" using sched_ok_cong[of ?r s] kinvD(1)[OF inv] by simp
  show ?thesis
  proof (cases "val (semas s a) = 0")
    case True
    have "thread_current ?r = Inr (running s)" using thread_current_ok[of ?r] sr by (simp add: sched_ok_def)
    moreover have "sched_ok (set_waiters a (waiters (semas s a) @ [running s]) ?r)"
      using sched_ok_cong[of "set_waiters a (waiters (semas s a) @ [running s]) ?r" s] kinvD(1)[OF inv] by simp
    ultimately have e: "sema_retest a l ?r = Inr ([Sema_retest a l], down_blocked a s)"
      using True thread_block_eq(1)[of "set_waiters a (waiters (semas s a) @ [running s]) ?r"]
      by (simp add: sema_retest_def down_blocked_def)
    have "rest_ok owner s ((Sema_retest a l # k') @ rest)" and "running s \<noteq> idle_thread s"
      using rest_ok_step[OF inv c _ _ ni, of "Sema_retest a l # k'"] a k by auto
    then show ?thesis using kinv_down_blocked[OF inv _ True w, of l "k' @ rest"] e by simp
  next
    case False
    have e: "sema_retest a l ?r = Inr ([], set_val a (val (semas s a) - 1) s\<lparr>if_flag := (l = INTR_ON)\<rparr>)"
      using False kinvD(9)[OF inv] by (simp add: sema_retest_def set_level_back) (simp add: set_val_def)
    have r: "rest_ok owner s (k' @ rest)"
      using rest_ok_step(1)[OF inv c _ _ ni, of k'] k by (cases k') auto
    have "\<not> top_off (k' @ rest)" using top_rest[OF inv c, of k'] k by simp
    then have "kinv owner (set_conts (running s) (k' @ rest) (set_val a (val (semas s a) - 1) s\<lparr>if_flag := (l = INTR_ON)\<rparr>))"
      by (intro kinv_quiet[OF inv _ _ _ _ _ _ _ _ _ _ _ r])
         (use kinvD(5)[OF inv] w False in \<open>auto\<close>)
    then show ?thesis using e by simp
  qed
qed

lemma waiter_free:
  assumes inv: "kinv owner s" and "owner w = Some (running s)"
  shows "waiters (semas s w) = []"
proof (rule ccontr)
  assume "waiters (semas s w) \<noteq> []"
  then obtain t where t: "t \<in> set (waiters (semas s w))" by (cases "waiters (semas s w)") auto
  then have "wants s t = Some w" and ni: "t \<noteq> idle_thread s" using wait_okD(3,4)[OF kinvD(6)[OF inv] t] by auto
  then obtain l ks where "conts s t = Sema_retest w l # ks"
    by (cases "conts s t" rule: top_wants.cases) (auto simp: wants_top)
  then have "call_ok owner t (Sema_retest w l)" using stack_okD(2)[OF kinvD(8)[OF inv] ni, of "Sema_retest w l"] by simp
  then show False using assms(2) next_not_waiting(2)[OF inv t] by simp
qed

lemma current_ok: "kinv owner s \<Longrightarrow> thread_current s = Inr (running s)"
  using thread_current_ok kinvD(2,4) by blast

lemma held_ok: "kinv owner s \<Longrightarrow> lock_held_by_current_thread l s = (if l = NULL then Inl Assert_fail else Inr (holder s l = running s))"
  by (simp add: lock_held_by_current_thread_def current_ok)

text \<open>
  The calls that the code's own assertions reject: a null pointer, a lock taken twice, and a
  lock released or a condition used by a thread that does not hold the lock.
\<close>

fun misuse :: "kstate \<Rightarrow> kcall \<Rightarrow> bool" where
  "misuse s (Kernel_thread f a) = (f = NULL)"
| "misuse s (Sema_down a) = (a = NULL)"
| "misuse s (Sema_try_down a) = (a = NULL)"
| "misuse s (Sema_up a) = (a = NULL)"
| "misuse s (Lock_acquire l) = (l = NULL \<or> lock_sema l = NULL \<or> holder s l = running s)"
| "misuse s (Lock_try_acquire l) = (l = NULL \<or> lock_sema l = NULL \<or> holder s l = running s)"
| "misuse s (Lock_release l) = (l = NULL \<or> holder s l \<noteq> running s)"
| "misuse s (Cond_wait c l w) = (c = NULL \<or> l = NULL \<or> w = NULL \<or> holder s l \<noteq> running s)"
| "misuse s (Cond_signal c l) = (c = NULL \<or> l = NULL \<or> holder s l \<noteq> running s)"
| "misuse s (Cond_broadcast c l) = (c = NULL \<or> l = NULL)"
| "misuse s (Timer_sleep n) = (\<not> if_flag s)"
| "misuse s _ = False"

text \<open>A call of the running thread returns, and the invariant holds after it.\<close>

definition runs_ok :: "(addr \<Rightarrow> addr option) \<Rightarrow> kstate \<Rightarrow> kcall list \<Rightarrow> kcall \<Rightarrow> bool" where
  "runs_ok owner s rest op \<longleftrightarrow>
     (\<exists>k s'. exec op s = Inr (k, s') \<and> kinv owner (set_conts (running s) (k @ rest) s'))"

lemma runs_okI: "exec op s = Inr (k, s') \<Longrightarrow> kinv owner (set_conts (running s) (k @ rest) s') \<Longrightarrow> runs_ok owner s rest op"
  unfolding runs_ok_def by blast

lemma runs_sema_calls:
  assumes inv: "kinv owner s" and c: "conts s (running s) = op # rest" and ok: "\<not> misuse s op"
    and op: "op = Sema_down a \<or> op = Sema_retest a l \<or> op = Sema_up a \<or> op = Lock_acquire b"
  shows "runs_ok owner s rest op"
proof -
  note S = stack_okD[OF kinvD(8)[OF inv]]
  have ni: "running s \<noteq> idle_thread s" using S(4) c op by (auto simp: idle_stack_def)
  have co: "call_ok owner (running s) op" using S(2)[OF ni] c by simp
  have ext: "\<not> intr_context s" using kinvD(9)[OF inv] by (simp add: intr_context_def)
  show ?thesis using op
  proof (elim disjE)
    assume o: "op = Sema_down a"
    then show ?thesis
      using kinv_sema_retest[OF inv _ c, of a "intr_get_level s" "[]"] co ok ext
      by (auto simp: runs_ok_def sema_down_def intr_disable_def)
  next
    assume o: "op = Sema_retest a l"
    then have "\<not> if_flag s" using S(3) c by (simp add: top_off_def)
    then have e: "s\<lparr>if_flag := False\<rparr> = s" and "\<not> if_flag s \<or> \<not> starts_off op" by simp_all
    then show ?thesis
      using kinv_sema_retest[OF inv _ c, of a l "[]"] co o unfolding e by (simp add: runs_ok_def)
  next
    assume o: "op = Sema_up a"
    then have "rest_ok owner s rest" using rest_ok_step(1)[OF inv c, of "[]"] by simp
    moreover have "wants s (running s) = None" using top_call[OF c] o by simp
    ultimately have "kinv owner (set_conts (running s) rest (upped a s))"
      using kinv_upped[OF inv] top_rest[OF inv c, of "[]"] by simp
    then show ?thesis using sema_up_eq[OF inv] ok o by (simp add: runs_ok_def done_with_def)
  next
    assume o: "op = Lock_acquire b"
    then obtain k s' where "sema_retest (lock_sema b) (intr_get_level s) (s\<lparr>if_flag := False\<rparr>) = Inr (k, s')"
        "kinv owner (set_conts (running s) (k @ [Lock_taken b] @ rest) s')"
      using kinv_sema_retest[OF inv _ c, of "lock_sema b" "intr_get_level s" "[Lock_taken b]"] co by auto
    then show ?thesis
      using ok ext o held_ok[OF inv, of b] by (simp add: runs_ok_def lock_acquire_def sema_down_def intr_disable_def)
  qed
qed

lemma runs_yield_calls:
  assumes inv: "kinv owner s" and c: "conts s (running s) = op # rest" and ok: "\<not> misuse s op"
    and op: "op = Yield \<or> op = Timer_sleep n \<or> op = Sleep_loop a n"
  shows "runs_ok owner s rest op"
proof -
  have w: "wants s (running s) = None" using top_call[OF c] op by auto
  have y: "kinv owner (set_conts (running s) (k @ rest) (yielded s))"
    if "k \<noteq> []" "\<forall>x \<in> set k. \<not> starts_off x \<and> call_ok owner (running s) x" for k
  proof (rule kinv_yielded[OF inv w])
    show "rest_ok owner s (k @ rest)" using rest_ok_step(1)[OF inv c, of k] that op by (cases k) auto
    show "\<not> top_off (k @ rest)" using top_rest[OF inv c, of k] that by simp
  qed
  have q: "kinv owner (set_conts (running s) (k @ rest) s)"
    if "k = [] \<or> k = [Sleep_loop b m] \<or> k = [Yield, Sleep_loop b m]" for k b m
  proof (rule kinv_plain[OF inv c])
    show "rest_ok owner s (k @ rest)" using rest_ok_step(1)[OF inv c, of k] that op by auto
  qed (use that op in auto)
  show ?thesis using op
  proof (elim disjE)
    assume "op = Yield"
    then show ?thesis using y[of "[Set_level (intr_get_level s)]"] thread_yield_eq(1)[OF kinvD(1)[OF inv]]
      by (simp add: runs_ok_def)
  next
    assume "op = Timer_sleep n"
    then show ?thesis using ok q[of "[Sleep_loop (timer_ticks s) n]"] by (simp add: runs_ok_def timer_sleep_def level_flag)
  next
    assume "op = Sleep_loop a n"
    then show ?thesis using q[of "[]"] q[of "[Yield, Sleep_loop a n]"]
      by (cases "timer_elapsed a s < n") (simp_all add: runs_ok_def sleep_loop_def)
  qed
qed

lemma runs_idle_calls:
  assumes inv: "kinv owner s" and c: "conts s (running s) = op # rest"
    and op: "op = Idle_loop \<or> op = Idle_wake"
  shows "runs_ok owner s rest op"
proof -
  note S = stack_okD[OF kinvD(8)[OF inv]]
  have idle: "running s = idle_thread s" by (rule ccontr) (use S(2)[of "running s" op] c op in auto)
  then have "idle_stack (op # rest)" using S(4) c by simp
  then have i: "idle_stack (x # rest)" if "x = Idle_loop \<or> x = Idle_wake" for x
    using that by (auto simp: idle_stack_def)
  have r: "rest_ok owner s (x # rest)" if "x = Idle_loop \<or> x = Idle_wake" for x
    using i[OF that] S(1)[of _ "running s"] c idle by (simp add: rest_ok_def)
  show ?thesis using op
  proof
    assume o: "op = Idle_loop"
    let ?r = "s\<lparr>if_flag := False\<rparr>"
    have "sched_ok ?r" using sched_ok_cong[of ?r s] kinvD(1)[OF inv] by simp
    then have "idle_block s = Inr (blocked ?r)" using thread_block_eq(1) by (simp add: idle_block_def intr_disable_def)
    then show ?thesis
      using kinv_blocked[OF inv top_call[OF c] r[of Idle_wake]] o by (simp add: runs_ok_def top_off_def)
  next
    assume o: "op = Idle_wake"
    then show ?thesis
      using kinv_plain[OF inv c, of "idle_wake s" "[Idle_loop]"] r[of Idle_loop] by (simp add: runs_ok_def idle_wake_def)
  qed
qed

lemma runs_plain_calls:
  assumes inv: "kinv owner s" and c: "conts s (running s) = op # rest" and ok: "\<not> misuse s op"
    and op: "op = Kernel_thread f x \<or> op = Set_level l \<or> op = Iret \<or> op = Lock_taken b \<or> op = Lock_release b
      \<or> op = Cond_signal d b \<or> op = Cond_broadcast d b"
  shows "runs_ok owner s rest op"
proof -
  note S = stack_okD[OF kinvD(8)[OF inv]]
  have ext: "\<not> in_external_intr s" using kinvD(9)[OF inv] .
  have r: "rest_ok owner s (k @ rest)" if "\<not> idle_call op" "\<forall>y \<in> set k. \<not> starts_off y \<and> call_ok owner (running s) y" for k
    using rest_ok_step(1)[OF inv c _ _ that(1), of k] that(2) by (cases k) auto
  have z: "idle_call op \<Longrightarrow> rest_ok owner s rest" using rest_ok_idle_call[OF inv c, of "[]"] op by auto
  have p: "runs_ok owner s rest op"
    if "exec op s = Inr (k, s')" "\<forall>y \<in> set k. \<not> starts_off y \<and> call_ok owner (running s) y" "idle_call op \<Longrightarrow> k = []"
      "threads s' = threads s" "init_page_dir s' = init_page_dir s" "intr_handlers s' = intr_handlers s"
      "in_external_intr s' = in_external_intr s" "ready_list s' = ready_list s" "idle_thread s' = idle_thread s" "running s' = running s"
      "thread_ticks s' = thread_ticks s" "conts s' = conts s" "semas s' = semas s" for k s'
  proof (rule runs_okI[OF that(1)])
    have nso: "\<not> starts_off op" using op by auto
    have ro: "rest_ok owner s (k @ rest)" using that(2,3) r[of k] z by (cases "idle_call op") simp_all
    show "kinv owner (set_conts (running s) (k @ rest) s')"
      by (rule kinv_plain[OF inv c nso that(4-12) _ _ ro]) (use that(2,13) in simp_all)
  qed
  show ?thesis using op
  proof (elim disjE)
    assume "op = Kernel_thread f x" then show ?thesis
      using p[of "[]" "s\<lparr>if_flag := True\<rparr>"] ok ext by (simp add: done_with_def enter_thread_def intr_enable_def intr_context_def)
  next
    assume "op = Set_level l" then show ?thesis
      using p[of "[]" "s\<lparr>if_flag := (l = INTR_ON)\<rparr>"] ext by (simp add: set_level_back)
  next
    assume "op = Iret" then show ?thesis using p[of "[]" "s\<lparr>if_flag := True\<rparr>"] by simp
  next
    assume "op = Lock_taken b" then show ?thesis
      using p[of "[]" "s\<lparr>holder := (holder s)(b := running s)\<rparr>"] current_ok[OF inv] by (simp add: done_with_def lock_taken_def)
  next
    assume "op = Lock_release b" then show ?thesis
      using p[of "[Sema_up (lock_sema b)]" "s\<lparr>holder := (holder s)(b := NULL)\<rparr>"] held_ok[OF inv, of b] ok by (simp add: lock_release_def)
  next
    assume o: "op = Cond_signal d b"
    show ?thesis
    proof (cases "cond_waiters s d")
      case Nil
      then show ?thesis using o p[of "[]" s] held_ok[OF inv, of b] ok ext by (simp add: cond_signal_def intr_context_def)
    next
      case (Cons w ws)
      then have "exec op s = Inr ([Sema_up w], s\<lparr>cond_waiters := (cond_waiters s)(d := ws)\<rparr>)"
        using o held_ok[OF inv, of b] ok ext by (simp add: cond_signal_def intr_context_def)
      then show ?thesis by (rule p) (simp_all add: o)
    qed
  next
    assume "op = Cond_broadcast d b" then show ?thesis
      using p[of "[]" s] p[of "[Cond_signal d b, Cond_broadcast d b]" s] ok by (cases "cond_waiters s d = []") (simp_all add: cond_broadcast_def)
  qed
qed

lemma runs_cond_wait:
  assumes inv: "kinv owner s" and c: "conts s (running s) = op # rest" and ok: "\<not> misuse s op" and op: "op = Cond_wait d b w"
  shows "runs_ok owner s rest op"
proof -
  let ?k = "[Lock_release b, Sema_down w, Lock_acquire b]"
  let ?s = "s\<lparr>semas := (semas s)(w := \<lparr>val = 0, waiters = []\<rparr>), cond_waiters := (cond_waiters s)(d := cond_waiters s d @ [w])\<rparr>"
  have ni: "running s \<noteq> idle_thread s" using rest_ok_step(2)[OF inv c, of "[]"] op by simp
  have co: "owner w = Some (running s)" "owner (lock_sema b) = None"
    using stack_okD(2)[OF kinvD(8)[OF inv] ni, of op] c op by simp_all
  have e: "exec op s = Inr (?k, ?s)"
    using op ok held_ok[OF inv, of b] kinvD(9)[OF inv] by (simp add: cond_wait_def intr_context_def sema_init_def)
  have "rest_ok owner s (?k @ rest)" using rest_ok_step(1)[OF inv c, of ?k] co op by simp
  then have "kinv owner (set_conts (running s) (?k @ rest) ?s)"
    by (intro kinv_plain[OF inv c]) (use op waiter_free[OF inv co(1)] in auto)
  then show ?thesis using e by (intro runs_okI)
qed

lemma kinv_cong:
  assumes "threads s' = threads s" "init_page_dir s' = init_page_dir s" "intr_handlers s' = intr_handlers s"
      "in_external_intr s' = in_external_intr s" "ready_list s' = ready_list s" "idle_thread s' = idle_thread s" "running s' = running s"
      "conts s' = conts s" "semas s' = semas s" "if_flag s' = if_flag s" "thread_ticks s' < TIME_SLICE"
    and "kinv owner s"
  shows "kinv owner s'"
proof -
  have st: "st s' = st s" and w: "wants s' = wants s" using assms(1,8) by (simp_all add: st_def wants_def fun_eq_iff)
  have aw: "awake s' = awake s" using st by (simp add: awake_def fun_eq_iff)
  show ?thesis
    using assms(12) sched_ok_cong[OF assms(1-7)] assms(11)
    unfolding kinv_def wait_ok_def wake_ok_def stack_ok_def st w aw assms(6-10) by blast
qed

lemma switched_ticks: "switched (s\<lparr>thread_ticks := n\<rparr>) = switched s"
proof -
  have n: "next_of (s\<lparr>thread_ticks := n\<rparr>) = next_of s" by (simp add: next_of_def split: list.split)
  have t: "set_st t z (s\<lparr>thread_ticks := n\<rparr>) = (set_st t z s)\<lparr>thread_ticks := n\<rparr>" for t z by (simp add: set_st_def)
  show ?thesis unfolding switched_def Let_def n t by simp
qed

lemma yielded_ticks: "yielded (s\<lparr>thread_ticks := n\<rparr>) = yielded s"
proof -
  have "set_st t z (s\<lparr>thread_ticks := n, if_flag := False, ready_list := q\<rparr>) = (set_st t z (s\<lparr>if_flag := False, ready_list := q\<rparr>))\<lparr>thread_ticks := n\<rparr>"
    for t z q by (simp add: set_st_def)
  then show ?thesis unfolding yielded_def by (simp add: switched_ticks)
qed

lemma runs_timer_intr:
  assumes inv: "kinv owner s" and c: "conts s (running s) = op # rest" and op: "op = Timer_intr"
  shows "runs_ok owner s rest op"
proof -
  let ?k = "[Set_level INTR_OFF, Iret]"
  have off: "\<not> if_flag s" using stack_okD(3)[OF kinvD(8)[OF inv]] c op by (simp add: top_off_def)
  have r: "rest_ok owner s (?k @ rest)" using rest_ok_idle_call[OF inv c, of ?k] op by simp
  have w: "wants s (running s) = None" using c op by (simp add: wants_top)
  note e = timer_intr_eq[OF inv off]
  show ?thesis
  proof (cases "sz_add (thread_ticks s) 1 \<ge> TIME_SLICE")
    case True
    define s1 where "s1 = (ticked s)\<lparr>thread_ticks := 0\<rparr>"
    have y: "yielded (ticked s) = yielded s1"
      by (simp add: s1_def yielded_ticks)
    have i: "kinv owner s1" by (rule kinv_cong[OF _ _ _ _ _ _ _ _ _ _ _ inv]) (simp_all add: s1_def TIME_SLICE_def)
    have same: "running s1 = running s" "idle_thread s1 = idle_thread s" "wants s1 = wants s"
      by (simp_all add: s1_def wants_def fun_eq_iff)
    have "rest_ok owner s1 (?k @ rest)" using r by (simp only: rest_ok_def same)
    then have "kinv owner (set_conts (running s) (?k @ rest) (yielded s1))"
      using kinv_yielded[OF i, of "?k @ rest"] w same by (simp add: top_off_def)
    then show ?thesis using e op True y by (simp add: runs_ok_def)
  next
    case False
    then show ?thesis using kinv_ticked[OF inv False w r] e op by (simp add: runs_ok_def top_off_def)
  qed
qed

lemma runs_block:
  assumes inv: "kinv owner s" and c: "conts s (running s) = op # rest" and op: "op = Block"
  shows "runs_ok owner s rest op"
proof -
  let ?r = "s\<lparr>if_flag := False\<rparr>" and ?k = "[Set_level (intr_get_level s)]"
  have "sched_ok ?r" using sched_ok_cong[of ?r s] kinvD(1)[OF inv] by simp
  then have e: "exec op s = Inr (?k, blocked ?r)"
    using thread_block_eq(1) op by (simp add: block_self_def intr_disable_def)
  have "rest_ok owner s (?k @ rest)" using rest_ok_step(1)[OF inv c, of ?k] op by simp
  moreover have "\<not> top_off (?k @ rest)" by (simp add: top_off_def)
  ultimately have "kinv owner (set_conts (running s) (?k @ rest) (blocked ?r))"
    using kinv_blocked[OF inv top_call[OF c]] op by simp
  then show ?thesis using e by (intro runs_okI)
qed

lemma exec_sema_try_down:
  assumes "kinv owner s" and "a \<noteq> NULL"
  shows "sema_try_down a s = Inr (val (semas s a) > 0, if val (semas s a) > 0 then set_val a (val (semas s a) - 1) s else s)"
  using assms(2) kinvD(9)[OF assms(1)]
  by (simp add: sema_try_down_def intr_disable_def set_level_back level_flag flag_commute)

lemma exec_lock_try_acquire:
  assumes "kinv owner s" and "\<not> misuse s (Lock_try_acquire l)"
  shows "lock_try_acquire l s = Inr (if val (semas s (lock_sema l)) > 0
      then (True, [Lock_taken l], set_val (lock_sema l) (val (semas s (lock_sema l)) - 1) s) else (False, [], s))"
  using assms(2) exec_sema_try_down[OF assms(1), of "lock_sema l"] held_ok[OF assms(1), of l]
  by (simp add: lock_try_acquire_def)

lemma runs_try_calls:
  assumes inv: "kinv owner s" and c: "conts s (running s) = op # rest" and ok: "\<not> misuse s op"
    and op: "op = Sema_try_down a \<or> op = Lock_try_acquire b"
  shows "runs_ok owner s rest op"
proof -
  have r: "kinv owner (set_conts (running s) (k @ rest) s')"
    if "k = [] \<or> k = [Lock_taken b]" "s' = s \<or> s' = set_val d (val (semas s d) - 1) s" for k s' d
  proof (rule kinv_plain[OF inv c])
    show "rest_ok owner s (k @ rest)" using rest_ok_step(1)[OF inv c, of k] that(1) op by auto
  qed (use that op in auto)
  show ?thesis using op
  proof
    assume "op = Sema_try_down a"
    then show ?thesis using r[of "[]" _ a] exec_sema_try_down[OF inv, of a] ok
      by (intro runs_okI[of op s "[]"]) auto
  next
    assume o: "op = Lock_try_acquire b"
    then show ?thesis using r[of "[]" s] r[of "[Lock_taken b]" _ "lock_sema b"] exec_lock_try_acquire[OF inv, of b] ok
      by (cases "val (semas s (lock_sema b)) > 0") (simp_all add: runs_ok_def)
  qed
qed

text \<open>No call of the running thread fails, unless the code's assertions reject it.\<close>

lemma exec_ok:
  assumes "kinv owner s" and "conts s (running s) = op # rest" and "\<not> misuse s op"
  shows "runs_ok owner s rest op"
  by (cases op)
     (use runs_sema_calls[OF assms] runs_yield_calls[OF assms] runs_idle_calls[OF assms(1,2)] runs_plain_calls[OF assms]
       runs_block[OF assms(1,2)] runs_try_calls[OF assms] runs_cond_wait[OF assms] runs_timer_intr[OF assms(1,2)] in blast)+

lemma rassert_fails [simp]: "rbind (rassert P) (\<lambda>_. Inl Assert_fail) = Inl Assert_fail"
  by (cases P) simp_all

lemma misuse_fails:
  assumes "kinv owner s" and "misuse s op"
  shows "exec op s = Inl Assert_fail"
  using assms(2) held_ok[OF assms(1)] kinvD(9)[OF assms(1)]
  by (cases op)
     (auto simp: done_with_def enter_thread_def sema_down_def sema_try_down_def sema_up_def lock_acquire_def lock_try_acquire_def lock_release_def cond_wait_def
        cond_signal_def cond_broadcast_def timer_sleep_def level_flag intr_context_def sema_init_def)

section \<open>Reachable states\<close>

fun public_call :: "kcall \<Rightarrow> bool" where
  "public_call Yield = True"
| "public_call (Set_level l) = True"
| "public_call (Sema_down a) = True"
| "public_call Block = True"
| "public_call (Sema_try_down a) = True"
| "public_call (Sema_up a) = True"
| "public_call (Lock_acquire l) = True"
| "public_call (Lock_try_acquire l) = True"
| "public_call (Lock_release l) = True"
| "public_call (Cond_wait c l w) = True"
| "public_call (Cond_signal c l) = True"
| "public_call (Cond_broadcast c l) = True"
| "public_call (Timer_sleep n) = True"
| "public_call _ = False"

definition api_ok :: "(addr \<Rightarrow> addr option) \<Rightarrow> (addr \<Rightarrow> kcall set) \<Rightarrow> bool" where
  "api_ok owner api \<longleftrightarrow> (\<forall>t. \<forall>op \<in> api t. public_call op \<and> call_ok owner t op)"

lemma kinv_call:
  assumes inv: "kinv owner s" and c: "conts s (running s) = []" and op: "public_call op" "call_ok owner (running s) op"
  shows "kinv owner (set_conts (running s) [op] s)"
proof -
  have "running s \<noteq> idle_thread s" using stack_okD(4)[OF kinvD(8)[OF inv]] c by (auto simp: idle_stack_def)
  then have k: "rest_ok owner s [op]" using op by (simp add: rest_ok_def)
  have top: "\<not> top_off [op]" using op(1) by (cases op) (simp_all add: top_off_def)
  show ?thesis
    by (rule kinv_quiet[OF inv _ _ _ _ _ _ _ _ _ _ _ k top]) (use kinvD(5)[OF inv] c in \<open>simp_all add: wants_top\<close>)
qed

lemma kinv_tick:
  assumes inv: "kinv owner s" and on: "if_flag s"
  shows "kinv owner (set_conts (running s) (Timer_intr # conts s (running s)) (s\<lparr>if_flag := False\<rparr>))"
proof -
  note S = stack_okD[OF kinvD(8)[OF inv]]
  have top: "\<not> top_off (conts s (running s))" using S(3) on by blast
  have ns: "x \<in> set (conts s (running s)) \<Longrightarrow> \<not> starts_off x" for x
    using top S(1)[of x "running s"] by (cases "conts s (running s)") (auto simp: top_off_def)
  have k: "rest_ok owner s (Timer_intr # conts s (running s))"
    using ns S(2)[of "running s"] S(4) by (auto simp: rest_ok_def idle_stack_def)
  have "wants s (running s) = None" using top_off_wants[OF top] by (simp add: wants_top)
  then show ?thesis
    by (intro kinv_still[OF inv _ _ _ _ _ _ _ _ _ _ _ k]) (use kinvD(5)[OF inv] in simp_all)
qed

lemma kinv_woken:
  assumes inv: "kinv owner s" and t: "st s t = Some THREAD_BLOCKED" "t \<noteq> idle_thread s" "wants s t = None"
  shows "kinv owner (unblocked t s)"
proof -
  note K = kinvD[OF inv] and O = wait_okD[OF kinvD(6)[OF inv]] and st = st_unblocked[OF t(1)]
  have w: "wants (unblocked t s) = wants s" by (simp add: wants_def fun_eq_iff)
  have ne: "wants s u = Some a \<Longrightarrow> u \<noteq> t" for u a using t(3) by auto
  have "running s \<noteq> t" using t(1) K(4) by auto
  then have "sched_ok (unblocked t s)"
    using env_ok_unblocked[OF K(2)] queue_ok_unblocked[OF K(3) t(1,2)] K(4) st[of "running s"] by (simp add: sched_ok_def)
  moreover have "wait_ok (unblocked t s)" unfolding wait_ok_def w unblocked_sel st
    using O ne by (intro conjI allI ballI impI) (metis | simp)+
  moreover have "{u. awake (unblocked t s) u \<and> wants (unblocked t s) u = Some a} = {u. awake s u \<and> wants s u = Some a}" for a
    unfolding w awake_def st using ne by auto
  then have "wake_ok (unblocked t s)" using K(7) by (simp add: wake_ok_def)
  moreover have "stack_ok owner (unblocked t s)" using K(8) by (simp add: stack_ok_def)
  ultimately show ?thesis using K(5) by (simp add: kinv_def)
qed

lemma kstep_kinv:
  assumes "kinv owner s" and "api_ok owner api" and "kstep api s e s'"
  shows "kinv owner s'"
  using assms(3)
proof cases
  case (run op rest k s'')
  then show ?thesis
    using exec_ok[OF assms(1)] misuse_fails[OF assms(1), of op] by (cases "misuse s op") (auto simp: runs_ok_def)
next
  case (call op)
  then show ?thesis using kinv_call[OF assms(1)] assms(2) by (auto simp: api_ok_def)
next
  case tick
  then show ?thesis using kinv_tick[OF assms(1)] by simp
next
  case (wake t)
  then have "s' = unblocked t s" using thread_unblock_eq[OF kinvD(2)[OF assms(1)], of t] by simp
  then show ?thesis using kinv_woken[OF assms(1)] wake by simp
qed

lemma ksteps_kinv:
  "ksteps api s es s' \<Longrightarrow> kinv owner s \<Longrightarrow> api_ok owner api \<Longrightarrow> kinv owner s'"
  by (induction rule: ksteps.induct) (auto intro: kstep_kinv)

section \<open>What each call does\<close>

lemma sema_retest_eq:
  assumes inv: "kinv owner s" and r: "r = s\<lparr>if_flag := False\<rparr>"
  shows "sema_retest a l r = Inr (if val (semas s a) = 0 then ([Sema_retest a l], down_blocked a s)
    else ([], set_val a (val (semas s a) - 1) s\<lparr>if_flag := (l = INTR_ON)\<rparr>))"
proof (cases "val (semas s a) = 0")
  case True
  have "thread_current r = Inr (running s)"
    using thread_current_ok[of r] kinvD(1)[OF inv] sched_ok_cong[of r s] by (simp add: sched_ok_def r)
  moreover have "sched_ok (set_waiters a (waiters (semas s a) @ [running s]) r)"
    using sched_ok_cong[of "set_waiters a (waiters (semas s a) @ [running s]) r" s] kinvD(1)[OF inv] by (simp add: r)
  ultimately show ?thesis
    using True thread_block_eq(1)[of "set_waiters a (waiters (semas s a) @ [running s]) r"]
    by (simp add: sema_retest_def down_blocked_def r)
next
  case False
  then show ?thesis
    using kinvD(9)[OF inv] by (simp add: sema_retest_def set_level_back r) (simp add: set_val_def)
qed

lemma exec_sema_down:
  assumes "kinv owner s" and "a \<noteq> NULL"
  shows "sema_down a s = Inr (if val (semas s a) = 0 then ([Sema_retest a (intr_get_level s)], down_blocked a s)
    else ([], set_val a (val (semas s a) - 1) s))"
  using assms(2) kinvD(9)[OF assms(1)] sema_retest_eq[OF assms(1) refl, of a "intr_get_level s"]
  by (simp add: sema_down_def intr_disable_def intr_context_def level_flag)

lemma exec_sema_retest:
  assumes "kinv owner s" and "\<not> if_flag s"
  shows "sema_retest a l s = Inr (if val (semas s a) = 0 then ([Sema_retest a l], down_blocked a s)
    else ([], set_val a (val (semas s a) - 1) s\<lparr>if_flag := (l = INTR_ON)\<rparr>))"
proof -
  have "s = s\<lparr>if_flag := False\<rparr>" using assms(2) by simp
  then show ?thesis by (rule sema_retest_eq[OF assms(1)])
qed

lemma exec_lock_acquire:
  assumes "kinv owner s" and "\<not> misuse s (Lock_acquire l)"
  shows "lock_acquire l s = Inr (if val (semas s (lock_sema l)) = 0
      then ([Sema_retest (lock_sema l) (intr_get_level s), Lock_taken l], down_blocked (lock_sema l) s)
      else ([Lock_taken l], set_val (lock_sema l) (val (semas s (lock_sema l)) - 1) s))"
  using assms(2) kinvD(9)[OF assms(1)] exec_sema_down[OF assms(1), of "lock_sema l"] held_ok[OF assms(1), of l]
  by (simp add: lock_acquire_def intr_context_def)

lemma exec_idle_loop: "kinv owner s \<Longrightarrow> exec Idle_loop s = Inr ([Idle_wake], blocked (s\<lparr>if_flag := False\<rparr>))"
  using thread_block_eq(1)[of "s\<lparr>if_flag := False\<rparr>"] kinvD(1)[of owner s] sched_ok_cong[of "s\<lparr>if_flag := False\<rparr>" s]
  by (simp add: idle_block_def intr_disable_def)

lemma exec_block: "kinv owner s \<Longrightarrow> block_self s = Inr ([Set_level (intr_get_level s)], blocked (s\<lparr>if_flag := False\<rparr>))"
  using thread_block_eq(1)[of "s\<lparr>if_flag := False\<rparr>"] kinvD(1)[of owner s] sched_ok_cong[of "s\<lparr>if_flag := False\<rparr>" s]
  by (simp add: block_self_def intr_disable_def)

lemma exec_yield: "kinv owner s \<Longrightarrow> thread_yield s = Inr (intr_get_level s, yielded s)"
  using thread_yield_eq(1) kinvD(1) by blast

lemma exec_lock_release:
  "kinv owner s \<Longrightarrow> \<not> misuse s (Lock_release l) \<Longrightarrow>
   lock_release l s = Inr ([Sema_up (lock_sema l)], s\<lparr>holder := (holder s)(l := NULL)\<rparr>)"
  using held_ok[of owner s l] by (simp add: lock_release_def)

lemma exec_lock_taken: "kinv owner s \<Longrightarrow> lock_taken l s = Inr (s\<lparr>holder := (holder s)(l := running s)\<rparr>)"
  using current_ok by (simp add: lock_taken_def)

lemma exec_cond_wait:
  "kinv owner s \<Longrightarrow> \<not> misuse s (Cond_wait c l w) \<Longrightarrow>
   cond_wait c l w s = Inr ([Lock_release l, Sema_down w, Lock_acquire l],
     s\<lparr>semas := (semas s)(w := \<lparr>val = 0, waiters = []\<rparr>), cond_waiters := (cond_waiters s)(c := cond_waiters s c @ [w])\<rparr>)"
  using held_ok[of owner s l] kinvD(9)[of owner s] by (simp add: cond_wait_def intr_context_def sema_init_def)

lemma exec_cond_signal:
  "kinv owner s \<Longrightarrow> \<not> misuse s (Cond_signal c l) \<Longrightarrow>
   cond_signal c l s = Inr (case cond_waiters s c of [] \<Rightarrow> ([], s)
     | w # ws \<Rightarrow> ([Sema_up w], s\<lparr>cond_waiters := (cond_waiters s)(c := ws)\<rparr>))"
  using held_ok[of owner s l] kinvD(9)[of owner s] by (auto simp: cond_signal_def intr_context_def split: list.split)

lemma exec_cond_broadcast:
  "\<not> misuse s (Cond_broadcast c l) \<Longrightarrow> cond_broadcast c l s =
   Inr (if cond_waiters s c = [] then [] else [Cond_signal c l, Cond_broadcast c l], s)"
  by (simp add: cond_broadcast_def)

lemma exec_timer_intr:
  "kinv owner s \<Longrightarrow> \<not> if_flag s \<Longrightarrow> timer_intr s = Inr ([Set_level INTR_OFF, Iret],
    if Suc (thread_ticks s) = TIME_SLICE then yielded (ticked s) else ticked s)"
  using timer_intr_eq[of owner s] tick_bound[of s] kinvD(5)[of owner s] by (auto simp: TIME_SLICE_def)

lemma run_off:
  assumes "kinv owner s" and "conts s (running s) = op # rest" and "starts_off op"
  shows "\<not> if_flag s"
  using stack_okD(3)[OF kinvD(8)[OF assms(1)]] assms(2,3) by (simp add: top_off_def)

lemmas exec_calls = exec_sema_down exec_lock_acquire exec_yield exec_lock_release exec_lock_taken
  exec_cond_wait exec_cond_signal sema_up_eq exec_block exec_sema_try_down exec_lock_try_acquire

section \<open>The run queue is served in order\<close>

text \<open>
  In one step the queue keeps its order: threads are added at its end, and a switch gives the
  processor to its head and starts a new time slice. \<open>i\<close> counts the timer interrupts handled.
\<close>

definition served :: "kstate \<Rightarrow> nat \<Rightarrow> kstate \<Rightarrow> bool" where
  "served s i s' \<longleftrightarrow>
     (\<exists>xs. ready_list s' = ready_list s @ xs \<and> thread_ticks s' = thread_ticks s + i)
   \<or> (\<exists>xs. running s' = hd (ready_list s) \<and> ready_list s' = List.tl (ready_list s) @ xs \<and> thread_ticks s' = 0)"

lemma served_same: "ready_list s' = ready_list s \<Longrightarrow> thread_ticks s' = thread_ticks s \<Longrightarrow> served s 0 s'"
  by (auto simp: served_def)

lemma served_switch:
  assumes "ready_list s \<noteq> []"
  shows "served s i (down_blocked a s)" and "served s i (yielded s)" and "served s i (blocked (s\<lparr>if_flag := b\<rparr>))"
    and "served s i (yielded (ticked s))"
proof -
  obtain t ts where q: "ready_list s = t # ts" using assms by (cases "ready_list s") auto
  then have n: "next_of s = t" by (simp add: next_of_def)
  show "served s i (down_blocked a s)" "served s i (blocked (s\<lparr>if_flag := b\<rparr>))"
    using q n by (simp_all add: served_def blocked_def)
  show "served s i (yielded s)" "served s i (yielded (ticked s))"
    using q by (simp_all add: served_def yielded_def next_of_def)
qed

lemma served_upped: "served s 0 (upped a s)"
  by (auto simp: served_def upped_def split: list.split)

lemma served_ticked: "kinv owner s \<Longrightarrow> served s 1 (ticked s)"
  using tick_bound[of s] kinvD(5)[of owner s] by (simp add: served_def)

definition intr_count :: "kcall \<Rightarrow> nat" where
  "intr_count op = (if op = Timer_intr then 1 else 0)"

lemma exec_served:
  assumes inv: "kinv owner s" and c: "conts s (running s) = op # rest" and e: "exec op s = Inr (k, s')"
    and ne: "ready_list s \<noteq> []"
  shows "served s (intr_count op) s'"
proof -
  have ok: "\<not> misuse s op" using misuse_fails[OF inv, of op] e by auto
  note sw = served_switch[OF ne]
  have ext: "\<not> in_external_intr s" using kinvD(9)[OF inv] .
  show ?thesis
  proof (cases op)
    case (Kernel_thread f x)
    then show ?thesis using e ok ext
      by (auto simp: intr_count_def done_with_def enter_thread_def intr_enable_def intr_context_def intro: served_same)
  next
    case (Set_level l)
    then show ?thesis using e ext by (auto simp: intr_count_def set_level_back intro: served_same)
  next
    case Idle_loop
    then show ?thesis using e exec_idle_loop[OF inv] sw(3) by (auto simp: intr_count_def simp del: exec.simps)
  next
    case Idle_wake
    then show ?thesis using e by (auto simp: intr_count_def idle_wake_def intro: served_same)
  next
    case (Sema_retest a l)
    then show ?thesis
      using e exec_sema_retest[OF inv run_off[OF inv c], of a l] sw(1)
      by (auto simp: intr_count_def split: if_splits intro: served_same)
  next
    case (Cond_signal d l)
    then show ?thesis using e ok exec_cond_signal[OF inv, of d l]
      by (auto simp: intr_count_def split: list.splits intro: served_same)
  next
    case Timer_intr
    then show ?thesis
      using e exec_timer_intr[OF inv run_off[OF inv c]] sw(4) served_ticked[OF inv]
      by (auto simp: intr_count_def split: if_splits)
  next
    case (Timer_sleep n)
    then show ?thesis using e ok by (auto simp: intr_count_def timer_sleep_def level_flag Let_def intro: served_same)
  next
    case (Sleep_loop b n)
    then show ?thesis using e by (auto simp: intr_count_def sleep_loop_def intro: served_same)
  qed (use e ok sw(1,2,3) served_upped exec_calls[OF inv] exec_cond_broadcast[of s] in
        \<open>auto simp: intr_count_def done_with_def split: if_splits intro: served_same\<close>)
qed

lemma kstep_served:
  assumes "kinv owner s" and "kstep api s e s'" and "ready_list s \<noteq> []"
  shows "served s (if e = Run Timer_intr then 1 else 0) s'"
  using assms(2)
proof cases
  case (run op rest k s'')
  then show ?thesis
    using exec_served[OF assms(1) run(3,4) assms(3)] by (auto simp: served_def intr_count_def)
next
  case (wake t)
  then have "s' = unblocked t s" using thread_unblock_eq[OF kinvD(2)[OF assms(1)], of t] by simp
  then show ?thesis using wake by (simp add: served_def)
qed (auto intro: served_same)

text \<open>
  A bound on the timer interrupts before the thread at place \<open>k\<close> of the queue runs, which every
  step keeps.
\<close>

lemma served_closer:
  assumes "served s i s'" and "k < length (ready_list s)" and "ready_list s ! k = t" and "thread_ticks s < TIME_SLICE" and "i \<le> 1"
  shows "running s' = t \<or> (\<exists>j < length (ready_list s'). ready_list s' ! j = t
    \<and> (j + 1) * TIME_SLICE + i + thread_ticks s \<le> (k + 1) * TIME_SLICE + thread_ticks s')"
  using assms(1) unfolding served_def
proof (elim disjE exE conjE)
  fix xs assume "ready_list s' = ready_list s @ xs" "thread_ticks s' = thread_ticks s + i"
  then show ?thesis using assms(2,3) by (intro disjI2 exI[of _ k]) (simp add: nth_append)
next
  fix xs assume q: "running s' = hd (ready_list s)" "ready_list s' = List.tl (ready_list s) @ xs" "thread_ticks s' = 0"
  show ?thesis
  proof (cases k)
    case 0
    then show ?thesis using q assms(2,3) by (cases "ready_list s") auto
  next
    case (Suc j)
    then have "ready_list s' ! j = t" "j < length (ready_list s')"
      using q assms(2,3) by (cases "ready_list s"; simp add: nth_append)+
    then show ?thesis using Suc q assms(4,5) by (intro disjI2 exI[of _ j]) (simp add: TIME_SLICE_def)
  qed
qed

definition intrs :: "event list \<Rightarrow> nat" where
  "intrs es = length (filter (\<lambda>e. e = Run Timer_intr) es)"

lemma ksteps_served:
  assumes "ksteps api s es s'" and "kinv owner s" and "api_ok owner api" and "k < length (ready_list s)" and "ready_list s ! k = t"
  shows "(\<exists>es1 es2 s1. es = es1 @ es2 \<and> ksteps api s es1 s1 \<and> ksteps api s1 es2 s' \<and> running s1 = t)
    \<or> (\<exists>j < length (ready_list s'). ready_list s' ! j = t
        \<and> (j + 1) * TIME_SLICE + intrs es + thread_ticks s \<le> (k + 1) * TIME_SLICE + thread_ticks s')"
  using assms
proof (induction rule: ksteps.induct)
  case (start s)
  then show ?case by (intro disjI2 exI[of _ k]) (simp add: intrs_def)
next
  case (more s es s' e s'')
  have inv: "kinv owner s'" using ksteps_kinv more by blast
  from more.IH[OF more.prems] show ?case
  proof (elim disjE exE conjE)
    fix es1 es2 s1 assume "es = es1 @ es2" "ksteps api s es1 s1" "ksteps api s1 es2 s'" "running s1 = t"
    then show ?thesis using ksteps.more[OF _ more.hyps(2), of s1 es2]
      by (intro disjI1 exI[of _ es1] exI[of _ "es2 @ [e]"] exI[of _ s1]) simp
  next
    fix j assume j: "j < length (ready_list s')" "ready_list s' ! j = t"
      "(j + 1) * TIME_SLICE + intrs es + thread_ticks s \<le> (k + 1) * TIME_SLICE + thread_ticks s'"
    let ?i = "if e = Run Timer_intr then 1 else 0 :: nat"
    have "ready_list s' \<noteq> []" using j(1) by auto
    then have sv: "served s' ?i s''" by (rule kstep_served[OF inv more.hyps(2)])
    have "running s'' = t \<or> (\<exists>j' < length (ready_list s''). ready_list s'' ! j' = t
      \<and> (j' + 1) * TIME_SLICE + ?i + thread_ticks s' \<le> (j + 1) * TIME_SLICE + thread_ticks s'')"
      by (rule served_closer[OF sv j(1,2) kinvD(5)[OF inv]]) simp
    then show ?thesis
    proof (elim disjE exE conjE)
      assume r: "running s'' = t"
      have "ksteps api s (es @ [e]) s''" using ksteps.more[OF more.hyps] .
      then show ?thesis using r ksteps.start[of api s'']
        by (intro disjI1 exI[of _ "es @ [e]"] exI[of _ "[]"] exI[of _ s'']) simp
    next
      fix j' assume "j' < length (ready_list s'')" "ready_list s'' ! j' = t"
        "(j' + 1) * TIME_SLICE + ?i + thread_ticks s' \<le> (j + 1) * TIME_SLICE + thread_ticks s''"
      then show ?thesis using j(3) by (intro disjI2 exI[of _ j']) (auto simp: intrs_def)
    qed
  qed
qed

end
