(* ===== verification/Scheduling.thy ===== *)
theory Scheduling
  imports Synch
begin

text \<open>
  Properties of the runs of the machine of \<open>Synch\<close>, from any state with its invariant: the scheduler
  invariant, that no step faults unexpectedly, that no wakeup is lost, mutual exclusion of locks,
  that ready threads run, that timer interrupts are acknowledged and counted, and that a sleeping
  thread sleeps long enough. The ownership of locks is counted in tokens.
\<close>

section \<open>Who owns a lock\<close>

text \<open>
  A thread owns a lock from the moment its \<open>sema_down\<close> in \<open>lock_acquire\<close> has passed until its
  \<open>sema_up\<close> in \<open>lock_release\<close>. In between it is the holder, except at the two ends, where the
  calls left on its stack show that it owns the lock: the count of these is the number of tokens.
\<close>

fun tokens :: "addr \<Rightarrow> kcall list \<Rightarrow> nat" where
  "tokens l [] = 0"
| "tokens l (Sema_retest a v # ks) = (if a = lock_sema l then tokens l (List.tl ks) else tokens l ks)"
| "tokens l (Lock_taken b # ks) = (if b = l then 1 else 0) + tokens l ks"
| "tokens l (Sema_up a # ks) = (if a = lock_sema l then 1 else 0) + tokens l ks"
| "tokens l (op # ks) = tokens l ks"

definition total :: "kstate \<Rightarrow> addr \<Rightarrow> nat" where
  "total s l = (\<Sum>t \<in> dom (threads s). tokens l (conts s t))"

definition held :: "kstate \<Rightarrow> addr \<Rightarrow> nat" where
  "held s l = (if holder s l = NULL then 0 else 1)"

definition owns :: "kstate \<Rightarrow> addr \<Rightarrow> addr \<Rightarrow> bool" where
  "owns s l t \<longleftrightarrow> threads s t \<noteq> None \<and> (holder s l = t \<or> tokens l (conts s t) > 0)"

text \<open>The semaphore of a lock is used by the lock operations only.\<close>

definition lock_call :: "addr set \<Rightarrow> kcall \<Rightarrow> bool" where
  "lock_call L op \<longleftrightarrow> (case op of Sema_down a \<Rightarrow> a \<notin> lock_sema ` L | Sema_try_down a \<Rightarrow> a \<notin> lock_sema ` L | Cond_wait c b w \<Rightarrow> w \<notin> lock_sema ` L | _ \<Rightarrow> True)"

definition retest_ok :: "addr set \<Rightarrow> kcall list \<Rightarrow> bool" where
  "retest_ok L ks \<longleftrightarrow> (\<forall>a v r. \<forall>l \<in> L. ks = Sema_retest a v # r \<longrightarrow> a = lock_sema l \<longrightarrow> (\<exists>r'. r = Lock_taken l # r'))"

definition lock_inv :: "addr set \<Rightarrow> kstate \<Rightarrow> bool" where
  "lock_inv L s \<longleftrightarrow> (\<forall>l \<in> L. val (semas s (lock_sema l)) + held s l + total s l = 1)
     \<and> (\<forall>t. retest_ok L (conts s t) \<and> (\<forall>op \<in> set (conts s t). lock_call L op))
     \<and> (\<forall>c. set (cond_waiters s c) \<inter> lock_sema ` L = {})"

lemma lock_invD:
  assumes "lock_inv L s"
  shows "l \<in> L \<Longrightarrow> val (semas s (lock_sema l)) + held s l + total s l = 1" and "retest_ok L (conts s t)"
    and "op \<in> set (conts s t) \<Longrightarrow> lock_call L op" and "set (cond_waiters s c) \<inter> lock_sema ` L = {}"
  using assms unfolding lock_inv_def by blast+

lemma lock_sema_inj [simp]: "lock_sema l = lock_sema b \<longleftrightarrow> l = b"
  by (simp add: lock_sema_def)

lemma total_step:
  assumes "finite (dom (threads s))" and "threads s t \<noteq> None"
    and "dom (threads s') = dom (threads s)" and "conts s' = (conts s)(t := k)"
  shows "total s' l + tokens l (conts s t) = total s l + tokens l k"
proof -
  have t: "t \<in> dom (threads s)" using assms(2) by blast
  have "total s l = tokens l (conts s t) + (\<Sum>u \<in> dom (threads s) - {t}. tokens l (conts s u))"
    unfolding total_def by (rule sum.remove[OF assms(1) t])
  moreover have "total s' l = tokens l k + (\<Sum>u \<in> dom (threads s) - {t}. tokens l (conts s u))"
    unfolding total_def assms(3,4) by (subst sum.remove[OF assms(1) t]) (auto intro: sum.cong)
  ultimately show ?thesis by simp
qed

lemma tokens_le_total:
  assumes "finite (dom (threads s))" and "threads s t \<noteq> None"
  shows "tokens l (conts s t) \<le> total s l"
  unfolding total_def using assms by (intro member_le_sum) auto

text \<open>A step of the running thread that keeps the sum for every lock.\<close>

lemma lock_inv_step:
  assumes inv: "kinv owner s" and lk: "lock_inv L s"
    and same: "dom (threads s') = dom (threads s)" "conts s' = (conts s)(running s := k)"
    and k: "retest_ok L k" "\<forall>op \<in> set k. lock_call L op"
    and cw: "\<And>c. set (cond_waiters s' c) \<inter> lock_sema ` L = {}"
    and eq: "\<And>l. l \<in> L \<Longrightarrow> val (semas s' (lock_sema l)) + held s' l + tokens l k
      = val (semas s (lock_sema l)) + held s l + tokens l (conts s (running s))"
  shows "lock_inv L s'"
proof -
  have fin: "finite (dom (threads s))" using kinvD(2)[OF inv] by (simp add: env_ok_def)
  have cur: "threads s (running s) \<noteq> None" using kinvD(4)[OF inv] by (auto simp: st_def)
  have "val (semas s' (lock_sema l)) + held s' l + total s' l = 1" if "l \<in> L" for l
    using eq[OF that] total_step[OF fin cur same, of l] lock_invD(1)[OF lk that] by linarith
  then show ?thesis using lk k cw same(2) unfolding lock_inv_def by auto
qed

lemma retest_ok_other: "k = [] \<or> \<not> starts_off (hd k) \<Longrightarrow> retest_ok L k"
  by (auto simp: retest_ok_def)

text \<open>A call that neither counts as a token nor touches the semaphore of a lock.\<close>

lemma lock_inv_plain:
  assumes inv: "kinv owner s" and lk: "lock_inv L s" and c: "conts s (running s) = op # rest"
    and same: "dom (threads s') = dom (threads s)" "conts s' = conts s" "holder s' = holder s"
    and v: "\<And>l. l \<in> L \<Longrightarrow> val (semas s' (lock_sema l)) = val (semas s (lock_sema l))"
    and cw: "\<And>c. set (cond_waiters s' c) \<inter> lock_sema ` L = {}"
    and k: "retest_ok L (k @ rest)" "\<forall>op \<in> set k. lock_call L op"
    and tok: "\<And>l. l \<in> L \<Longrightarrow> tokens l (k @ rest) = tokens l (op # rest)"
  shows "lock_inv L (set_conts (running s) (k @ rest) s')"
proof (rule lock_inv_step[OF inv lk])
  show "\<forall>op \<in> set (k @ rest). lock_call L op"
    using k(2) lock_invD(3)[OF lk, of _ "running s"] c by auto
qed (use same v cw k(1) tok c in \<open>simp_all add: held_def\<close>)

lemma rest_starts:
  assumes "kinv owner s" and "conts s (running s) = op # rest"
  shows "retest_ok L rest"
proof (rule retest_ok_other)
  have "x \<in> set rest \<Longrightarrow> \<not> starts_off x" for x
    using stack_okD(1)[OF kinvD(8)[OF assms(1)], of x "running s"] assms(2) by simp
  then show "rest = [] \<or> \<not> starts_off (hd rest)" by (cases rest) simp_all
qed

lemma cond_waiters_same [simp]:
  "cond_waiters (set_st t z s) = cond_waiters s" "cond_waiters (set_waiters a ws s) = cond_waiters s"
  "cond_waiters (switched s) = cond_waiters s" "cond_waiters (set_val a v s) = cond_waiters s"
  by (simp_all add: set_st_def set_waiters_def switched_def Let_def set_val_def)

lemma switch_more [simp]:
  "dom (threads (down_blocked a s)) = dom (threads s)" "cond_waiters (down_blocked a s) = cond_waiters s"
  "dom (threads (yielded s)) = dom (threads s)" "cond_waiters (yielded s) = cond_waiters s"
  "dom (threads (blocked s)) = dom (threads s)" "cond_waiters (blocked s) = cond_waiters s"
  by (simp_all add: down_blocked_def yielded_def blocked_def)

lemma upped_more:
  "dom (threads (upped a s)) = dom (threads s)" "cond_waiters (upped a s) = cond_waiters s" "holder (upped a s) = holder s"
  "conts (upped a s) = conts s" "val (semas (upped a s) b) = (if b = a then sz_add (val (semas s a)) 1 else val (semas s b))"
  by (auto simp: upped_def unblocked_def set_st_def set_waiters_def set_val_def split: list.split)

lemma lock_down:
  assumes inv: "kinv owner s" and lk: "lock_inv L s" and c: "conts s (running s) = op # rest" and t: "\<forall>l. tokens l (op # rest) = tokens l rest"
    and k: "k = [] \<and> a \<notin> lock_sema ` L \<or> k = [Lock_taken b] \<and> a = lock_sema b"
  shows "val (semas s a) = 0 \<Longrightarrow> lock_inv L (set_conts (running s) (Sema_retest a v # k @ rest) (down_blocked a s))"
    and "val (semas s a) \<noteq> 0 \<Longrightarrow> lock_inv L (set_conts (running s) (k @ rest) (set_val a (val (semas s a) - 1) s))"
proof -
  have lc: "\<forall>x \<in> set rest. lock_call L x" using lock_invD(3)[OF lk, of _ "running s"] c by simp
  have lk': "\<forall>x \<in> set k. lock_call L x" using k by (auto simp: lock_call_def)
  show "lock_inv L (set_conts (running s) (Sema_retest a v # k @ rest) (down_blocked a s))"
  proof (rule lock_inv_step[OF inv lk])
    show "retest_ok L (Sema_retest a v # k @ rest)" using k by (auto simp: retest_ok_def)
    show "\<forall>x \<in> set (Sema_retest a v # k @ rest). lock_call L x" using lc lk' by (auto simp: lock_call_def)
  qed (use k t c lock_invD(4)[OF lk] in \<open>auto simp: held_def\<close>)
  assume v: "val (semas s a) \<noteq> 0"
  show "lock_inv L (set_conts (running s) (k @ rest) (set_val a (val (semas s a) - 1) s))"
  proof (rule lock_inv_step[OF inv lk])
    show "retest_ok L (k @ rest)" using k rest_starts[OF inv c, of L] by (auto simp: retest_ok_def)
    show "\<forall>x \<in> set (k @ rest). lock_call L x" using lc lk' by auto
  qed (use k t c v lock_invD(4)[OF lk] in \<open>auto simp: held_def\<close>)
qed

lemma lock_retest:
  assumes inv: "kinv owner s" and lk: "lock_inv L s" and c: "conts s (running s) = Sema_retest a v # rest"
  shows "val (semas s a) = 0 \<Longrightarrow> lock_inv L (set_conts (running s) (Sema_retest a v # rest) (down_blocked a s))"
    and "val (semas s a) \<noteq> 0 \<Longrightarrow> lock_inv L (set_conts (running s) rest (set_val a (val (semas s a) - 1) s\<lparr>if_flag := f\<rparr>))"
proof -
  have lc: "\<forall>x \<in> set rest. lock_call L x" "retest_ok L (Sema_retest a v # rest)"
    using lock_invD(3)[OF lk, of _ "running s"] lock_invD(2)[OF lk, of "running s"] c by simp_all
  show "lock_inv L (set_conts (running s) (Sema_retest a v # rest) (down_blocked a s))"
    by (rule lock_inv_step[OF inv lk, where k = "Sema_retest a v # rest"])
       (use lc c lock_invD(4)[OF lk] in \<open>auto simp: held_def lock_call_def\<close>)
  assume v: "val (semas s a) \<noteq> 0"
  have tok: "tokens l rest = Suc (tokens l (List.tl rest))" if "l \<in> L" "a = lock_sema l" for l
    using lc(2) that by (auto simp: retest_ok_def)
  show "lock_inv L (set_conts (running s) rest (set_val a (val (semas s a) - 1) s\<lparr>if_flag := f\<rparr>))"
    by (rule lock_inv_step[OF inv lk, where k = rest])
       (use lc c v rest_starts[OF inv c] lock_invD(4)[OF lk] tok in \<open>auto simp: held_def\<close>)
qed

lemma lock_up:
  assumes inv: "kinv owner s" and lk: "lock_inv L s" and c: "conts s (running s) = Sema_up a # rest"
  shows "lock_inv L (set_conts (running s) rest (upped a s))"
proof -
  have lc: "\<forall>x \<in> set rest. lock_call L x" using lock_invD(3)[OF lk, of _ "running s"] c by simp
  have fin: "finite (dom (threads s))" and cur: "threads s (running s) \<noteq> None"
    using kinvD(2,4)[OF inv] by (auto simp: env_ok_def st_def)
  have z: "val (semas s (lock_sema l)) = 0" if "l \<in> L" "a = lock_sema l" for l
    using lock_invD(1)[OF lk that(1)] tokens_le_total[OF fin cur, of l] c that(2) by simp
  show ?thesis
    by (rule lock_inv_step[OF inv lk, where k = rest])
       (use lc c z rest_starts[OF inv c] lock_invD(4)[OF lk] in \<open>auto simp: held_def upped_more sz_add_def\<close>)
qed

lemma lock_taken_inv:
  assumes inv: "kinv owner s" and lk: "lock_inv L s" and c: "conts s (running s) = Lock_taken b # rest"
  shows "lock_inv L (set_conts (running s) rest (s\<lparr>holder := (holder s)(b := running s)\<rparr>))"
proof -
  have lc: "\<forall>x \<in> set rest. lock_call L x" using lock_invD(3)[OF lk, of _ "running s"] c by simp
  have fin: "finite (dom (threads s))" and cur: "threads s (running s) \<noteq> None"
    using kinvD(2,4)[OF inv] by (auto simp: env_ok_def st_def)
  have nn: "running s \<noteq> NULL" using cur env_okD(1)[OF kinvD(2)[OF inv]] by auto
  have z: "held s b = 0" if "b \<in> L"
    using lock_invD(1)[OF lk that(1)] tokens_le_total[OF fin cur, of b] c by simp
  show ?thesis
    by (rule lock_inv_step[OF inv lk, where k = rest])
       (use lc c z nn rest_starts[OF inv c] lock_invD(4)[OF lk] in \<open>auto simp: held_def\<close>)
qed

lemma lock_release_inv:
  assumes inv: "kinv owner s" and lk: "lock_inv L s" and c: "conts s (running s) = Lock_release b # rest" and h: "holder s b = running s"
  shows "lock_inv L (set_conts (running s) (Sema_up (lock_sema b) # rest) (s\<lparr>holder := (holder s)(b := NULL)\<rparr>))"
proof -
  have lc: "\<forall>x \<in> set rest. lock_call L x" using lock_invD(3)[OF lk, of _ "running s"] c by simp
  have cur: "threads s (running s) \<noteq> None" using kinvD(4)[OF inv] by (auto simp: st_def)
  have nn: "running s \<noteq> NULL" using cur env_okD(1)[OF kinvD(2)[OF inv]] by auto
  show ?thesis
    by (rule lock_inv_step[OF inv lk, where k = "Sema_up (lock_sema b) # rest"])
       (use lc c h nn lock_invD(4)[OF lk] in \<open>auto simp: held_def lock_call_def retest_ok_def\<close>)
qed

text \<open>Every call keeps the sum.\<close>

lemma exec_lock_inv:
  assumes inv: "kinv owner s" and lk: "lock_inv L s" and c: "conts s (running s) = op # rest" and e: "exec op s = Inr (k, s')"
  shows "lock_inv L (set_conts (running s) (k @ rest) s')"
proof -
  have ok: "\<not> misuse s op" using misuse_fails[OF inv, of op] e by auto
  note rs = rest_starts[OF inv c, of L] and cw = lock_invD(4)[OF lk] and off = run_off[OF inv c]
  have lc: "lock_call L op" using lock_invD(3)[OF lk, of op "running s"] c by simp
  note plain = lock_inv_plain[OF inv lk c]
  have ext: "\<not> in_external_intr s" using kinvD(9)[OF inv] .
  show ?thesis
  proof (cases op)
    case (Kernel_thread f x)
    then have "k = []" "s' = s\<lparr>if_flag := True\<rparr>" using e ok ext
      by (auto simp: done_with_def enter_thread_def intr_enable_def intr_context_def)
    then show ?thesis using Kernel_thread rs cw by (intro plain) auto
  next
    case Yield
    then have "k = [Set_level (intr_get_level s)]" "s' = yielded s" using e exec_yield[OF inv] by auto
    then show ?thesis using Yield cw by (intro plain) (auto simp: lock_call_def intro: retest_ok_other)
  next
    case Block
    then have "k = [Set_level (intr_get_level s)]" "s' = blocked (s\<lparr>if_flag := False\<rparr>)" using e exec_block[OF inv] by auto
    then show ?thesis using Block cw by (intro plain) (auto simp: lock_call_def intro: retest_ok_other)
  next
    case (Set_level l)
    then have "k = []" "s' = s\<lparr>if_flag := (l = INTR_ON)\<rparr>" using e ext by (auto simp: set_level_back)
    then show ?thesis using Set_level rs cw by (intro plain) auto
  next
    case Idle_loop
    then have "k = [Idle_wake]" "s' = blocked (s\<lparr>if_flag := False\<rparr>)" using e exec_idle_loop[OF inv] by auto
    then show ?thesis using Idle_loop cw by (intro plain) (auto simp: lock_call_def intro: retest_ok_other)
  next
    case Idle_wake
    then have "k = [Idle_loop]" "s' = s\<lparr>if_flag := True\<rparr>" using e by (auto simp: idle_wake_def)
    then show ?thesis using Idle_wake cw by (intro plain) (simp_all add: lock_call_def retest_ok_other)
  next
    case (Sema_down a)
    then have a: "a \<notin> lock_sema ` L" using lc by (simp add: lock_call_def)
    show ?thesis
      using lock_down(1)[OF inv lk c, of "[]" a _ "intr_get_level s"] lock_down(2)[OF inv lk c, of "[]" a] a e ok exec_sema_down[OF inv, of a] Sema_down
      by (auto split: if_splits)
  next
    case (Sema_try_down a)
    then have "a \<notin> lock_sema ` L" using lc by (simp add: lock_call_def)
    then have a: "l \<in> L \<Longrightarrow> lock_sema l \<noteq> a" for l by blast
    have "k = []" "s' = s \<or> s' = set_val a (val (semas s a) - 1) s"
      using e ok exec_sema_try_down[OF inv, of a] Sema_try_down by (auto split: if_splits)
    then show ?thesis using Sema_try_down rs cw a by (elim disjE; intro plain) auto
  next
    case (Lock_try_acquire b)
    then have "k = [Lock_taken b] \<and> val (semas s (lock_sema b)) \<noteq> 0 \<and> s' = set_val (lock_sema b) (val (semas s (lock_sema b)) - 1) s
        \<or> k = [] \<and> s' = s"
      using e ok exec_lock_try_acquire[OF inv, of b] by (auto split: if_splits)
    then show ?thesis
    proof
      assume "k = [] \<and> s' = s"
      then show ?thesis using Lock_try_acquire rs cw by (intro plain) auto
    qed (use lock_down(2)[OF inv lk c, of "[Lock_taken b]" "lock_sema b" b] Lock_try_acquire in auto)
  next
    case (Sema_retest a v)
    then show ?thesis
      using lock_retest(1)[OF inv lk, of a v rest] lock_retest(2)[OF inv lk, of a v rest] c e exec_sema_retest[OF inv off, of a v] by (auto split: if_splits)
  next
    case (Sema_up a)
    then show ?thesis using lock_up[OF inv lk, of a rest] c e ok sema_up_eq[OF inv, of a] by (auto simp: done_with_def)
  next
    case (Lock_acquire b)
    then show ?thesis
      using lock_down(1)[OF inv lk c, of "[Lock_taken b]" "lock_sema b" b "intr_get_level s"]
        lock_down(2)[OF inv lk c, of "[Lock_taken b]" "lock_sema b" b] e ok exec_lock_acquire[OF inv, of b]
      by (auto split: if_splits)
  next
    case (Lock_taken b)
    then show ?thesis using lock_taken_inv[OF inv lk, of b rest] c e exec_lock_taken[OF inv] by (auto simp: done_with_def)
  next
    case (Lock_release b)
    then show ?thesis using lock_release_inv[OF inv lk, of b rest] c e ok exec_lock_release[OF inv, of b] by auto
  next
    case (Cond_wait d b w)
    then have w: "w \<notin> lock_sema ` L" using lc by (simp add: lock_call_def)
    then show ?thesis using Cond_wait e ok exec_cond_wait[OF inv, of d b w] cw
      by (intro plain) (auto simp: lock_call_def intro: retest_ok_other)
  next
    case (Cond_signal d b)
    show ?thesis
    proof (cases "cond_waiters s d")
      case Nil
      then show ?thesis using Cond_signal e ok exec_cond_signal[OF inv, of d b] rs cw by (intro plain) auto
    next
      case (Cons w ws)
      then have "w \<notin> lock_sema ` L" "set ws \<inter> lock_sema ` L = {}" using cw[of d] by auto
      then show ?thesis using Cons Cond_signal e ok exec_cond_signal[OF inv, of d b] cw
        by (intro plain) (auto simp: lock_call_def image_iff split: if_splits intro: retest_ok_other)
    qed
  next
    case (Cond_broadcast d b)
    then show ?thesis using e ok exec_cond_broadcast[of s d b] rs cw
      by (intro plain) (auto simp: lock_call_def split: if_splits intro: retest_ok_other)
  next
    case (Timer_sleep n)
    then have "k = [Sleep_loop (timer_ticks s) n]" "s' = s" using e ok by (auto simp: timer_sleep_def Let_def level_flag)
    then show ?thesis using Timer_sleep cw by (intro plain) (auto simp: lock_call_def intro: retest_ok_other)
  next
    case (Sleep_loop a n)
    then have "k = [] \<or> k = [Yield, Sleep_loop a n]" "s' = s" using e by (auto simp: sleep_loop_def)
    then show ?thesis using Sleep_loop rs cw by (elim disjE; intro plain) (auto simp: lock_call_def intro: retest_ok_other)
  next
    case Timer_intr
    then have "k = [Set_level INTR_OFF, Iret]" "s' = yielded (ticked s) \<or> s' = ticked s"
      using e exec_timer_intr[OF inv off] by (auto split: if_splits)
    then show ?thesis using Timer_intr cw by (elim disjE; intro plain) (simp_all add: lock_call_def retest_ok_other)
  next
    case Iret
    then have "k = []" "s' = s\<lparr>if_flag := True\<rparr>" using e by simp_all
    then show ?thesis using Iret rs cw by (intro plain) simp_all
  qed
qed

text \<open>The calls of a program that uses the semaphores of its locks through the locks only.\<close>

definition locks_api :: "addr set \<Rightarrow> (addr \<Rightarrow> kcall set) \<Rightarrow> bool" where
  "locks_api L api \<longleftrightarrow> (\<forall>t. \<forall>op \<in> api t. lock_call L op \<and> (\<forall>a. op = Sema_up a \<longrightarrow> a \<notin> lock_sema ` L))"

lemma kstep_lock_inv:
  assumes inv: "kinv owner s" and lk: "lock_inv L s" and api: "api_ok owner api" "locks_api L api" and "kstep api s e s'"
  shows "lock_inv L s'"
  using assms(5)
proof cases
  case (run op rest k s'')
  then show ?thesis using exec_lock_inv[OF inv lk] by simp
next
  case (call op)
  have op: "public_call op" "lock_call L op" "\<forall>a. op = Sema_up a \<longrightarrow> a \<notin> lock_sema ` L"
    using call api by (auto simp: api_ok_def locks_api_def)
  have "tokens l [op] = 0" if "l \<in> L" for l using op that by (cases op) auto
  moreover have "retest_ok L [op]" using op(1) by (cases op) (auto intro: retest_ok_other)
  ultimately show ?thesis using call op
    by (simp, intro lock_inv_step[OF inv lk]) (use lock_invD(4)[OF lk] in \<open>auto simp: held_def\<close>)
next
  case tick
  have "lock_call L Timer_intr" "retest_ok L (Timer_intr # conts s (running s))"
    by (simp_all add: lock_call_def retest_ok_def)
  then show ?thesis using tick
    by (simp, intro lock_inv_step[OF inv lk, where k = "Timer_intr # conts s (running s)"])
       (use lock_invD(3,4)[OF lk] in \<open>auto simp: held_def\<close>)
next
  case (wake t)
  then have "s' = unblocked t s" using thread_unblock_eq[OF kinvD(2)[OF inv], of t] by simp
  moreover have "lock_inv L (unblocked t s)"
    by (rule lock_inv_step[OF inv lk, where k = "conts s (running s)"]) (use lock_invD[OF lk] in \<open>auto simp: held_def unblocked_def\<close>)
  ultimately show ?thesis by simp
qed

lemma ksteps_lock_inv:
  "ksteps api s es s' \<Longrightarrow> kinv owner s \<Longrightarrow> lock_inv L s \<Longrightarrow> api_ok owner api \<Longrightarrow> locks_api L api \<Longrightarrow> lock_inv L s'"
  by (induction rule: ksteps.induct) (auto intro: kstep_lock_inv ksteps_kinv)

lemma lock_owner_unique:
  assumes inv: "kinv owner s" and lk: "lock_inv L s" and l: "l \<in> L" and t: "owns s l t" and u: "owns s l u"
  shows "t = u" and "val (semas s (lock_sema l)) = 0"
proof -
  have fin: "finite (dom (threads s))" using kinvD(2)[OF inv] by (simp add: env_ok_def)
  have nn: "threads s x \<noteq> None \<Longrightarrow> x \<noteq> NULL" for x using env_okD(1)[OF kinvD(2)[OF inv]] by auto
  note one = lock_invD(1)[OF lk l]
  have h: "threads s x \<noteq> None \<Longrightarrow> holder s l = x \<Longrightarrow> held s l = 1" for x using nn by (auto simp: held_def)
  have tok: "threads s x \<noteq> None \<Longrightarrow> tokens l (conts s x) \<le> total s l" for x using tokens_le_total[OF fin] .
  have two: "x \<noteq> y \<Longrightarrow> threads s x \<noteq> None \<Longrightarrow> threads s y \<noteq> None \<Longrightarrow> tokens l (conts s x) + tokens l (conts s y) \<le> total s l" for x y
    unfolding total_def using fin sum_mono2[of "dom (threads s)" "{x, y}" "\<lambda>t. tokens l (conts s t)"] by auto
  show "t = u"
    by (rule ccontr) (use t u one h[of t] h[of u] tok[of t] tok[of u] two[of t u] in \<open>auto simp: owns_def\<close>)
  show "val (semas s (lock_sema l)) = 0"
    using t one h[of t] tok[of t] by (auto simp: owns_def)
qed

section \<open>Ticks and sleeping threads\<close>

text \<open>
  What a step leaves on the ports of the interrupt controllers and in the tick counters, and the
  stacks of the threads. \<open>i\<close> is the number of timer interrupts that the step handles.
\<close>

definition counted :: "kstate \<Rightarrow> nat \<Rightarrow> kstate \<Rightarrow> bool" where
  "counted s i s' \<longleftrightarrow> port_out s' = replicate i (0x20, 0x20) @ port_out s \<and> timer_ticks s' = timer_ticks s + int i
     \<and> idle_ticks s' + kernel_ticks s' + user_ticks s' = idle_ticks s + kernel_ticks s + user_ticks s + int i \<and> conts s' = conts s"

lemma counted_parts [simp]:
  "counted s 0 (set_st t z r) = counted s 0 r" "counted s 0 (set_waiters a ws r) = counted s 0 r" "counted s 0 (set_val a v r) = counted s 0 r"
  "counted s 0 (switched r) = counted s 0 r" "counted s 0 (unblocked t r) = counted s 0 r" "counted s 0 s"
  "counted s 0 (r\<lparr>if_flag := b\<rparr>) = counted s 0 r" "counted s 0 (r\<lparr>ready_list := q\<rparr>) = counted s 0 r" "counted s 0 (r\<lparr>holder := h\<rparr>) = counted s 0 r"
  "counted s 0 (r\<lparr>cond_waiters := c\<rparr>) = counted s 0 r" "counted s 0 (r\<lparr>semas := m\<rparr>) = counted s 0 r"
  by (simp_all add: counted_def set_st_def set_waiters_def set_val_def switched_def unblocked_def Let_def)

lemma counted_switch [simp]:
  "counted s 0 (blocked r) = counted s 0 r" "counted s 0 (yielded r) = counted s 0 r" "counted s 0 (down_blocked a s)" "counted s 0 (upped a s)"
  by (simp_all add: blocked_def yielded_def down_blocked_def upped_def split: list.split)

lemma counted_ticked: "counted s 1 (ticked s)" "counted s 1 (yielded (ticked s))"
proof -
  have "port_out (switched r) = port_out r" "idle_ticks (switched r) = idle_ticks r" "kernel_ticks (switched r) = kernel_ticks r"
    "user_ticks (switched r) = user_ticks r" "timer_ticks (switched r) = timer_ticks r" "conts (switched r) = conts r" for r
    by (simp_all add: switched_def set_st_def Let_def)
  then show "counted s 1 (ticked s)" "counted s 1 (yielded (ticked s))"
    by (simp_all add: counted_def yielded_def ticked_def outb_def set_st_def Let_def)
qed

lemma exec_counted:
  assumes inv: "kinv owner s" and c: "conts s (running s) = op # rest" and e: "exec op s = Inr (k, s')"
  shows "counted s (intr_count op) s'"
proof -
  have ok: "\<not> misuse s op" using misuse_fails[OF inv, of op] e by auto
  have ext: "\<not> in_external_intr s" using kinvD(9)[OF inv] .
  show ?thesis
  proof (cases op)
    case (Kernel_thread f x)
    then show ?thesis using e ok ext
      by (auto simp: intr_count_def done_with_def enter_thread_def intr_enable_def intr_context_def)
  next
    case (Set_level l)
    then show ?thesis using e ext by (auto simp: intr_count_def set_level_back)
  next
    case Idle_loop
    then show ?thesis using e exec_idle_loop[OF inv] by (auto simp: intr_count_def simp del: exec.simps)
  next
    case Idle_wake
    then show ?thesis using e by (auto simp: intr_count_def idle_wake_def)
  next
    case (Sema_retest a l)
    then show ?thesis
      using e exec_sema_retest[OF inv run_off[OF inv c], of a l] by (auto simp: intr_count_def split: if_splits)
  next
    case (Cond_signal d l)
    then show ?thesis using e ok exec_cond_signal[OF inv, of d l] by (auto simp: intr_count_def split: list.splits)
  next
    case Timer_intr
    then show ?thesis
      using e exec_timer_intr[OF inv run_off[OF inv c]] counted_ticked[of s] by (auto simp: intr_count_def split: if_splits)
  next
    case (Timer_sleep n)
    then show ?thesis using e ok by (auto simp: intr_count_def timer_sleep_def level_flag Let_def)
  next
    case (Sleep_loop b n)
    then show ?thesis using e by (auto simp: intr_count_def sleep_loop_def)
  qed (use e ok exec_calls[OF inv] exec_cond_broadcast[of s] in \<open>auto simp: intr_count_def done_with_def split: if_splits\<close>)
qed

text \<open>The clocks of a trace.\<close>

definition clocks :: "kstate \<Rightarrow> (nat \<times> byte) list \<times> int \<times> int" where
  "clocks s = (port_out s, timer_ticks s, idle_ticks s + kernel_ticks s + user_ticks s)"

definition advance :: "nat \<Rightarrow> (nat \<times> byte) list \<times> int \<times> int \<Rightarrow> (nat \<times> byte) list \<times> int \<times> int" where
  "advance i = (\<lambda>(p, t, u). (replicate i (0x20, 0x20) @ p, t + int i, u + int i))"

lemma clocks_conts [simp]: "clocks (set_conts t k s) = clocks s" "clocks (s\<lparr>if_flag := b\<rparr>) = clocks s"
  by (simp_all add: clocks_def set_conts_def)

lemma counted_clocks: "counted s i s' \<Longrightarrow> clocks s' = advance i (clocks s)"
  by (simp add: counted_def clocks_def advance_def)

lemma kstep_clocks:
  assumes inv: "kinv owner s" and "kstep api s e s'"
  shows "clocks s' = advance (intrs [e]) (clocks s)"
  using assms(2)
proof cases
  case (run op rest k s'')
  then show ?thesis
    using counted_clocks[OF exec_counted[OF inv run(3,4)]] by (simp add: intrs_def intr_count_def)
next
  case (wake t)
  then have "s' = unblocked t s" using thread_unblock_eq[OF kinvD(2)[OF inv], of t] by simp
  then show ?thesis using wake counted_clocks[of s 0 "unblocked t s"] by (simp add: intrs_def)
qed (simp_all add: intrs_def advance_def split: prod.split)

lemma ksteps_clocks:
  assumes "ksteps api s es s'" and "kinv owner s" and "api_ok owner api"
  shows "clocks s' = advance (intrs es) (clocks s)"
  using assms
proof (induction rule: ksteps.induct)
  case (start s)
  then show ?case by (simp add: intrs_def advance_def split: prod.split)
next
  case (more s es s' e s'')
  then have "clocks s'' = advance (intrs [e]) (advance (intrs es) (clocks s))"
    using kstep_clocks[OF ksteps_kinv[OF more.hyps(1) more.prems] more.hyps(2)] by simp
  then show ?case by (simp add: advance_def intrs_def replicate_add[symmetric] split: prod.splits)
qed

text \<open>The stack of a thread that does not run stays as it is.\<close>

lemma kstep_conts:
  assumes inv: "kinv owner s" and "kstep api s e s'" and t: "t \<noteq> running s"
  shows "conts s' t = conts s t"
  using assms(2)
proof cases
  case (run op rest k s'')
  then show ?thesis using exec_counted[OF inv run(3,4)] t by (simp add: counted_def)
next
  case (wake u)
  then have "s' = unblocked u s" using thread_unblock_eq[OF kinvD(2)[OF inv], of u] by simp
  then show ?thesis by simp
qed (use t in simp_all)

text \<open>A call of \<open>timer_sleep\<close> that has not returned.\<close>

definition sleeping :: "kstate \<Rightarrow> addr \<Rightarrow> int \<Rightarrow> int \<Rightarrow> kcall list \<Rightarrow> bool" where
  "sleeping s t b n rest \<longleftrightarrow> (\<exists>ks. conts s t = ks @ Sleep_loop b n # rest)"

lemma sleepingI: "conts s t = ks @ Sleep_loop b n # rest \<Longrightarrow> sleeping s t b n rest"
  unfolding sleeping_def by blast

lemma run_sleep_loop:
  assumes "kstep api s (Run (Sleep_loop b n)) s'" and c: "conts s (running s) = Sleep_loop b n # rest"
  shows "s' = set_conts (running s) ((if timer_ticks s < b + n then [Yield, Sleep_loop b n] else []) @ rest) s"
  using assms(1)
proof cases
  case (run r k s'')
  then show ?thesis using c by (auto simp: timer_elapsed_def sleep_loop_def)
qed

lemma kstep_sleeping:
  assumes inv: "kinv owner s" and step: "kstep api s e s'" and sl: "sleeping s t b n rest" and now: "timer_ticks s < b + n"
  shows "sleeping s' t b n rest"
proof (cases "t = running s")
  case False
  then show ?thesis using kstep_conts[OF inv step False] sl by (simp add: sleeping_def)
next
  case True
  obtain ks where ks: "conts s t = ks @ Sleep_loop b n # rest" using sl by (auto simp: sleeping_def)
  show ?thesis using step
  proof cases
    case (run op r k s'')
    show ?thesis
    proof (cases ks)
      case Nil
      then have "kstep api s (Run (Sleep_loop b n)) s'" "conts s (running s) = Sleep_loop b n # rest" using step run ks True by auto
      from run_sleep_loop[OF this] show ?thesis using now True by (intro sleepingI[of _ _ "[Yield]"]) simp
    next
      case (Cons x xs)
      then show ?thesis using run ks True by (intro sleepingI[of _ _ "k @ xs"]) auto
    qed
  next
    case (call op)
    then show ?thesis using ks True by simp
  next
    case tick
    then show ?thesis using ks True by (intro sleepingI[of _ _ "Timer_intr # ks"]) simp
  next
    case (wake u)
    then have "s' = unblocked u s" using thread_unblock_eq[OF kinvD(2)[OF inv], of u] by simp
    then show ?thesis using sl by (simp add: sleeping_def)
  qed
qed

lemma ksteps_sleeping:
  assumes "ksteps api s es s'" and "kinv owner s" and "api_ok owner api" and "sleeping s t b n rest" and "timer_ticks s' < b + n"
  shows "sleeping s' t b n rest"
  using assms
proof (induction rule: ksteps.induct)
  case (more s es s' e s'')
  have inv: "kinv owner s'" using ksteps_kinv[OF more.hyps(1) more.prems(1,2)] .
  have "timer_ticks s' \<le> timer_ticks s''"
    using kstep_clocks[OF inv more.hyps(2)] by (simp add: clocks_def advance_def)
  then have now: "timer_ticks s' < b + n" using more.prems(4) by simp
  then show ?case using kstep_sleeping[OF inv more.hyps(2) more.IH[OF more.prems(1-3)]] by simp
qed

section \<open>Example state\<close>

text \<open>
  Three threads: the first runs, near the end of its time slice, the second is ready, and the
  third is the idle thread.
\<close>

definition ex_thread :: "thread_status \<Rightarrow> thread" where
  "ex_thread z = \<lparr>tid = 1, status = z, name = [], stack = NULL, priority = 31, exit_status = 0, child_list = [],
     pagedir = NULL, load_succeeded = False, next_fd = 2, fd_table = NULL, thread_magic = THREAD_MAGIC\<rparr>"

definition ex_k :: kstate where
  "ex_k = \<lparr>if_flag = True, idt = replicate 256 0, idtr = 0, intr_handlers = replicate 256 1,
     intr_names = replicate 256 [], unexpected_cnt = replicate 256 0, in_external_intr = False,
     yield_on_return = False, port_out = [],
     threads = [0xc0100000 \<mapsto> ex_thread THREAD_RUNNING, 0xc0101000 \<mapsto> ex_thread THREAD_READY, 0xc0102000 \<mapsto> ex_thread THREAD_BLOCKED],
     running = 0xc0100000, conts = (\<lambda>_. [])(0xc0102000 := [Idle_wake]), ready_list = [0xc0101000],
     all_list = [0xc0100000, 0xc0101000, 0xc0102000], idle_thread = 0xc0102000, initial_thread = 0xc0100000, tid_lock = False,
     next_tid = 4, thread_ticks = 3, idle_ticks = 0, kernel_ticks = 0, user_ticks = 0, timer_ticks = 3,
     semas = (\<lambda>_. \<lparr>val = 1, waiters = []\<rparr>), holder = (\<lambda>_. NULL), cond_waiters = (\<lambda>_. []),
     cr3 = 0, esp0 = 0, init_page_dir = 0xc0300000, pal = ex_state FIRST_FIT 0 0\<rparr>"

definition ex_api :: "addr \<Rightarrow> kcall set" where
  "ex_api t = {Yield, Lock_acquire 0xc0200000, Lock_release 0xc0200000, Sema_down 0xc0201000, Sema_up 0xc0201000}"

lemma ex_st: "st ex_k t = (if t = 0xc0100000 then Some THREAD_RUNNING else if t = 0xc0101000 then Some THREAD_READY
    else if t = 0xc0102000 then Some THREAD_BLOCKED else None)"
  by (simp add: st_def ex_k_def ex_thread_def)

lemma ex_env: "env_ok ex_k"
  by (auto simp: env_ok_def ex_k_def ex_thread_def INTR_CNT_def is_kernel_vaddr_def PHYS_BASE_def NULL_def split: if_splits)

lemma ex_kinv: "kinv (\<lambda>_. None) ex_k"
proof -
  have "queue_ok ex_k" unfolding queue_ok_def ex_st by (auto simp: ex_k_def split: if_splits)
  moreover have "wait_ok ex_k" unfolding wait_ok_def ex_st by (auto simp: ex_k_def wants_def split: if_splits)
  moreover have "wake_ok ex_k" "stack_ok (\<lambda>_. None) ex_k"
    by (auto simp: wake_ok_def stack_ok_def top_off_def idle_stack_def ex_k_def)
  ultimately show ?thesis using ex_env by (simp add: kinv_def sched_ok_def ex_st TIME_SLICE_def) (simp add: ex_k_def)
qed

text \<open>The first thread holds the lock.\<close>

definition ex_held :: kstate where
  "ex_held = ex_k\<lparr>holder := (\<lambda>_. NULL)(0xc0200000 := 0xc0100000), semas := (\<lambda>_. \<lparr>val = 0, waiters = []\<rparr>)\<rparr>"

lemma ex_held_kinv: "kinv (\<lambda>_. None) ex_held"
proof -
  have "sched_ok ex_held" using sched_ok_cong[of ex_held ex_k] kinvD(1)[OF ex_kinv] by (simp add: ex_held_def)
  moreover have st: "st ex_held = st ex_k" by (simp add: ex_held_def st_def fun_eq_iff)
  have "wait_ok ex_held" unfolding wait_ok_def st ex_st by (auto simp: ex_held_def ex_k_def wants_def split: if_splits)
  moreover have "wake_ok ex_held" by (simp add: wake_ok_def ex_held_def)
  moreover have "stack_ok (\<lambda>_. None) ex_held" "thread_ticks ex_held < TIME_SLICE"
    using kinvD(5,8)[OF ex_kinv] by (simp_all add: stack_ok_def ex_held_def)
  ultimately show ?thesis by (simp add: kinv_def)
qed

text \<open>A fourth thread waits for a semaphore; the second has just been woken for it and has not run yet.\<close>

definition ex_wait :: kstate where
  "ex_wait = ex_k\<lparr>threads := [0xc0100000 \<mapsto> ex_thread THREAD_RUNNING, 0xc0101000 \<mapsto> ex_thread THREAD_READY,
       0xc0102000 \<mapsto> ex_thread THREAD_BLOCKED, 0xc0103000 \<mapsto> ex_thread THREAD_BLOCKED],
     conts := (\<lambda>_. [])(0xc0101000 := [Sema_retest 0xc0201000 INTR_ON], 0xc0102000 := [Idle_wake], 0xc0103000 := [Sema_retest 0xc0201000 INTR_ON]),
     semas := (\<lambda>_. \<lparr>val = 1, waiters = []\<rparr>)(0xc0201000 := \<lparr>val = 1, waiters = [0xc0103000]\<rparr>)\<rparr>"

lemma ex_wait_st: "st ex_wait t = (if t = 0xc0100000 then Some THREAD_RUNNING else if t = 0xc0101000 then Some THREAD_READY
    else if t = 0xc0102000 \<or> t = 0xc0103000 then Some THREAD_BLOCKED else None)"
  by (simp add: st_def ex_wait_def ex_thread_def)

lemma ex_wait_wants: "wants ex_wait t = (if t = 0xc0101000 \<or> t = 0xc0103000 then Some 0xc0201000 else None)"
  by (simp add: wants_def ex_wait_def)

lemma ex_wait_kinv: "kinv (\<lambda>_. None) ex_wait"
proof -
  have env: "env_ok ex_wait"
    by (auto simp: env_ok_def ex_wait_def ex_k_def ex_thread_def INTR_CNT_def is_kernel_vaddr_def PHYS_BASE_def NULL_def split: if_splits)
  have "queue_ok ex_wait" unfolding queue_ok_def ex_wait_st by (auto simp: ex_wait_def ex_k_def split: if_splits)
  moreover have "wait_ok ex_wait" unfolding wait_ok_def ex_wait_st ex_wait_wants
    by (intro conjI allI ballI impI) (auto simp: ex_wait_def ex_k_def split: if_splits)
  moreover have "{t. awake ex_wait t \<and> wants ex_wait t = Some 0xc0201000} = {0xc0101000}"
    by (auto simp: awake_def ex_wait_st ex_wait_wants)
  then have "wake_ok ex_wait" by (auto simp: wake_ok_def) (simp add: ex_wait_def split: if_splits)
  moreover have "stack_ok (\<lambda>_. None) ex_wait"
    by (auto simp: stack_ok_def top_off_def idle_stack_def ex_wait_def ex_k_def)
  ultimately show ?thesis using env by (simp add: kinv_def sched_ok_def ex_wait_st TIME_SLICE_def) (simp add: ex_wait_def ex_k_def)
qed

lemma ex_api_ok: "api_ok (\<lambda>_. None) ex_api" and ex_locks_api: "locks_api {0xc0200000} ex_api"
  by (auto simp: api_ok_def ex_api_def locks_api_def lock_call_def lock_sema_def)

lemma ex_held_lock_inv: "lock_inv {0xc0200000} ex_held"
proof -
  have "tokens 0xc0200000 (conts ex_held t) = 0" for t by (simp add: ex_held_def ex_k_def)
  then have "total ex_held 0xc0200000 = 0" by (simp add: total_def)
  then show ?thesis
    by (auto simp: lock_inv_def held_def retest_ok_def lock_call_def) (simp_all add: ex_held_def ex_k_def NULL_def split: if_splits)
qed

lemma ex_steps: "\<exists>s. ksteps ex_api ex_k [Tick, Run Timer_intr] s"
proof -
  define s1 where "s1 = set_conts (running ex_k) (Timer_intr # conts ex_k (running ex_k)) (ex_k\<lparr>if_flag := False\<rparr>)"
  have "if_flag ex_k" by (simp add: ex_k_def)
  then have t: "kstep ex_api ex_k Tick s1" unfolding s1_def by (rule kstep.tick)
  have inv: "kinv (\<lambda>_. None) s1" using kstep_kinv[OF ex_kinv ex_api_ok t] .
  have c: "conts s1 (running s1) = Timer_intr # conts ex_k (running ex_k)" by (simp add: s1_def)
  obtain k s' where "exec Timer_intr s1 = Inr (k, s')"
    using exec_ok[OF inv c] by (auto simp: runs_ok_def)
  then have "\<exists>s. kstep ex_api s1 (Run Timer_intr) s" using kstep.run[OF c] by blast
  then show ?thesis using ksteps.more[OF ksteps.more[OF ksteps.start t]] by auto
qed

section \<open>Properties\<close>

text \<open>
  C2. Scheduler invariant. Take a state with the invariant \<open>kinv\<close>, and any number of steps in which
  its threads yield, sleep, block, use semaphores, locks and conditions or set the interrupt level,
  are interrupted by the timer, and are woken from outside when they block outside the semaphores.
  In the state reached exactly the running thread has the status \<open>THREAD_RUNNING\<close>; the run queue
  holds each ready thread but the idle one exactly once and no other; and the wait list of a
  semaphore holds, once each, the threads that are blocked in its \<open>sema_down\<close> and no other, so
  that no thread is on two wait lists. No thread is created or exits in these steps.
\<close>

theorem scheduler_invariant:
  assumes "kinv owner s" and "api_ok owner api" and "ksteps api s es s'"
  shows "{t. st s' t = Some THREAD_RUNNING} = {running s'}
    \<and> distinct (ready_list s') \<and> set (ready_list s') = {t. st s' t = Some THREAD_READY} - {idle_thread s'}
    \<and> (\<forall>a. distinct (waiters (semas s' a)) \<and> set (waiters (semas s' a)) = {t. st s' t = Some THREAD_BLOCKED \<and> wants s' t = Some a})"
proof -
  have inv: "kinv owner s'" using ksteps_kinv[OF assms(3,1,2)] .
  note Q = queue_okD[OF kinvD(3)[OF inv]] and W = wait_okD[OF kinvD(6)[OF inv]]
  have "{t. st s' t = Some THREAD_RUNNING} = {running s'}" using Q(6) kinvD(4)[OF inv] by blast
  moreover have "set (ready_list s') = {t. st s' t = Some THREAD_READY} - {idle_thread s'}" using Q(2-4) by blast
  moreover have "set (waiters (semas s' a)) = {t. st s' t = Some THREAD_BLOCKED \<and> wants s' t = Some a}" for a
    using W(2,4,5) by blast
  ultimately show ?thesis using Q(1) W(1) by (intro conjI allI)
qed

theorem scheduler_invariant_witness:
  "\<exists>s. ksteps ex_api ex_k [Tick, Run Timer_intr] s \<and> {t. st s t = Some THREAD_RUNNING} = {running s} \<and> distinct (ready_list s)"
proof -
  obtain s where s: "ksteps ex_api ex_k [Tick, Run Timer_intr] s" using ex_steps by blast
  then show ?thesis using scheduler_invariant[OF ex_kinv ex_api_ok s] by (intro exI[of _ s] conjI) simp_all
qed

text \<open>
  C6. No unexpected fault. In every state so reached, the next step of the running thread does not
  fault, a step being the part of its call up to the next thread switch or point where another call
  starts. The exceptions are the calls of \<open>misuse\<close>: one with a null pointer, an acquisition of a
  lock that the thread holds, a release of or a wait or signal with a lock that it does not hold,
  and \<open>timer_sleep\<close> with interrupts off. These end with a failed assertion.
\<close>

theorem steps_never_fault:
  assumes "kinv owner s" and "api_ok owner api" and "ksteps api s es s'" and "conts s' (running s') = op # rest"
  shows "if misuse s' op then exec op s' = Inl Assert_fail else \<exists>k s''. exec op s' = Inr (k, s'')"
  using exec_ok[OF ksteps_kinv[OF assms(3,1,2)] assms(4)] misuse_fails[OF ksteps_kinv[OF assms(3,1,2)], of op]
  by (auto simp: runs_ok_def)

theorem steps_never_fault_witness:
  "\<exists>k s'. exec Timer_intr (set_conts (running ex_k) [Timer_intr] (ex_k\<lparr>if_flag := False\<rparr>)) = Inr (k, s')"
proof -
  have "if_flag ex_k" and e: "conts ex_k (running ex_k) = []" by (simp_all add: ex_k_def)
  then have "kstep ex_api ex_k Tick (set_conts (running ex_k) [Timer_intr] (ex_k\<lparr>if_flag := False\<rparr>))"
    using kstep.tick[of ex_k ex_api] by simp
  then have "ksteps ex_api ex_k [Tick] (set_conts (running ex_k) [Timer_intr] (ex_k\<lparr>if_flag := False\<rparr>))"
    using ksteps.more[OF ksteps.start] by fastforce
  then show ?thesis using steps_never_fault[OF ex_kinv ex_api_ok, of "[Tick]" _ Timer_intr "[]"] by simp
qed

text \<open>
  C5. No wakeup is lost. In every state that the kernel reaches, while threads wait for a
  semaphore its value is at most the number of threads that have been woken and have yet to test
  the value again. So a positive value never leaves all the waiters asleep.
\<close>

theorem no_lost_wakeup:
  assumes "kinv owner s" and "api_ok owner api" and "ksteps api s es s'" and "waiters (semas s' a) \<noteq> []"
  shows "val (semas s' a) \<le> card {t. awake s' t \<and> wants s' t = Some a}
    \<and> (val (semas s' a) > 0 \<longrightarrow> (\<exists>t l rest. awake s' t \<and> conts s' t = Sema_retest a l # rest))"
proof -
  have le: "val (semas s' a) \<le> card {t. awake s' t \<and> wants s' t = Some a}"
    using kinvD(7)[OF ksteps_kinv[OF assms(3,1,2)]] assms(4) by (simp add: wake_ok_def)
  have "\<exists>t l rest. awake s' t \<and> conts s' t = Sema_retest a l # rest" if "val (semas s' a) > 0"
  proof -
    have "{t. awake s' t \<and> wants s' t = Some a} \<noteq> {}" using le that by (auto simp: card_gt_0_iff dest: order.strict_trans2)
    then obtain t where "awake s' t" "wants s' t = Some a" by blast
    then show ?thesis by (cases "conts s' t" rule: top_wants.cases) (auto simp: wants_top)
  qed
  then show ?thesis using le by blast
qed

theorem no_lost_wakeup_witness:
  "\<exists>t l rest. awake ex_wait t \<and> conts ex_wait t = Sema_retest 0xc0201000 l # rest"
proof -
  have "waiters (semas ex_wait 0xc0201000) \<noteq> []" "val (semas ex_wait 0xc0201000) > 0" by (simp_all add: ex_wait_def)
  then show ?thesis using no_lost_wakeup[OF ex_wait_kinv ex_api_ok ksteps.start, of "0xc0201000"] by blast
qed

text \<open>
  C3. Mutual exclusion. In every state that the kernel reaches, at most one thread owns a lock,
  from the end of its wait in \<open>lock_acquire\<close> to the \<open>sema_up\<close> of its \<open>lock_release\<close>, whatever
  interrupts and thread switches come in between; and while a thread owns the lock, the value
  of the lock's semaphore is zero.
\<close>

theorem lock_mutual_exclusion:
  assumes "kinv owner s" and "lock_inv L s" and "api_ok owner api" and "locks_api L api" and "ksteps api s es s'"
    and "l \<in> L" and "owns s' l t" and "owns s' l u"
  shows "t = u \<and> val (semas s' (lock_sema l)) = 0"
  using lock_owner_unique[OF ksteps_kinv[OF assms(5,1,3)] ksteps_lock_inv[OF assms(5,1,2,3,4)] assms(6-8)] by simp

theorem lock_mutual_exclusion_witness:
  "\<exists>s. ksteps ex_api ex_held [Tick] s \<and> owns s 0xc0200000 0xc0100000
    \<and> (\<forall>u. owns s 0xc0200000 u \<longrightarrow> u = 0xc0100000)"
proof -
  let ?s = "set_conts (running ex_held) (Timer_intr # conts ex_held (running ex_held)) (ex_held\<lparr>if_flag := False\<rparr>)"
  have "kstep ex_api ex_held Tick ?s" by (rule kstep.tick) (simp add: ex_held_def ex_k_def)
  then have steps: "ksteps ex_api ex_held [Tick] ?s" using ksteps.more[OF ksteps.start] by fastforce
  have own: "owns ?s 0xc0200000 0xc0100000" by (simp add: owns_def) (simp add: ex_held_def ex_k_def)
  have "u = 0xc0100000" if "owns ?s 0xc0200000 u" for u
    using lock_mutual_exclusion[OF ex_held_kinv ex_held_lock_inv ex_api_ok ex_locks_api steps _ that own] by simp
  then show ?thesis using steps own by blast
qed

text \<open>
  C4. Liveness. A thread at place \<open>k\<close> of the run queue runs before \<open>TIME_SLICE * (k + 1)\<close>
  timer interrupts have been handled, counted from the start of the current time slice, whatever
  calls the threads make in between.
\<close>

theorem ready_thread_runs:
  assumes "kinv owner s" and "api_ok owner api" and "ksteps api s es s'" and "k < length (ready_list s)"
    and "TIME_SLICE * (k + 1) \<le> thread_ticks s + intrs es"
  shows "\<exists>es1 es2 s1. es = es1 @ es2 \<and> ksteps api s es1 s1 \<and> ksteps api s1 es2 s' \<and> running s1 = ready_list s ! k"
proof -
  have "thread_ticks s' < TIME_SLICE" using kinvD(5)[OF ksteps_kinv[OF assms(3,1,2)]] .
  then show ?thesis using ksteps_served[OF assms(3,1,2,4) refl] assms(5) by (auto simp: algebra_simps)
qed

theorem ready_thread_runs_witness:
  "\<exists>s es1 es2 s1. [Tick, Run Timer_intr] = es1 @ es2 \<and> ksteps ex_api ex_k es1 s1 \<and> ksteps ex_api s1 es2 s \<and> running s1 = 0xc0101000"
proof -
  obtain s where s: "ksteps ex_api ex_k [Tick, Run Timer_intr] s" using ex_steps by blast
  have "ready_list ex_k = [0xc0101000]" "thread_ticks ex_k = 3" by (simp_all add: ex_k_def)
  then show ?thesis
    using ready_thread_runs[OF ex_kinv ex_api_ok s, of 0] by (auto simp: intrs_def TIME_SLICE_def)
qed

text \<open>
  C25. Every timer interrupt that the kernel handles in such a run is acknowledged exactly once, with
  the end-of-interrupt command on the port of the master controller, and counted exactly once, in
  the tick counter and in one of the counters of idle, kernel and user ticks. This holds whether or
  not the handler ends with a thread switch, and no other step sends a command or counts a tick.
  Between the steps the kernel is never in interrupt context.
\<close>

theorem timer_interrupts_counted:
  assumes "kinv owner s" and "api_ok owner api" and "ksteps api s es s'"
  shows "port_out s' = replicate (intrs es) (0x20, 0x20) @ port_out s \<and> timer_ticks s' = timer_ticks s + int (intrs es)
    \<and> idle_ticks s' + kernel_ticks s' + user_ticks s' = idle_ticks s + kernel_ticks s + user_ticks s + int (intrs es)
    \<and> \<not> intr_context s'"
  using ksteps_clocks[OF assms(3,1,2)] kinvD(9)[OF ksteps_kinv[OF assms(3,1,2)]]
  by (simp add: clocks_def advance_def intr_context_def)

theorem timer_interrupts_counted_witness:
  "\<exists>s. ksteps ex_api ex_k [Tick, Run Timer_intr] s \<and> port_out s = [(0x20, 0x20)] \<and> timer_ticks s = 4"
proof -
  obtain s where s: "ksteps ex_api ex_k [Tick, Run Timer_intr] s" using ex_steps by blast
  then show ?thesis
    using timer_interrupts_counted[OF ex_kinv ex_api_ok s] by (intro exI[of _ s]) (simp add: intrs_def ex_k_def)
qed

text \<open>
  C26. Sleeping. A thread calls \<open>timer_sleep (n)\<close>, and any number of steps follow. As long as fewer than
  \<open>n\<close> ticks have been counted since the call, the call has not returned: its loop is still on the
  stack of the thread. When the thread comes to the test of the loop before that, it calls
  \<open>thread_yield\<close> and then tests again; when it comes to the test after \<open>n\<close> or more ticks, the call
  returns.
\<close>

theorem timer_sleep_waits:
  assumes "kinv owner s" and "api_ok owner api" and "conts s t = Timer_sleep n # rest" and "t = running s"
    and "kstep api s (Run (Timer_sleep n)) s1" and "ksteps api s1 es s'" and "b = timer_ticks s"
  shows "(timer_ticks s' < b + n \<longrightarrow> (\<exists>ks. conts s' t = ks @ Sleep_loop b n # rest))
    \<and> (running s' = t \<and> conts s' t = Sleep_loop b n # rest \<longrightarrow>
         (\<exists>s2. kstep api s' (Run (Sleep_loop b n)) s2 \<and> running s2 = t
            \<and> conts s2 t = (if timer_ticks s' < b + n then [Yield, Sleep_loop b n] else []) @ rest))"
proof (intro conjI impI)
  have inv1: "kinv owner s1" using kstep_kinv[OF assms(1,2,5)] .
  show "\<exists>ks. conts s' t = ks @ Sleep_loop b n # rest" if now: "timer_ticks s' < b + n"
  proof -
    have "sleeping s1 t b n rest" using assms(5)
    proof cases
      case (run r k s'')
      then show ?thesis using assms(3,4,7) by (intro sleepingI[of _ _ "[]"]) (cases "if_flag s"; auto simp: timer_sleep_def level_flag)
    qed
    then show ?thesis using ksteps_sleeping[OF assms(6) inv1 assms(2) _ now] by (simp add: sleeping_def)
  qed
  assume a: "running s' = t \<and> conts s' t = Sleep_loop b n # rest"
  then have c: "conts s' (running s') = Sleep_loop b n # rest" by simp
  obtain s2 where s2: "kstep api s' (Run (Sleep_loop b n)) s2" using kstep.run[OF c] by (auto simp: sleep_loop_def)
  then show "\<exists>s2. kstep api s' (Run (Sleep_loop b n)) s2 \<and> running s2 = t
      \<and> conts s2 t = (if timer_ticks s' < b + n then [Yield, Sleep_loop b n] else []) @ rest"
    using run_sleep_loop[OF s2 c] a by (intro exI[of _ s2]) simp
qed

lemma ex_sleep: "kinv (\<lambda>_. None) (set_conts 0xc0100000 [Timer_sleep 10] ex_k)"
  "\<exists>s1. kstep ex_api (set_conts 0xc0100000 [Timer_sleep 10] ex_k) (Run (Timer_sleep 10)) s1"
proof -
  let ?s = "set_conts 0xc0100000 [Timer_sleep 10] ex_k"
  have r: "running ex_k = 0xc0100000" "conts ex_k 0xc0100000 = []" "if_flag ex_k" by (simp_all add: ex_k_def)
  show k: "kinv (\<lambda>_. None) ?s" using kinv_call[OF ex_kinv, of "Timer_sleep 10"] r by simp
  have c: "conts ?s (running ?s) = Timer_sleep 10 # []" using r by simp
  obtain k' s' where "exec (Timer_sleep 10) ?s = Inr (k', s')" using exec_ok[OF k c] r(3) by (auto simp: runs_ok_def)
  then show "\<exists>s1. kstep ex_api ?s (Run (Timer_sleep 10)) s1" using kstep.run[OF c] by blast
qed

theorem timer_sleep_waits_witness:
  "\<exists>s1. kstep ex_api (set_conts 0xc0100000 [Timer_sleep 10] ex_k) (Run (Timer_sleep 10)) s1
    \<and> (\<exists>ks. conts s1 0xc0100000 = ks @ [Sleep_loop 3 10])"
proof -
  obtain s1 where s1: "kstep ex_api (set_conts 0xc0100000 [Timer_sleep 10] ex_k) (Run (Timer_sleep 10)) s1" using ex_sleep(2) by blast
  have "conts (set_conts 0xc0100000 [Timer_sleep 10] ex_k) 0xc0100000 = Timer_sleep 10 # []"
    "0xc0100000 = running (set_conts 0xc0100000 [Timer_sleep 10] ex_k)" "3 = timer_ticks (set_conts 0xc0100000 [Timer_sleep 10] ex_k)"
    by (simp_all add: ex_k_def)
  from timer_sleep_waits[OF ex_sleep(1) ex_api_ok this(1,2) s1 ksteps.start this(3)]
  have "timer_ticks s1 < 3 + 10 \<longrightarrow> (\<exists>ks. conts s1 0xc0100000 = ks @ [Sleep_loop 3 10])" by (rule conjunct1)
  moreover have "timer_ticks s1 = 3"
    using kstep_clocks[OF ex_sleep(1) s1] by (simp add: clocks_def advance_def intrs_def) (simp add: ex_k_def)
  ultimately show ?thesis using s1 by auto
qed

end
