(* ===== verification/Timer.thy ===== *)
theory Timer
  imports Scheduling "HOL-Library.Signed_Division"
begin

text \<open>
  The delays and sleeps of \<open>src/devices/timer.c\<close> that are given in units of real time, and the
  start of the scheduler.
\<close>

section \<open>Delays\<close>

text \<open>Divisions on signed integers truncate, as in C.\<close>

definition TIMER_FREQ :: int where "TIMER_FREQ = 100"

text \<open>The loop counts down to zero; the result is the number of iterations.\<close>

function busy_wait :: "int \<Rightarrow> nat" where
  "busy_wait loops = (if loops > 0 then Suc (busy_wait (loops - 1)) else 0)"
  by pat_completeness auto
termination by (relation "measure nat") auto

declare busy_wait.simps [simp del]

definition real_time_delay :: "int \<Rightarrow> int \<Rightarrow> int \<Rightarrow> nat result" where
  "real_time_delay loops_per_tick num denom =
     rbind (rassert (denom smod 1000 = 0)) (\<lambda>_.
     if denom sdiv 1000 = 0 then Inl Div_fault
     else Inr (busy_wait ((loops_per_tick * num) sdiv 1000 * TIMER_FREQ sdiv (denom sdiv 1000))))"

definition real_time_sleep :: "int \<Rightarrow> int \<Rightarrow> int \<Rightarrow> kstate \<Rightarrow> progress" where
  "real_time_sleep loops_per_tick num denom s =
    (if denom = 0 then Inl Div_fault
     else
       let n = (num * TIMER_FREQ) sdiv denom in
       rbind (rassert (intr_get_level s = INTR_ON)) (\<lambda>_.
       if n > 0 then timer_sleep n s
       else rbind (real_time_delay loops_per_tick num denom) (\<lambda>_. Inr ([], s))))"

definition timer_msleep :: "int \<Rightarrow> int \<Rightarrow> kstate \<Rightarrow> progress" where
  "timer_msleep loops_per_tick ms s = real_time_sleep loops_per_tick ms 1000 s"

definition timer_usleep :: "int \<Rightarrow> int \<Rightarrow> kstate \<Rightarrow> progress" where
  "timer_usleep loops_per_tick us s = real_time_sleep loops_per_tick us (1000 * 1000) s"

definition timer_nsleep :: "int \<Rightarrow> int \<Rightarrow> kstate \<Rightarrow> progress" where
  "timer_nsleep loops_per_tick ns s = real_time_sleep loops_per_tick ns (1000 * 1000 * 1000) s"

definition timer_mdelay :: "int \<Rightarrow> int \<Rightarrow> nat result" where
  "timer_mdelay loops_per_tick ms = real_time_delay loops_per_tick ms 1000"

definition timer_udelay :: "int \<Rightarrow> int \<Rightarrow> nat result" where
  "timer_udelay loops_per_tick us = real_time_delay loops_per_tick us (1000 * 1000)"

definition timer_ndelay :: "int \<Rightarrow> int \<Rightarrow> nat result" where
  "timer_ndelay loops_per_tick ns = real_time_delay loops_per_tick ns (1000 * 1000 * 1000)"

section \<open>Starting the scheduler\<close>

text \<open>
  The first part of \<open>idle\<close>, before its loop, and \<open>thread_start\<close>. \<open>idle\<close> stands for the address of
  the function and \<open>idle_started\<close> for that of the semaphore in the caller's frame.
\<close>

definition idle_enter :: "addr \<Rightarrow> kstate \<Rightarrow> progress" where
  "idle_enter idle_started s =
     rbind (thread_current s) (\<lambda>cur.
     rbind (sema_up idle_started (s\<lparr>idle_thread := cur\<rparr>)) (\<lambda>s. Inr ([Idle_loop], s)))"

definition thread_start :: "addr \<Rightarrow> addr \<Rightarrow> addr \<Rightarrow> addr \<Rightarrow> kstate \<Rightarrow> progress option" where
  "thread_start kernel_thread switch_entry idle idle_started s =
     obind (Some (sema_init idle_started 0 s)) (\<lambda>s.
     obind (thread_create kernel_thread switch_entry (map of_nat [105, 100, 108, 101]) PRI_MIN idle idle_started s) (\<lambda>(_, s).
     obind (Some (intr_enable s)) (\<lambda>(_, s).
     Some (sema_down idle_started s))))"

end
