(* ===== verification/Spec2Isabelle.thy ===== *)
theory Spec2Isabelle
  imports Malloc_Safety Stdlib Arithmetic Timer
begin

text \<open>
  A verification development for the kernel of the BTSM fork of Pintos, a small operating system
  for the 80x86 written in C.

  \<^bold>\<open>The program.\<close> The kernel boots one processor and runs kernel threads and user processes on it.
  Its parts, from the bottom up: the library under \<open>src/lib\<close> (strings, sorting, 64-bit division,
  kernel lists, bitmaps); memory management under \<open>src/threads\<close> (a page allocator over two
  pools, whose free pages are found in a bitmap by one of four policies, and a block allocator
  on top of it); interrupts, threads and synchronization under \<open>src/threads\<close>, driven by the timer of
  \<open>src/devices\<close>; and above these the file system, user processes and virtual memory.

  \<^bold>\<open>Conventions.\<close> A function of the source becomes a HOL function of the same name. Code that can fail
  returns a \<open>result\<close>, whose left side names the fault (a failed \<open>ASSERT\<close>, \<open>PANIC\<close>, \<open>NOT_REACHED\<close>, an access
  outside an object, a division by zero). Code that may run forever is a \<open>partial_function\<close> with
  results of type \<open>'a result option\<close>; not to return is \<open>None\<close>. Addresses are 32-bit words, bytes 8-bit words, memory is
  a function from addresses to bytes; \<open>size_t\<close> is a natural number with the operations \<open>sz_add\<close>, \<open>sz_sub\<close>,
  \<open>sz_mul\<close> that wrap at $2^{32}$. Structures are records.

  \<^bold>\<open>Theories.\<close>

  \<^item> \<open>Prelude\<close>: faults, sequencing of fallible code, loops with an early exit, sizes.
  \<^item> \<open>Bitmap\<close>, \<open>Bitmap_Scan\<close>: \<open>src/lib/kernel/bitmap.c\<close>. A bitmap represents a list of booleans, and each
    operation is shown to act on that list. The four scan policies are first fit, next fit,
    best fit and buddy; the locales \<open>scan_policy\<close> and \<open>complete_scan_policy\<close> state what the page allocator needs of
    one, and are interpreted for the first three. The buddy policy does not keep the contract,
    which is proved as well.
  \<^item> \<open>Vaddr\<close>: \<open>src/threads/vaddr.h\<close> and \<open>src/threads/pte.h\<close>; \<open>Memory\<close>, \<open>CString\<close>: \<open>src/lib/string.c\<close>.
  \<^item> \<open>Palloc\<close>: \<open>src/threads/palloc.c\<close>. Runs of the allocator are sequences of allocations and
    frees; blocks that are held never overlap, and freeing one never fails.
  \<^item> \<open>KList\<close>: \<open>src/lib/kernel/list.c\<close> on a heap of links. Every operation refines one on sequences; the locale
    \<open>less_order\<close> holds what sorting and ordered insertion need of the comparison.
  \<^item> \<open>Arithmetic\<close>: \<open>src/lib/arithmetic.c\<close>; \<open>Stdlib\<close>: \<open>src/lib/stdlib.c\<close> and \<open>src/lib/ctype.h\<close>, with the locale \<open>comparator\<close> for \<open>sort\<close> and \<open>bsearch\<close>.
  \<^item> \<open>Malloc\<close>: \<open>src/threads/malloc.c\<close>, over the locale \<open>page_source\<close>, which the page allocator provides.
    \<open>Malloc_Safety\<close>: runs of its clients, in which blocks never overlap and the calls return, over the
    locale \<open>total_page_source\<close>, whose interpretations are first fit and best fit.
  \<^item> \<open>Interrupt\<close>: \<open>src/threads/interrupt.c\<close>; the state is an extensible record.
  \<^item> \<open>Thread\<close>: \<open>src/threads/thread.c\<close>. \<open>Synch\<close>: \<open>src/threads/synch.c\<close> and the sleeping calls of
    \<open>src/devices/timer.c\<close>. Every thread has a stack of calls that it has yet to make; a call that
    switches threads leaves its second half there. \<open>kstep\<close> is the step relation of this
    machine, in which calls of the threads and timer interrupts interleave. The threads yield, sleep,
    use semaphores, locks and conditions, set the interrupt level, and block outside the semaphores, as the
    readers of device queues do; a step \<open>Wake\<close> stands for the part of the kernel that unblocks such a thread.
    The set of threads is fixed: \<open>thread_create\<close> and \<open>thread_exit\<close> are modelled as functions, and are not
    steps of the machine. The invariant \<open>kinv\<close>, from which every run starts, says what the lists of
    threads, the semaphores and the stacks have to do with each other.
  \<^item> \<open>Scheduling\<close>: what holds of the runs of that machine. \<open>Timer\<close>: the remaining functions
    of \<open>src/devices/timer.c\<close>, and the start of the scheduler.

  \<^bold>\<open>Bounds and fuel.\<close> No model takes fuel. Loops whose end depends on the data are partial functions, and
  the theorems about them show that they return.

  \<^bold>\<open>Not modelled.\<close> The machine code that enters and leaves the kernel (\<open>loader.S\<close>, \<open>start.S\<close>, \<open>intr-stubs.S\<close>,
  \<open>switch.S\<close>), whose effect on the modelled state is stated where it is used. Drivers that only move
  bytes between ports and memory (IDE disks, keyboard, serial port, display, clock, speaker), console output and its
  formatting, and the boot sequence of \<open>init.c\<close>. The user programs, tests and build tools.
  Locks that a function takes and gives back itself are flags, except in \<open>Synch\<close>, where locks are modelled in full.
  The counters of ticks and the thread identifiers are unbounded integers; it would take $2^{63}$
  ticks and $2^{31}$ threads to wrap them.
\<close>

end
